(* ===== verification/Prelude.thy ===== *)
theory Prelude
  imports Main "HOL-Library.Word"
begin

text \<open>
  Shared vocabulary of the development.

  \<^item> The machine integers of \<^verbatim>\<open>types.h\<close> as fixed-width words.
  \<^item> The outcome of a kernel path: it returns (\<open>Ok\<close>), it stops the machine or misbehaves
    (\<open>Fail\<close>), or it gives the CPU away through \<open>swtch\<close> (\<open>Switch\<close>); and the
    state-passing combinators in which the kernel's functions are written.
  \<^item> Little-endian encoding of integers as byte lists, and a byte-addressed memory.
  \<^item> Lemmas on list slices that the buffer, inode and memory components share.
\<close>

unbundle bit_operations_syntax

section \<open>Machine integers (types.h)\<close>

type_synonym uchar = "8 word"
type_synonym ushort = "16 word"
type_synonym uint = "32 word"
type_synonym uint64 = "64 word"
type_synonym addr_t = "64 word"

named_theorems k_simps \<open>unfolding of the state-passing combinators\<close>
named_theorems word_to_nat \<open>moving word goals to natural numbers\<close>
named_theorems kstay_intros \<open>operations that never give the CPU away\<close>

section \<open>Outcomes of a kernel path\<close>

datatype kerr =
    EPanic string   \<comment> \<open>\<open>panic(msg)\<close>: the CPU halts\<close>
  | ESpin           \<comment> \<open>spins for ever on a lock another CPU holds\<close>
  | EFault string   \<comment> \<open>dereferences a null pointer or runs outside an array\<close>

datatype ('a, 's) outcome =
    Ok 'a 's
  | Fail kerr
  | Switch 's       \<comment> \<open>control left through \<open>swtch\<close>, in this state\<close>

type_synonym ('s, 'a) km = "'s \<Rightarrow> ('a, 's) outcome"

definition kret :: "'a \<Rightarrow> ('s, 'a) km" where
  "kret x = (\<lambda>s. Ok x s)"

definition kbind :: "('s, 'a) km \<Rightarrow> ('a \<Rightarrow> ('s, 'b) km) \<Rightarrow> ('s, 'b) km" where
  "kbind m f = (\<lambda>s. case m s of Ok x s' \<Rightarrow> f x s' | Fail e \<Rightarrow> Fail e | Switch s' \<Rightarrow> Switch s')"

definition kseq :: "('s, 'a) km \<Rightarrow> ('s, 'b) km \<Rightarrow> ('s, 'b) km" where
  "kseq m n = kbind m (\<lambda>_. n)"

definition kget :: "('s \<Rightarrow> 'a) \<Rightarrow> ('s, 'a) km" where
  "kget f = (\<lambda>s. Ok (f s) s)"

definition kmod :: "('s \<Rightarrow> 's) \<Rightarrow> ('s, unit) km" where
  "kmod f = (\<lambda>s. Ok () (f s))"

definition kpanic :: "string \<Rightarrow> ('s, 'a) km" where
  "kpanic msg = (\<lambda>s. Fail (EPanic msg))"

definition kfault :: "string \<Rightarrow> ('s, 'a) km" where
  "kfault msg = (\<lambda>s. Fail (EFault msg))"

definition kwhen :: "bool \<Rightarrow> ('s, unit) km \<Rightarrow> ('s, unit) km" where
  "kwhen b m = (if b then m else kret ())"

primrec kfor :: "('i \<Rightarrow> ('s, unit) km) \<Rightarrow> 'i list \<Rightarrow> ('s, unit) km" where
  "kfor body [] = kret ()"
| "kfor body (i # is) = kseq (body i) (kfor body is)"

text \<open>A loop whose body may leave it early with a result.\<close>

primrec kloop :: "('i \<Rightarrow> ('s, 'r option) km) \<Rightarrow> 'i list \<Rightarrow> ('s, 'r option) km" where
  "kloop body [] = kret None"
| "kloop body (i # is) =
     kbind (body i) (\<lambda>r. case r of None \<Rightarrow> kloop body is | Some x \<Rightarrow> kret (Some x))"

lemma kret_apply [k_simps]: "kret x s = Ok x s"
  by (simp add: kret_def)

lemma kget_apply [k_simps]: "kget f s = Ok (f s) s"
  by (simp add: kget_def)

lemma kmod_apply [k_simps]: "kmod f s = Ok () (f s)"
  by (simp add: kmod_def)

lemma kpanic_apply [k_simps]: "kpanic msg s = Fail (EPanic msg)"
  by (simp add: kpanic_def)

lemma kfault_apply [k_simps]: "kfault msg s = Fail (EFault msg)"
  by (simp add: kfault_def)

lemma kwhen_apply [k_simps]: "kwhen b m s = (if b then m s else Ok () s)"
  by (simp add: kwhen_def kret_def)

lemma kbind_apply [k_simps]:
  "kbind m f s = (case m s of Ok x s' \<Rightarrow> f x s' | Fail e \<Rightarrow> Fail e | Switch s' \<Rightarrow> Switch s')"
  by (simp add: kbind_def)

lemma kseq_apply [k_simps]:
  "kseq m n s = (case m s of Ok x s' \<Rightarrow> n s' | Fail e \<Rightarrow> Fail e | Switch s' \<Rightarrow> Switch s')"
  by (simp add: kseq_def kbind_def)

lemma kbind_Ok: "m s = Ok x s' \<Longrightarrow> kbind m f s = f x s'"
  by (simp add: kbind_def)

lemma kseq_Ok: "m s = Ok x s' \<Longrightarrow> kseq m n s = n s'"
  by (simp add: kseq_def kbind_def)

lemma kbind_eq_Ok: "kbind m f s = Ok y t \<longleftrightarrow> (\<exists>x u. m s = Ok x u \<and> f x u = Ok y t)"
  by (auto simp: kbind_def split: outcome.splits)

lemma kseq_eq_Ok: "kseq m n s = Ok y t \<longleftrightarrow> (\<exists>x u. m s = Ok x u \<and> n u = Ok y t)"
  by (auto simp: kseq_def kbind_eq_Ok)

lemma kbind_assoc: "kbind (kbind m f) g = kbind m (\<lambda>x. kbind (f x) g)"
  by (rule ext) (simp add: kbind_def split: outcome.splits)

lemma kfor_append: "kfor body (xs @ ys) = kseq (kfor body xs) (kfor body ys)"
  by (induction xs) (auto simp: kret_def kseq_def kbind_def fun_eq_iff split: outcome.splits)

text \<open>
  The weakest precondition of returning normally: \<open>kwp m Q s\<close> says that \<open>m\<close>, run in
  \<open>s\<close>, returns, with a value and a state that satisfy \<open>Q\<close>.
\<close>

definition kwp :: "('s, 'a) km \<Rightarrow> ('a \<Rightarrow> 's \<Rightarrow> bool) \<Rightarrow> 's \<Rightarrow> bool" where
  "kwp m Q s = (case m s of Ok x s' \<Rightarrow> Q x s' | _ \<Rightarrow> False)"

lemma kwp_bind: "kwp (kbind m f) Q s = kwp m (\<lambda>x. kwp (f x) Q) s"
  by (simp add: kwp_def kbind_def split: outcome.splits)

lemma kwp_seq: "kwp (kseq m n) Q s = kwp m (\<lambda>_. kwp n Q) s"
  by (simp add: kseq_def kwp_bind)

lemma kwp_ret: "kwp (kret x) Q s = Q x s"
  by (simp add: kwp_def kret_def)

lemma kwp_mono: "kwp m P s \<Longrightarrow> (\<And>x t. P x t \<Longrightarrow> Q x t) \<Longrightarrow> kwp m Q s"
  by (simp add: kwp_def split: outcome.splits)

lemma kwp_iff: "kwp m Q s \<longleftrightarrow> (\<exists>x t. m s = Ok x t \<and> Q x t)"
  by (simp add: kwp_def split: outcome.splits)

text \<open>An invariant that one turn of a loop keeps is kept by the loop.\<close>

lemma kwp_for:
  assumes "P 0 s"
    and "\<And>k t. k < length is \<Longrightarrow> P k t \<Longrightarrow> kwp (body (is ! k)) (\<lambda>_. P (Suc k)) t"
  shows "kwp (kfor body is) (\<lambda>_. P (length is)) s"
  using assms
proof (induction "is" arbitrary: P s)
  case Nil
  then show ?case by (simp add: kwp_ret)
next
  case (Cons i "is")
  have step: "kwp (body i) (\<lambda>_. P (Suc 0)) s"
    using Cons.prems(2)[of 0 s] Cons.prems(1) by simp
  have rest: "kwp (kfor body is) (\<lambda>_ t. P (Suc (length is)) t) t" if "P (Suc 0) t" for t
    using Cons.IH[of "\<lambda>k. P (Suc k)" t] Cons.prems(2)[of "Suc _"] that by simp
  show ?case
    using step rest by (auto simp: kwp_seq intro: kwp_mono)
qed

text \<open>What must have happened for a composition to return or to switch away.\<close>

lemma kbind_eq_Switch:
  "kbind m f s = Switch t \<longleftrightarrow> m s = Switch t \<or> (\<exists>x u. m s = Ok x u \<and> f x u = Switch t)"
  by (auto simp: kbind_def split: outcome.splits)

lemma kseq_eq_Switch:
  "kseq m n s = Switch t \<longleftrightarrow> m s = Switch t \<or> (\<exists>x u. m s = Ok x u \<and> n u = Switch t)"
  by (auto simp: kseq_def kbind_eq_Switch)

lemmas k_prims = kret_apply kget_apply kmod_apply kpanic_apply kfault_apply kwhen_apply
lemmas k_invert = k_prims kbind_eq_Ok kseq_eq_Ok kbind_eq_Switch kseq_eq_Switch

section \<open>Frames\<close>

text \<open>
  \<open>kpres R m\<close>: whenever \<open>m\<close> returns or switches away, the state it leaves is related by
  \<open>R\<close> to the state it started in. For a preorder \<open>R\<close> this composes along the control
  structure of a kernel path; \<open>kframe\<close> provides the rules, and each frame a proof needs is
  an interpretation of it.
\<close>

definition kpres :: "('s \<Rightarrow> 's \<Rightarrow> bool) \<Rightarrow> ('s, 'a) km \<Rightarrow> bool" where
  "kpres R m \<longleftrightarrow> (\<forall>s. case m s of Ok _ t \<Rightarrow> R s t | Fail _ \<Rightarrow> True | Switch t \<Rightarrow> R s t)"

lemma kpresI:
  "(\<And>s x t. m s = Ok x t \<Longrightarrow> R s t) \<Longrightarrow> (\<And>s t. m s = Switch t \<Longrightarrow> R s t) \<Longrightarrow> kpres R m"
  by (auto simp: kpres_def split: outcome.splits)

lemma kpresD: "kpres R m \<Longrightarrow> m s = Ok x t \<Longrightarrow> R s t"
  by (auto simp: kpres_def dest: spec[of _ s])

lemma kpres_SwitchD: "kpres R m \<Longrightarrow> m s = Switch t \<Longrightarrow> R s t"
  by (auto simp: kpres_def dest: spec[of _ s])

lemma kpres_panic: "kpres R (kpanic msg)"
  by (simp add: kpres_def k_simps)

lemma kpres_fault: "kpres R (kfault msg)"
  by (simp add: kpres_def k_simps)

lemma kpres_fail: "kpres R (\<lambda>s. Fail e)"
  by (simp add: kpres_def)

lemma kpres_mod: "(\<And>s. R s (f s)) \<Longrightarrow> kpres R (kmod f)"
  by (simp add: kpres_def k_simps)

lemma kpres_if: "(b \<Longrightarrow> kpres R m) \<Longrightarrow> (\<not> b \<Longrightarrow> kpres R n) \<Longrightarrow> kpres R (if b then m else n)"
  by simp

lemma kpres_let: "kpres R (f x) \<Longrightarrow> kpres R (Let x f)"
  by simp

lemma kpres_option:
  "(x = None \<Longrightarrow> kpres R m) \<Longrightarrow> (\<And>y. x = Some y \<Longrightarrow> kpres R (f y)) \<Longrightarrow>
   kpres R (case x of None \<Rightarrow> m | Some y \<Rightarrow> f y)"
  by (cases x) auto

lemma kpres_prod: "(\<And>a b. x = (a, b) \<Longrightarrow> kpres R (f a b)) \<Longrightarrow> kpres R (case x of (a, b) \<Rightarrow> f a b)"
  by (cases x) auto

locale kframe =
  fixes R :: "'s \<Rightarrow> 's \<Rightarrow> bool"
  assumes frame_refl: "R s s" and frame_trans: "R s t \<Longrightarrow> R t u \<Longrightarrow> R s u"
begin

lemma pres_ret: "kpres R (kret x)"
  by (simp add: kpres_def k_simps frame_refl)

lemma pres_get: "kpres R (kget f)"
  by (simp add: kpres_def k_simps frame_refl)

lemma pres_switch: "kpres R (\<lambda>s. Switch s)"
  by (simp add: kpres_def frame_refl)

lemma pres_bind: "kpres R m \<Longrightarrow> (\<And>x. kpres R (f x)) \<Longrightarrow> kpres R (kbind m f)"
  by (rule kpresI) (auto simp: kbind_eq_Ok kbind_eq_Switch dest: kpresD kpres_SwitchD intro: frame_trans)

text \<open>The same with a property of the first part's result.\<close>

lemma pres_bind_res:
  "kpres R m \<Longrightarrow> (\<And>s x t. m s = Ok x t \<Longrightarrow> P x) \<Longrightarrow> (\<And>x. P x \<Longrightarrow> kpres R (f x)) \<Longrightarrow> kpres R (kbind m f)"
  by (rule kpresI)
    (auto simp: kbind_eq_Ok kbind_eq_Switch dest: kpres_SwitchD,
      (blast intro: frame_trans dest: kpresD kpres_SwitchD)+)

lemma pres_seq: "kpres R m \<Longrightarrow> kpres R n \<Longrightarrow> kpres R (kseq m n)"
  unfolding kseq_def by (rule pres_bind)

lemma pres_when: "(b \<Longrightarrow> kpres R m) \<Longrightarrow> kpres R (kwhen b m)"
  by (simp add: kwhen_def pres_ret)

lemma pres_for: "(\<And>i. i \<in> set is \<Longrightarrow> kpres R (body i)) \<Longrightarrow> kpres R (kfor body is)"
  by (induction "is") (auto intro: pres_ret pres_seq)

lemma pres_loop: "(\<And>i. i \<in> set is \<Longrightarrow> kpres R (body i)) \<Longrightarrow> kpres R (kloop body is)"
  by (induction "is") (auto intro!: pres_ret pres_bind kpres_option)

lemmas pres = pres_ret pres_get pres_switch pres_bind pres_seq pres_when pres_for pres_loop
  kpres_panic kpres_fault kpres_fail kpres_if kpres_let kpres_option kpres_prod

end

text \<open>Keeping a property of states is a frame.\<close>

definition keeps :: "('s \<Rightarrow> bool) \<Rightarrow> 's \<Rightarrow> 's \<Rightarrow> bool" where
  "keeps P s t \<longleftrightarrow> (P s \<longrightarrow> P t)"

interpretation keeps: kframe "keeps P" for P
  by unfold_locales (auto simp: keeps_def)

text \<open>Establishing a property of states: some step does, and the steps after it keep it.\<close>

definition kpost :: "('s \<Rightarrow> bool) \<Rightarrow> ('s, 'a) km \<Rightarrow> bool" where
  "kpost P m \<longleftrightarrow> (\<forall>s x t. m s = Ok x t \<longrightarrow> P t)"

lemma kpost_later: "(\<And>x. kpost P (f x)) \<Longrightarrow> kpost P (kbind m f)"
  by (auto simp: kpost_def kbind_eq_Ok)

lemma kpost_later_seq: "kpost P n \<Longrightarrow> kpost P (kseq m n)"
  by (auto simp: kseq_def intro: kpost_later)

lemma kpost_now: "kpost P m \<Longrightarrow> kpres (keeps P) n \<Longrightarrow> kpost P (kseq m n)"
  by (auto simp: kpost_def kseq_eq_Ok keeps_def dest: kpresD)

text \<open>Code that never reaches \<open>swtch\<close>.\<close>

definition kstay :: "('s, 'a) km \<Rightarrow> bool" where
  "kstay m \<longleftrightarrow> (\<forall>s t. m s \<noteq> Switch t)"

lemma kstayD: "kstay m \<Longrightarrow> m s \<noteq> Switch t"
  by (simp add: kstay_def)

lemma kstay_basic [kstay_intros]:
  "kstay (kret x)" "kstay (kget f)" "kstay (kmod g)" "kstay (kpanic msg)" "kstay (kfault msg)"
  "kstay (\<lambda>s. Fail e)"
  by (simp_all add: kstay_def k_prims)

lemma kstay_bind [kstay_intros]: "kstay m \<Longrightarrow> (\<And>x. kstay (f x)) \<Longrightarrow> kstay (kbind m f)"
  by (simp add: kstay_def kbind_eq_Switch)

lemma kstay_seq [kstay_intros]: "kstay m \<Longrightarrow> kstay n \<Longrightarrow> kstay (kseq m n)"
  unfolding kseq_def by (rule kstay_bind)

lemma kstay_when [kstay_intros]: "(b \<Longrightarrow> kstay m) \<Longrightarrow> kstay (kwhen b m)"
  by (simp add: kwhen_def kstay_basic)

lemma kstay_if [kstay_intros]:
  "(b \<Longrightarrow> kstay m) \<Longrightarrow> (\<not> b \<Longrightarrow> kstay n) \<Longrightarrow> kstay (if b then m else n)"
  by simp

lemma kstay_let [kstay_intros]: "kstay (f x) \<Longrightarrow> kstay (Let x f)"
  by simp

lemma kstay_option [kstay_intros]:
  "(x = None \<Longrightarrow> kstay m) \<Longrightarrow> (\<And>y. x = Some y \<Longrightarrow> kstay (f y)) \<Longrightarrow>
   kstay (case x of None \<Rightarrow> m | Some y \<Rightarrow> f y)"
  by (cases x) auto

lemma kstay_for [kstay_intros]: "(\<And>i. kstay (body i)) \<Longrightarrow> kstay (kfor body is)"
  by (induction "is") (auto intro: kstay_intros)

section \<open>List slices\<close>

definition chunk :: "nat \<Rightarrow> nat \<Rightarrow> 'a list \<Rightarrow> 'a list" where
  "chunk off n xs = take n (drop off xs)"

definition patch :: "nat \<Rightarrow> 'a list \<Rightarrow> 'a list \<Rightarrow> 'a list" where
  "patch off ys xs = take off xs @ ys @ drop (off + length ys) xs"

lemma length_chunk [simp]: "off + n \<le> length xs \<Longrightarrow> length (chunk off n xs) = n"
  by (simp add: chunk_def)

lemma length_patch [simp]: "off + length ys \<le> length xs \<Longrightarrow> length (patch off ys xs) = length xs"
  by (simp add: patch_def)

lemma nth_chunk: "off + n \<le> length xs \<Longrightarrow> i < n \<Longrightarrow> chunk off n xs ! i = xs ! (off + i)"
  by (simp add: chunk_def)

lemma nth_patch:
  "off + length ys \<le> length xs \<Longrightarrow> i < length xs \<Longrightarrow>
   patch off ys xs ! i = (if off \<le> i \<and> i < off + length ys then ys ! (i - off) else xs ! i)"
  by (auto simp: patch_def nth_append min_def)

lemma chunk_patch_same [simp]:
  "off + length ys \<le> length xs \<Longrightarrow> n = length ys \<Longrightarrow> chunk off n (patch off ys xs) = ys"
  by (simp add: chunk_def patch_def)

lemma chunk_patch_other:
  assumes "off + length ys \<le> length xs" and "k + n \<le> length xs"
    and "k + n \<le> off \<or> off + length ys \<le> k"
  shows "chunk k n (patch off ys xs) = chunk k n xs"
  using assms by (intro nth_equalityI) (auto simp: nth_chunk nth_patch)

lemma patch_chunk_same [simp]: "off + n \<le> length xs \<Longrightarrow> patch off (chunk off n xs) xs = xs"
  by (intro nth_equalityI) (auto simp: nth_chunk nth_patch)

lemma kloop_append:
  "kloop body (xs @ ys) s = (case kloop body xs s of Ok None t \<Rightarrow> kloop body ys t | Ok (Some r) t \<Rightarrow> Ok (Some r) t
     | Fail e \<Rightarrow> Fail e | Switch t \<Rightarrow> Switch t)"
proof (induction xs arbitrary: s)
  case Nil
  show ?case by (simp add: k_simps)
next
  case (Cons x xs)
  show ?case by (auto simp: k_simps Cons.IH split: outcome.split option.split)
qed

lemma chunk_replicate: "off + n \<le> m \<Longrightarrow> chunk off n (replicate m x) = replicate n x"
  by (simp add: chunk_def)

lemma find_upt_None: "find P [0..<n] = None \<longleftrightarrow> (\<forall>i<n. \<not> P i)"
  by (auto simp: find_None_iff)

lemma find_upt_Some:
  "find P [0..<n] = Some i \<longleftrightarrow> i < n \<and> P i \<and> (\<forall>j<i. \<not> P j)"
  by (auto simp: find_Some_iff)

end
