(* ===== verification/Memory.thy ===== *)
theory Memory
  imports Prelude
begin

text \<open>
  Bytes and words: the little-endian layout the x86 gives to C integers, a byte-addressed
  memory over the whole 64-bit address space, and the load and store of a 64-bit word in
  it. The on-disk structures of \<^verbatim>\<open>fs.h\<close>, the page tables of \<^verbatim>\<open>vm.c\<close> and the free
  list of \<^verbatim>\<open>kalloc.c\<close> are all read and written through these.
\<close>

section \<open>Little-endian encoding\<close>

definition le_put :: "nat \<Rightarrow> 'a::len word \<Rightarrow> uchar list" where
  "le_put n w = map (\<lambda>i. ucast (drop_bit (8 * i) w)) [0..<n]"

primrec le_get :: "uchar list \<Rightarrow> 'a::len word" where
  "le_get [] = 0"
| "le_get (b # bs) = ucast b OR push_bit 8 (le_get bs)"

lemma length_le_put [simp]: "length (le_put n w) = n"
  by (simp add: le_put_def)

lemma nth_le_put: "i < n \<Longrightarrow> le_put n w ! i = ucast (drop_bit (8 * i) w)"
  by (simp add: le_put_def)

lemma bit_le_get:
  "bit (le_get bs :: 'a::len word) k \<longleftrightarrow>
     k < LENGTH('a) \<and> k div 8 < length bs \<and> bit (bs ! (k div 8)) (k mod 8)"
proof (induction bs arbitrary: k)
  case Nil
  then show ?case by simp
next
  case (Cons b bs)
  show ?case
  proof (cases "k < 8")
    case True
    then show ?thesis
      by (auto simp: bit_or_iff bit_push_bit_iff bit_ucast_iff)
  next
    case False
    then have d: "k div 8 = Suc ((k - 8) div 8)" and m: "k mod 8 = (k - 8) mod 8"
      by (simp_all add: le_div_geq le_mod_geq)
    have nb: "\<not> bit b k"
      using False by (auto dest: bit_imp_le_length)
    show ?thesis
      using False nb by (auto simp: bit_or_iff bit_push_bit_iff bit_ucast_iff d m Cons.IH)
  qed
qed

text \<open>Encoding and decoding are inverse to each other when the widths agree.\<close>

lemma le_get_put:
  assumes "LENGTH('a) = 8 * n"
  shows "le_get (le_put n (w :: 'a::len word)) = w"
proof (rule bit_word_eqI)
  fix k
  assume k: "k < LENGTH('a)"
  then have "k div 8 < n" and "k mod 8 < 8"
    using assms by auto
  then show "bit (le_get (le_put n w) :: 'a word) k = bit w k"
    using k by (simp add: bit_le_get nth_le_put bit_ucast_iff bit_drop_bit_eq)
qed

lemma le_put_get:
  assumes "length bs = n" and "8 * n \<le> LENGTH('a)"
  shows "le_put n (le_get bs :: 'a::len word) = bs"
proof (rule nth_equalityI)
  show "length (le_put n (le_get bs :: 'a word)) = length bs"
    using assms by simp
next
  fix i
  assume "i < length (le_put n (le_get bs :: 'a word))"
  then have i: "i < n" by simp
  show "le_put n (le_get bs :: 'a word) ! i = bs ! i"
  proof (rule bit_word_eqI)
    fix k
    assume k: "k < LENGTH(8)"
    then have "8 * i + k < LENGTH('a)" and "(8 * i + k) div 8 = i" and "(8 * i + k) mod 8 = k"
      using i assms by auto
    then show "bit (le_put n (le_get bs :: 'a word) ! i) k = bit (bs ! i) k"
      using i k assms by (simp add: nth_le_put bit_ucast_iff bit_drop_bit_eq bit_le_get)
  qed
qed

lemma le_get_zeros [simp]: "le_get (replicate n 0) = 0"
  by (induction n) auto

section \<open>Byte-addressed memory\<close>

type_synonym memory = "addr_t \<Rightarrow> uchar"

definition load_bytes :: "memory \<Rightarrow> addr_t \<Rightarrow> nat \<Rightarrow> uchar list" where
  "load_bytes m a n = map (\<lambda>i. m (a + of_nat i)) [0..<n]"

definition store_bytes :: "memory \<Rightarrow> addr_t \<Rightarrow> uchar list \<Rightarrow> memory" where
  "store_bytes m a bs = (\<lambda>x. if unat (x - a) < length bs then bs ! unat (x - a) else m x)"

definition load64 :: "memory \<Rightarrow> addr_t \<Rightarrow> uint64" where
  "load64 m a = le_get (load_bytes m a 8)"

definition store64 :: "memory \<Rightarrow> addr_t \<Rightarrow> uint64 \<Rightarrow> memory" where
  "store64 m a w = store_bytes m a (le_put 8 w)"

lemma length_load_bytes [simp]: "length (load_bytes m a n) = n"
  by (simp add: load_bytes_def)

lemma nth_load_bytes: "i < n \<Longrightarrow> load_bytes m a n ! i = m (a + of_nat i)"
  by (simp add: load_bytes_def)

lemma unat_of_nat_small: "i < 2 ^ 64 \<Longrightarrow> unat (of_nat i :: addr_t) = i"
  by (simp add: unsigned_of_nat take_bit_nat_eq_self)

lemma unat_bound: "unat (x :: 'a::len word) < 2 ^ LENGTH('a)"
  by (rule unsigned_less)

lemma load_store_bytes_same:
  "n = length bs \<Longrightarrow> n \<le> 2 ^ 64 \<Longrightarrow> load_bytes (store_bytes m a bs) a n = bs"
  by (intro nth_equalityI) (auto simp: nth_load_bytes store_bytes_def unat_of_nat_small)

text \<open>A store is not seen by a load whose bytes it does not touch.\<close>

lemma load_bytes_cong:
  "(\<And>i. i < n \<Longrightarrow> m (a + of_nat i) = m' (a + of_nat i)) \<Longrightarrow> load_bytes m a n = load_bytes m' a n"
  by (simp add: load_bytes_def)

lemma store_bytes_other: "length bs \<le> unat (x - a) \<Longrightarrow> store_bytes m a bs x = m x"
  by (simp add: store_bytes_def)

lemma load_store_bytes_other:
  assumes "\<And>i. i < n \<Longrightarrow> length bs \<le> unat (b + of_nat i - a)"
  shows "load_bytes (store_bytes m a bs) b n = load_bytes m b n"
  using assms by (intro load_bytes_cong store_bytes_other)

text \<open>Reading a part of what was stored.\<close>

lemma load_store_bytes_chunk:
  assumes "off + n \<le> length bs" and "length bs \<le> 2 ^ 64"
  shows "load_bytes (store_bytes m a bs) (a + of_nat off) n = chunk off n bs"
proof (rule nth_equalityI)
  fix i
  assume "i < length (load_bytes (store_bytes m a bs) (a + of_nat off) n)"
  then have i: "i < n" by simp
  have "unat (a + of_nat off + of_nat i - a) = off + i"
    using unat_of_nat_small[of "off + i"] assms i by (simp add: add.assoc)
  then show "load_bytes (store_bytes m a bs) (a + of_nat off) n ! i = chunk off n bs ! i"
    using assms i by (simp add: nth_load_bytes nth_chunk store_bytes_def)
qed (simp add: assms)

lemma load_store64_same [simp]: "load64 (store64 m a w) a = w"
  by (simp add: load64_def store64_def load_store_bytes_same le_get_put)

lemma store64_same_word: "store64 m a (load64 m a) = m"
proof
  fix x
  show "store64 m a (load64 m a) x = m x"
  proof (cases "unat (x - a) < 8")
    case True
    have "le_put 8 (load64 m a) = load_bytes m a 8"
      by (simp add: load64_def le_put_get)
    then show ?thesis
      using True by (simp add: store64_def store_bytes_def nth_load_bytes)
  next
    case False
    then show ?thesis by (simp add: store64_def store_bytes_def)
  qed
qed

text \<open>Two different 8-aligned words do not overlap.\<close>

lemma aligned_unat_diff:
  fixes a b :: addr_t
  assumes "8 dvd unat a" and "8 dvd unat b" and "a \<noteq> b" and "i < 8"
  shows "8 \<le> unat (b + of_nat i - a)"
proof -
  obtain p where p: "unat a = 8 * p" using assms(1) by (auto elim: dvdE)
  obtain q where q: "unat b = 8 * q" using assms(2) by (auto elim: dvdE)
  have pq: "p \<noteq> q"
    using assms(3) p q by (auto simp: word_unat_eq_iff)
  have bounds: "8 * p < 2 ^ 64" "8 * q < 2 ^ 64"
    using unat_bound[of a] unat_bound[of b] by (simp_all add: p q)
  have "unat (b + of_nat i) = 8 * q + i"
    using bounds assms(4) by (simp add: unat_word_ariths q unat_of_nat_small)
  then have "unat (b + of_nat i - a) =
      (if 8 * p \<le> 8 * q + i then 8 * q + i - 8 * p else 8 * q + i + 2 ^ 64 - 8 * p)"
    by (simp add: unat_sub_if' word_le_nat_alt p)
  then show ?thesis
    using pq bounds assms(4) by (auto split: if_splits)
qed

lemma load_store64_other:
  "8 dvd unat a \<Longrightarrow> 8 dvd unat b \<Longrightarrow> a \<noteq> b \<Longrightarrow> load64 (store64 m a w) b = load64 m b"
  by (simp add: load64_def store64_def load_store_bytes_other aligned_unat_diff)

end
