(* ===== verification/Spinlock.thy ===== *)
theory Spinlock
  imports Memory
begin

text \<open>
  \<^verbatim>\<open>spinlock.c\<close>: per-CPU interrupt nesting (\<open>pushcli\<close>, \<open>popcli\<close>) and mutual exclusion
  between CPUs. \<open>kstate\<close> is the root of the kernel state; later theories extend the record
  with their own fields, so the lock operations here run unchanged in every later state.

  Two views of a lock are given. Run on one CPU with the others standing still, \<open>acquire\<close>
  and \<open>release\<close> are the state transformers below. Run on several CPUs at once, they are
  the interleaved instructions of \<open>spin_step\<close>, for which mutual exclusion is an
  invariant of every reachable state.
\<close>

section \<open>State (spinlock.h, proc.h)\<close>

text \<open>The locks of the kernel, by the object each one protects.\<close>

datatype lockid =
    KmemLock | PtableLock | BcacheLock | IdeLock | IcacheLock | FtableLock | LogLock
  | TicksLock | ConsLock | InputLock
  | PipeLock addr_t  \<comment> \<open>\<open>p->lock\<close> of the pipe at this address\<close>
  | BufLock nat      \<comment> \<open>\<open>lk\<close> inside the sleep lock of buffer \<open>bcache.buf[i]\<close>\<close>
  | InodeLock nat    \<comment> \<open>\<open>lk\<close> inside the sleep lock of \<open>icache.inode[i]\<close>\<close>

record spinlock =
  locked :: uint
  lk_name :: string
  lk_cpu :: "nat option"

record cpu =
  ncli :: int
  intena :: bool
  if_flag :: bool  \<comment> \<open>the FL_IF bit of this CPU's eflags\<close>

record kstate =
  cpuid :: nat               \<comment> \<open>the CPU that executes: \<open>cpu == &cpus[cpuid]\<close>\<close>
  cpus :: "nat \<Rightarrow> cpu"
  locks :: "lockid \<Rightarrow> spinlock"

definition set_cpu :: "(cpu \<Rightarrow> cpu) \<Rightarrow> ('x kstate_scheme, unit) km" where
  "set_cpu f = kmod (\<lambda>s. s\<lparr>cpus := (cpus s)(cpuid s := f (cpus s (cpuid s)))\<rparr>)"

definition set_lock :: "lockid \<Rightarrow> (spinlock \<Rightarrow> spinlock) \<Rightarrow> ('x kstate_scheme, unit) km" where
  "set_lock lk f = kmod (\<lambda>s. s\<lparr>locks := (locks s)(lk := f (locks s lk))\<rparr>)"

section \<open>Operations (spinlock.c)\<close>

definition initlock :: "lockid \<Rightarrow> string \<Rightarrow> ('x kstate_scheme, unit) km" where
  "initlock lk nm = set_lock lk (\<lambda>l. l\<lparr>lk_name := nm, locked := 0, lk_cpu := None\<rparr>)"

definition holding :: "lockid \<Rightarrow> 'x kstate_scheme \<Rightarrow> bool" where
  "holding lk s \<longleftrightarrow> locked (locks s lk) \<noteq> 0 \<and> lk_cpu (locks s lk) = Some (cpuid s)"

definition pushcli :: "('x kstate_scheme, unit) km" where
  "pushcli =
     kbind (kget (\<lambda>s. if_flag (cpus s (cpuid s)))) (\<lambda>eflags.
     kseq (set_cpu (\<lambda>c. c\<lparr>if_flag := False\<rparr>))
     (kseq (set_cpu (\<lambda>c. if ncli c = 0 then c\<lparr>intena := eflags\<rparr> else c))
           (set_cpu (\<lambda>c. c\<lparr>ncli := ncli c + 1\<rparr>))))"

definition popcli :: "('x kstate_scheme, unit) km" where
  "popcli =
     kbind (kget (\<lambda>s. if_flag (cpus s (cpuid s)))) (\<lambda>eflags.
     if eflags then kpanic ''popcli - interruptible''
     else kseq (set_cpu (\<lambda>c. c\<lparr>ncli := ncli c - 1\<rparr>))
       (kbind (kget (\<lambda>s. cpus s (cpuid s))) (\<lambda>c.
        if ncli c < 0 then kpanic ''popcli''
        else kwhen (ncli c = 0 \<and> intena c) (set_cpu (\<lambda>c. c\<lparr>if_flag := True\<rparr>)))))"

text \<open>The atomic exchange of \<^verbatim>\<open>x86.h\<close> on \<open>lk->locked\<close>.\<close>

definition xchg :: "lockid \<Rightarrow> uint \<Rightarrow> ('x kstate_scheme, uint) km" where
  "xchg lk newval =
     kbind (kget (\<lambda>s. locked (locks s lk))) (\<lambda>old.
     kseq (set_lock lk (\<lambda>l. l\<lparr>locked := newval\<rparr>)) (kret old))"

text \<open>
  \<open>acquire\<close>: where the exchange finds the lock taken, the code spins until another CPU
  releases it; with the other CPUs standing still that is for ever.
\<close>

definition acquire :: "lockid \<Rightarrow> ('x kstate_scheme, unit) km" where
  "acquire lk =
     kseq pushcli
     (kbind (kget (holding lk)) (\<lambda>h.
      if h then kpanic ''acquire''
      else kbind (xchg lk 1) (\<lambda>old.
        if old \<noteq> 0 then (\<lambda>_. Fail ESpin)
        else kbind (kget cpuid) (\<lambda>c. set_lock lk (\<lambda>l. l\<lparr>lk_cpu := Some c\<rparr>)))))"

definition release :: "lockid \<Rightarrow> ('x kstate_scheme, unit) km" where
  "release lk =
     kbind (kget (holding lk)) (\<lambda>h.
     if \<not> h then kpanic ''release''
     else kseq (set_lock lk (\<lambda>l. l\<lparr>lk_cpu := None\<rparr>))
       (kseq (set_lock lk (\<lambda>l. l\<lparr>locked := 0\<rparr>)) popcli))"

text \<open>A critical section: \<open>acquire(lk); ...; release(lk)\<close>.\<close>

definition with_lock :: "lockid \<Rightarrow> ('x kstate_scheme, 'a) km \<Rightarrow> ('x kstate_scheme, 'a) km" where
  "with_lock lk body = kseq (acquire lk) (kbind body (\<lambda>r. kseq (release lk) (kret r)))"

text \<open>
  \<open>getstackpcs\<close>: up to ten return addresses along the chain of saved frame pointers, the
  rest of the array zero.
\<close>

definition KERNBASE :: addr_t where
  "KERNBASE = 0xFFFF800000000000"

fun stackpcs_loop :: "memory \<Rightarrow> addr_t \<Rightarrow> nat \<Rightarrow> addr_t list" where
  "stackpcs_loop m rbp 0 = []"
| "stackpcs_loop m rbp (Suc k) =
     (if rbp = 0 \<or> rbp < KERNBASE \<or> rbp = 0xffffffff then replicate (Suc k) 0
      else load64 m (rbp + 8) # stackpcs_loop m (load64 m rbp) k)"

definition getstackpcs :: "memory \<Rightarrow> addr_t \<Rightarrow> addr_t list" where
  "getstackpcs m rbp = stackpcs_loop m rbp 10"

lemmas spin_defs = set_cpu_def set_lock_def xchg_def holding_def

section \<open>Interrupt state and free locks\<close>

text \<open>
  Between critical sections interrupts are on exactly when \<open>intena\<close> says so; inside one
  they are off.
\<close>

definition irq_ok :: "'x kstate_scheme \<Rightarrow> bool" where
  "irq_ok s \<longleftrightarrow> 0 \<le> ncli (cpus s (cpuid s)) \<and>
     (if ncli (cpus s (cpuid s)) = 0
      then intena (cpus s (cpuid s)) = if_flag (cpus s (cpuid s))
      else \<not> if_flag (cpus s (cpuid s)))"

definition lock_free :: "lockid \<Rightarrow> 'x kstate_scheme \<Rightarrow> bool" where
  "lock_free lk s \<longleftrightarrow> locked (locks s lk) = 0 \<and> lk_cpu (locks s lk) = None"

text \<open>No lock is held and this CPU's interrupt state is sound: where system calls run.\<close>

definition quiet :: "'x kstate_scheme \<Rightarrow> bool" where
  "quiet s \<longleftrightarrow> irq_ok s \<and> (\<forall>lk. lock_free lk s)"

definition pushed :: "cpu \<Rightarrow> cpu" where
  "pushed c = c\<lparr>if_flag := False, intena := (if ncli c = 0 then if_flag c else intena c),
                ncli := ncli c + 1\<rparr>"

definition taken :: "lockid \<Rightarrow> 'x kstate_scheme \<Rightarrow> 'x kstate_scheme" where
  "taken lk s = s\<lparr>cpus := (cpus s)(cpuid s := pushed (cpus s (cpuid s))),
     locks := (locks s)(lk := (locks s lk)\<lparr>locked := 1, lk_cpu := Some (cpuid s)\<rparr>)\<rparr>"

definition same_locks :: "'x kstate_scheme \<Rightarrow> 'x kstate_scheme \<Rightarrow> bool" where
  "same_locks t s \<longleftrightarrow> cpuid t = cpuid s \<and> cpus t = cpus s \<and> locks t = locks s"

definition restore_locks :: "'x kstate_scheme \<Rightarrow> 'x kstate_scheme \<Rightarrow> 'x kstate_scheme" where
  "restore_locks s t = t\<lparr>cpus := cpus s, locks := locks s\<rparr>"

lemma pushcli_eq:
  "pushcli s = Ok () (s\<lparr>cpus := (cpus s)(cpuid s := pushed (cpus s (cpuid s)))\<rparr>)"
  by (simp add: pushcli_def spin_defs k_simps pushed_def)

lemma irq_ok_taken: "irq_ok s \<Longrightarrow> irq_ok (taken lk s)"
  by (auto simp: irq_ok_def taken_def pushed_def)

lemma lock_free_taken: "lock_free lk' (taken lk s) \<longleftrightarrow> lk' \<noteq> lk \<and> lock_free lk' s"
  by (simp add: lock_free_def taken_def)

lemma taken_sel [simp]:
  "cpuid (taken lk s) = cpuid s"
  "kstate.more (taken lk s) = kstate.more s"
  by (simp_all add: taken_def)

lemma acquire_free:
  "lock_free lk s \<Longrightarrow> acquire lk s = Ok () (taken lk s)"
  by (simp add: acquire_def pushcli_eq spin_defs k_simps lock_free_def taken_def)

lemma release_taken:
  assumes "irq_ok s" and "lock_free lk s" and "same_locks t (taken lk s)"
  shows "release lk t = Ok () (restore_locks s t)"
proof -
  have c: "cpuid t = cpuid s" "cpus t = cpus (taken lk s)" "locks t = locks (taken lk s)"
    using assms(3) by (simp_all add: same_locks_def)
  have l: "(locks s lk)\<lparr>lk_cpu := None, locked := 0\<rparr> = locks s lk"
    using assms(2) by (simp add: lock_free_def)
  have p: "(pushed (cpus s (cpuid s)))\<lparr>ncli := ncli (cpus s (cpuid s)),
      if_flag := if_flag (cpus s (cpuid s))\<rparr> = cpus s (cpuid s)"
    using assms(1) by (auto simp: irq_ok_def pushed_def split: if_splits)
  show ?thesis
    using assms(1) l p
    by (auto simp: release_def popcli_def spin_defs k_simps c restore_locks_def taken_def irq_ok_def
        pushed_def fun_upd_idem split: if_splits)
qed

section \<open>The lock contract\<close>

text \<open>
  What a client of a lock relies on: a free lock can be taken, and giving it back restores
  the lock state of before, whatever the client did to the rest of the state meanwhile.
  Spin locks provide the contract here; sleep locks provide it in \<^verbatim>\<open>Sleeplock\<close>.
\<close>

locale mutex =
  fixes acq :: "('s, unit) km" and rel :: "('s, unit) km"
    and avail :: "'s \<Rightarrow> bool" and tk :: "'s \<Rightarrow> 's"
    and same :: "'s \<Rightarrow> 's \<Rightarrow> bool" and restore :: "'s \<Rightarrow> 's \<Rightarrow> 's"
  assumes acq_avail: "avail s \<Longrightarrow> acq s = Ok () (tk s)"
    and rel_taken: "avail s \<Longrightarrow> same t (tk s) \<Longrightarrow> rel t = Ok () (restore s t)"
begin

lemma section_Ok:
  assumes "avail s" and "body (tk s) = Ok r t" and "same t (tk s)"
  shows "kseq acq (kbind body (\<lambda>r. kseq rel (kret r))) s = Ok r (restore s t)"
  using assms by (simp add: k_simps acq_avail rel_taken)

lemma section_Fail:
  assumes "avail s" and "body (tk s) = Fail e"
  shows "kseq acq (kbind body (\<lambda>r. kseq rel (kret r))) s = Fail e"
  using assms by (simp add: k_simps acq_avail)

end

interpretation spin: mutex "acquire lk" "release lk" "\<lambda>s. irq_ok s \<and> lock_free lk s" "taken lk"
  same_locks restore_locks for lk
  by unfold_locales (auto simp: acquire_free release_taken)

lemma with_lock_Ok:
  assumes "irq_ok s" and "lock_free lk s"
    and "body (taken lk s) = Ok r t" and "same_locks t (taken lk s)"
  shows "with_lock lk body s = Ok r (restore_locks s t)"
  unfolding with_lock_def using assms by (intro spin.section_Ok) auto

lemma with_lock_Fail:
  assumes "irq_ok s" and "lock_free lk s" and "body (taken lk s) = Fail e"
  shows "with_lock lk body s = Fail e"
  unfolding with_lock_def using assms by (intro spin.section_Fail) auto

lemma same_locks_cong:
  "same_locks t s \<Longrightarrow> irq_ok t \<longleftrightarrow> irq_ok s" "same_locks t s \<Longrightarrow> lock_free lk t \<longleftrightarrow> lock_free lk s"
  by (simp_all add: irq_ok_def lock_free_def same_locks_def)

lemma quiet_cong: "quiet s \<Longrightarrow> same_locks t s \<Longrightarrow> quiet t"
  by (simp add: quiet_def irq_ok_def lock_free_def same_locks_def)

text \<open>\<open>acquire\<close> refuses a lock this CPU already holds, and \<open>release\<close> one it does not.\<close>

lemma acquire_held: "holding lk s \<Longrightarrow> acquire lk s = Fail (EPanic ''acquire'')"
  by (simp add: acquire_def pushcli_eq holding_def k_simps)

lemma release_not_held: "\<not> holding lk s \<Longrightarrow> release lk s = Fail (EPanic ''release'')"
  by (simp add: release_def k_simps)

lemma acquire_other:
  "locked (locks s lk) \<noteq> 0 \<Longrightarrow> \<not> holding lk s \<Longrightarrow> acquire lk s = Fail ESpin"
  by (simp add: acquire_def pushcli_eq spin_defs k_simps)

text \<open>What a state must have been like for \<open>acquire\<close> and \<open>release\<close> to return.\<close>

lemma acquire_OkD: "acquire lk s = Ok x t \<Longrightarrow> locked (locks s lk) = 0 \<and> t = taken lk s"
  by (auto simp: acquire_def pushcli_eq spin_defs k_simps taken_def split: if_splits)

lemma release_OkD:
  assumes "release lk s = Ok x t"
  shows "holding lk s \<and> (\<exists>c. t = s\<lparr>locks := (locks s)(lk := (locks s lk)\<lparr>lk_cpu := None, locked := 0\<rparr>),
    cpus := (cpus s)(cpuid s := c)\<rparr>)"
  using assms
  by (auto simp: release_def popcli_def set_cpu_def set_lock_def k_simps split: if_splits intro: exI)

lemma spin_stay [kstay_intros]:
  "kstay (set_cpu f)" "kstay (set_lock lk g)" "kstay pushcli" "kstay popcli" "kstay (acquire lk)" "kstay (release lk)"
  by (auto simp: acquire_def pushcli_def release_def popcli_def spin_defs intro!: kstay_intros)

lemmas acquire_no_Switch = spin_stay(5)[THEN kstayD]
lemmas release_no_Switch = spin_stay(6)[THEN kstayD]

text \<open>\<open>pushcli\<close> and \<open>popcli\<close> match: the outermost pair restores the interrupt flag.\<close>

lemma pushcli_popcli:
  assumes "irq_ok s"
  shows "kseq pushcli popcli s = Ok () s"
proof -
  have "cpus s (cpuid s) = (pushed (cpus s (cpuid s)))\<lparr>ncli := ncli (cpus s (cpuid s)),
      if_flag := if_flag (cpus s (cpuid s))\<rparr>"
    using assms by (auto simp: irq_ok_def pushed_def split: if_splits)
  then show ?thesis
    using assms
    by (auto simp: k_simps pushcli_eq popcli_def spin_defs irq_ok_def pushed_def fun_upd_idem
        split: if_splits)
qed

lemma length_getstackpcs [simp]: "length (getstackpcs m rbp) = 10"
proof -
  have "length (stackpcs_loop m rbp k) = k" for k
    by (induction m rbp k rule: stackpcs_loop.induct) auto
  then show ?thesis by (simp add: getstackpcs_def)
qed

section \<open>Several CPUs: the instructions of acquire and release interleaved\<close>

datatype spc =
    Out        \<comment> \<open>not using the lock\<close>
  | Spinning   \<comment> \<open>in the loop around \<open>xchg\<close>\<close>
  | Recording  \<comment> \<open>has the lock, about to set \<open>lk->cpu\<close>\<close>
  | Inside     \<comment> \<open>\<open>acquire\<close> has returned\<close>
  | Releasing  \<comment> \<open>in \<open>release\<close>, \<open>lk->cpu\<close> cleared, \<open>lk->locked\<close> not yet\<close>

record spin_sys =
  sys_st :: kstate
  sys_pc :: "nat \<Rightarrow> spc"

definition on_cpu :: "nat \<Rightarrow> 'x kstate_scheme \<Rightarrow> 'x kstate_scheme" where
  "on_cpu c s = s\<lparr>cpuid := c\<rparr>"

inductive spin_step :: "lockid \<Rightarrow> nat \<Rightarrow> spin_sys \<Rightarrow> spin_sys \<Rightarrow> bool" for lk c where
  enter: "sys_pc y c = Out \<Longrightarrow> pushcli (on_cpu c (sys_st y)) = Ok () s' \<Longrightarrow> \<not> holding lk s' \<Longrightarrow>
     spin_step lk c y (y\<lparr>sys_st := s', sys_pc := (sys_pc y)(c := Spinning)\<rparr>)"
| retry: "sys_pc y c = Spinning \<Longrightarrow> xchg lk 1 (on_cpu c (sys_st y)) = Ok old s' \<Longrightarrow> old \<noteq> 0 \<Longrightarrow>
     spin_step lk c y (y\<lparr>sys_st := s'\<rparr>)"
| grab: "sys_pc y c = Spinning \<Longrightarrow> xchg lk 1 (on_cpu c (sys_st y)) = Ok 0 s' \<Longrightarrow>
     spin_step lk c y (y\<lparr>sys_st := s', sys_pc := (sys_pc y)(c := Recording)\<rparr>)"
| own: "sys_pc y c = Recording \<Longrightarrow>
     set_lock lk (\<lambda>l. l\<lparr>lk_cpu := Some c\<rparr>) (on_cpu c (sys_st y)) = Ok () s' \<Longrightarrow>
     spin_step lk c y (y\<lparr>sys_st := s', sys_pc := (sys_pc y)(c := Inside)\<rparr>)"
| unown: "sys_pc y c = Inside \<Longrightarrow> holding lk (on_cpu c (sys_st y)) \<Longrightarrow>
     set_lock lk (\<lambda>l. l\<lparr>lk_cpu := None\<rparr>) (on_cpu c (sys_st y)) = Ok () s' \<Longrightarrow>
     spin_step lk c y (y\<lparr>sys_st := s', sys_pc := (sys_pc y)(c := Releasing)\<rparr>)"
| drop: "sys_pc y c = Releasing \<Longrightarrow>
     kseq (set_lock lk (\<lambda>l. l\<lparr>locked := 0\<rparr>)) popcli (on_cpu c (sys_st y)) = Ok () s' \<Longrightarrow>
     spin_step lk c y (y\<lparr>sys_st := s', sys_pc := (sys_pc y)(c := Out)\<rparr>)"

definition spin_init :: "kstate \<Rightarrow> spin_sys" where
  "spin_init s = \<lparr>sys_st = s, sys_pc = (\<lambda>_. Out)\<rparr>"

definition spin_start :: "lockid \<Rightarrow> kstate \<Rightarrow> bool" where
  "spin_start lk s \<longleftrightarrow> lock_free lk s \<and> (\<forall>c. 0 \<le> ncli (cpus s c))"

inductive spin_reach :: "lockid \<Rightarrow> spin_sys \<Rightarrow> bool" for lk where
  start: "spin_start lk s \<Longrightarrow> spin_reach lk (spin_init s)"
| step: "spin_reach lk y \<Longrightarrow> spin_step lk c y z \<Longrightarrow> spin_reach lk z"

inductive_cases spin_stepE: "spin_step lk c y z"

definition has_lock :: "spin_sys \<Rightarrow> nat \<Rightarrow> bool" where
  "has_lock y c \<longleftrightarrow> sys_pc y c \<in> {Recording, Inside, Releasing}"

definition spin_inv :: "lockid \<Rightarrow> spin_sys \<Rightarrow> bool" where
  "spin_inv lk y \<longleftrightarrow>
     (\<forall>c d. has_lock y c \<and> has_lock y d \<longrightarrow> c = d) \<and>
     (locked (locks (sys_st y) lk) \<noteq> 0 \<longleftrightarrow> (\<exists>c. has_lock y c)) \<and>
     (\<forall>c. lk_cpu (locks (sys_st y) lk) = Some c \<longleftrightarrow> sys_pc y c = Inside) \<and>
     (\<forall>c. 0 \<le> ncli (cpus (sys_st y) c)) \<and>
     (\<forall>c. sys_pc y c \<noteq> Out \<longrightarrow> 0 < ncli (cpus (sys_st y) c) \<and> \<not> if_flag (cpus (sys_st y) c))"

lemma spin_inv_init: "spin_start lk s \<Longrightarrow> spin_inv lk (spin_init s)"
  by (simp add: spin_inv_def spin_init_def spin_start_def has_lock_def lock_free_def)

lemma spin_inv_step:
  assumes "spin_step lk c y z" and inv: "spin_inv lk y"
  shows "spin_inv lk z"
  using assms(1)
proof (cases rule: spin_step.cases)
  case (enter s')
  then have "has_lock z = has_lock y"
    by (auto simp: has_lock_def fun_eq_iff)
  then show ?thesis
    using inv enter by (auto simp: spin_inv_def on_cpu_def pushcli_eq pushed_def)
next
  case (retry old s')
  then have "has_lock z = has_lock y"
    by (auto simp: has_lock_def fun_eq_iff)
  then show ?thesis
    using inv retry by (auto simp: spin_inv_def on_cpu_def spin_defs k_simps)
next
  case (grab s')
  then have none: "\<not> has_lock y d" for d
    using inv by (auto simp: spin_inv_def on_cpu_def spin_defs k_simps)
  then have "has_lock z = (\<lambda>d. d = c)" and "sys_pc y d \<noteq> Inside" for d
    using grab by (auto simp: has_lock_def fun_eq_iff)
  then show ?thesis
    using inv grab by (auto simp: spin_inv_def on_cpu_def spin_defs k_simps)
next
  case (own s')
  then have "has_lock z = has_lock y" and "has_lock y c"
    by (auto simp: has_lock_def fun_eq_iff)
  moreover have "d = c" if "sys_pc y d = Inside" for d
    using inv that calculation by (auto simp: spin_inv_def has_lock_def)
  ultimately show ?thesis
    using inv own by (auto simp: spin_inv_def on_cpu_def spin_defs k_simps)
next
  case (unown s')
  then have "has_lock z = has_lock y" and "has_lock y c"
    by (auto simp: has_lock_def fun_eq_iff)
  moreover have "d = c" if "sys_pc y d = Inside" for d
    using inv that calculation by (auto simp: spin_inv_def has_lock_def)
  then have "sys_pc z d \<noteq> Inside" for d
    using unown(1) by auto
  moreover have s': "s' = (sys_st y)\<lparr>cpuid := c, locks := (locks (sys_st y))(lk := (locks (sys_st y) lk)\<lparr>lk_cpu := None\<rparr>)\<rparr>"
    using unown(4) by (simp add: on_cpu_def set_lock_def k_simps)
  ultimately show ?thesis
    using inv unown(1,2) by (auto simp: spin_inv_def s')
next
  case (drop s')
  then have "has_lock y c"
    by (simp add: has_lock_def)
  then have only: "has_lock y d \<longleftrightarrow> d = c" for d
    using inv by (auto simp: spin_inv_def)
  have none: "has_lock z = (\<lambda>_. False)"
    using drop(1,2) only by (auto simp: has_lock_def fun_eq_iff)
  have "sys_pc z d \<noteq> Inside" for d
    using fun_cong[OF none, of d] by (auto simp: has_lock_def)
  moreover have "sys_pc y d \<noteq> Inside" for d
    using only[of d] drop(2) by (auto simp: has_lock_def)
  ultimately show ?thesis
    using inv drop none
    by (auto simp: spin_inv_def on_cpu_def spin_defs popcli_def k_simps split: if_splits)
qed

lemma spin_reach_inv: "spin_reach lk y \<Longrightarrow> spin_inv lk y"
  by (induction rule: spin_reach.induct) (auto intro: spin_inv_init spin_inv_step)

section \<open>Properties\<close>

text \<open>
  Claim C34. Mutual exclusion: in every state that the CPUs can reach by interleaving the
  instructions of \<open>acquire\<close> and \<open>release\<close> on one lock, at most one CPU is between a
  successful \<open>xchg\<close> and the store that frees the lock again.
\<close>

theorem spin_mutual_exclusion:
  assumes "spin_reach lk y" and "has_lock y c" and "has_lock y d"
  shows "c = d"
  using spin_reach_inv[OF assms(1)] assms(2,3) by (auto simp: spin_inv_def)

definition idle_machine :: kstate where
  "idle_machine = \<lparr>cpuid = 0, cpus = (\<lambda>_. \<lparr>ncli = 0, intena = False, if_flag = True\<rparr>),
     locks = (\<lambda>_. \<lparr>locked = 0, lk_name = [], lk_cpu = None\<rparr>)\<rparr>"

theorem spin_mutual_exclusion_witness:
  "\<exists>y. spin_reach KmemLock y \<and> has_lock y 1 \<and> (\<forall>d. has_lock y d \<longrightarrow> d = 1)"
proof -
  let ?y0 = "spin_init idle_machine"
  have r0: "spin_reach KmemLock ?y0"
    by (rule spin_reach.start) (simp add: spin_start_def lock_free_def idle_machine_def)
  obtain s1 where s1: "pushcli (on_cpu 1 idle_machine) = Ok () s1"
    by (simp add: pushcli_eq)
  then have free1: "locked (locks s1 KmemLock) = 0"
    by (auto simp: pushcli_eq on_cpu_def idle_machine_def)
  let ?y1 = "?y0\<lparr>sys_st := s1, sys_pc := (sys_pc ?y0)(1 := Spinning)\<rparr>"
  have "spin_step KmemLock 1 ?y0 ?y1"
    using s1 free1 by (intro spin_step.enter) (simp_all add: spin_init_def holding_def)
  with r0 have r1: "spin_reach KmemLock ?y1"
    by (rule spin_reach.step)
  obtain s2 where s2: "xchg KmemLock 1 (on_cpu 1 s1) = Ok 0 s2"
    using free1 by (simp add: spin_defs k_simps on_cpu_def)
  let ?y2 = "?y1\<lparr>sys_st := s2, sys_pc := (sys_pc ?y1)(1 := Recording)\<rparr>"
  have "spin_step KmemLock 1 ?y1 ?y2"
    using s2 by (intro spin_step.grab) simp_all
  with r1 have r2: "spin_reach KmemLock ?y2"
    by (rule spin_reach.step)
  have h2: "has_lock ?y2 1"
    by (simp add: has_lock_def)
  show ?thesis
    using r2 h2 spin_mutual_exclusion[OF r2 _ h2] by blast
qed

text \<open>
  Claim C35. No CPU that uses the lock as \<open>acquire\<close> ... \<open>release\<close> ever runs into the
  panics of these functions: a CPU outside cannot be found holding the lock, and a CPU
  inside holds it and has interrupts off, so its \<open>release\<close> returns.
\<close>

theorem spin_never_panics:
  assumes "spin_reach lk y"
  shows "(sys_pc y c = Out \<longrightarrow> (\<forall>msg. acquire lk (on_cpu c (sys_st y)) \<noteq> Fail (EPanic msg))) \<and>
    (sys_pc y c = Inside \<longrightarrow> (\<exists>s'. release lk (on_cpu c (sys_st y)) = Ok () s'))"
proof -
  have inv: "spin_inv lk y"
    using assms by (rule spin_reach_inv)
  show ?thesis
  proof (intro conjI impI allI)
    fix msg
    assume "sys_pc y c = Out"
    then have "lk_cpu (locks (sys_st y) lk) \<noteq> Some c"
      using inv by (simp add: spin_inv_def)
    then show "acquire lk (on_cpu c (sys_st y)) \<noteq> Fail (EPanic msg)"
      by (auto simp: acquire_def pushcli_eq spin_defs k_simps on_cpu_def)
  next
    assume p: "sys_pc y c = Inside"
    then have "has_lock y c"
      by (simp add: has_lock_def)
    then have "locked (locks (sys_st y) lk) \<noteq> 0" and "lk_cpu (locks (sys_st y) lk) = Some c"
      and "1 \<le> ncli (cpus (sys_st y) c)" and "\<not> if_flag (cpus (sys_st y) c)"
      using inv p by (auto simp: spin_inv_def int_one_le_iff_zero_less)
    then show "\<exists>s'. release lk (on_cpu c (sys_st y)) = Ok () s'"
      by (simp add: release_def popcli_def spin_defs k_simps on_cpu_def)
  qed
qed

theorem spin_never_panics_witness:
  "\<forall>msg. acquire KmemLock (on_cpu 1 (sys_st (spin_init idle_machine))) \<noteq> Fail (EPanic msg)"
proof -
  have "spin_reach KmemLock (spin_init idle_machine)"
    by (rule spin_reach.start) (simp add: spin_start_def lock_free_def idle_machine_def)
  then show ?thesis
    using spin_never_panics[of KmemLock "spin_init idle_machine" 1] by (simp add: spin_init_def)
qed

end
