(* ===== verification/Cstring.thy ===== *)
theory Cstring
  imports Memory
begin

text \<open>
  \<^verbatim>\<open>string.c\<close>: block and string operations on the byte-addressed memory, each loop a
  recursion on the number of bytes left. \<open>store_bytes\<close> and \<open>load_bytes\<close> are the
  specification: what a routine does to memory as one simultaneous update.
\<close>

section \<open>Operations (string.c, x86.h)\<close>

fun stosb :: "memory \<Rightarrow> addr_t \<Rightarrow> uint \<Rightarrow> nat \<Rightarrow> memory" where
  "stosb m a d 0 = m"
| "stosb m a d (Suc k) = stosb (m(a := ucast d)) (a + 1) d k"

fun stosl :: "memory \<Rightarrow> addr_t \<Rightarrow> uint \<Rightarrow> nat \<Rightarrow> memory" where
  "stosl m a d 0 = m"
| "stosl m a d (Suc k) = stosl (store_bytes m a (le_put 4 d)) (a + 4) d k"

definition memset :: "memory \<Rightarrow> addr_t \<Rightarrow> uint \<Rightarrow> uint64 \<Rightarrow> memory" where
  "memset m dst c n =
     (if unat dst mod 4 = 0 \<and> unat n mod 4 = 0 then
        let c = c AND 0xFF
        in stosl m dst (push_bit 24 c OR push_bit 16 c OR push_bit 8 c OR c)
             (unat (ucast (n div 4) :: uint))
      else stosb m dst c (unat (ucast n :: uint)))"

fun memcmp_loop :: "memory \<Rightarrow> addr_t \<Rightarrow> addr_t \<Rightarrow> nat \<Rightarrow> int" where
  "memcmp_loop m s1 s2 0 = 0"
| "memcmp_loop m s1 s2 (Suc k) =
     (if m s1 \<noteq> m s2 then int (unat (m s1)) - int (unat (m s2))
      else memcmp_loop m (s1 + 1) (s2 + 1) k)"

definition memcmp :: "memory \<Rightarrow> addr_t \<Rightarrow> addr_t \<Rightarrow> uint \<Rightarrow> int" where
  "memcmp m v1 v2 n = memcmp_loop m v1 v2 (unat n)"

fun copy_up :: "memory \<Rightarrow> addr_t \<Rightarrow> addr_t \<Rightarrow> nat \<Rightarrow> memory" where
  "copy_up m d s 0 = m"
| "copy_up m d s (Suc k) = copy_up (m(d := m s)) (d + 1) (s + 1) k"

fun copy_down :: "memory \<Rightarrow> addr_t \<Rightarrow> addr_t \<Rightarrow> nat \<Rightarrow> memory" where
  "copy_down m d s 0 = m"
| "copy_down m d s (Suc k) = copy_down (m(d - 1 := m (s - 1))) (d - 1) (s - 1) k"

definition memmove :: "memory \<Rightarrow> addr_t \<Rightarrow> addr_t \<Rightarrow> uint \<Rightarrow> memory" where
  "memmove m dst src n =
     (if src < dst \<and> src + ucast n > dst
      then copy_down m (dst + ucast n) (src + ucast n) (unat n)
      else copy_up m dst src (unat n))"

definition memcpy :: "memory \<Rightarrow> addr_t \<Rightarrow> addr_t \<Rightarrow> uint \<Rightarrow> memory" where
  "memcpy m dst src n = memmove m dst src n"

fun strncmp_loop :: "memory \<Rightarrow> addr_t \<Rightarrow> addr_t \<Rightarrow> nat \<Rightarrow> int" where
  "strncmp_loop m p q 0 = 0"
| "strncmp_loop m p q (Suc k) =
     (if m p \<noteq> 0 \<and> m p = m q then strncmp_loop m (p + 1) (q + 1) k
      else int (unat (m p)) - int (unat (m q)))"

definition strncmp :: "memory \<Rightarrow> addr_t \<Rightarrow> addr_t \<Rightarrow> uint \<Rightarrow> int" where
  "strncmp m p q n = strncmp_loop m p q (unat n)"

fun zero_fill :: "memory \<Rightarrow> addr_t \<Rightarrow> nat \<Rightarrow> memory" where
  "zero_fill m s 0 = m"
| "zero_fill m s (Suc k) = zero_fill (m(s := 0)) (s + 1) k"

fun strncpy_loop :: "memory \<Rightarrow> addr_t \<Rightarrow> addr_t \<Rightarrow> nat \<Rightarrow> memory" where
  "strncpy_loop m s t 0 = m"
| "strncpy_loop m s t (Suc k) =
     (let m' = m(s := m t)
      in if m t \<noteq> 0 then strncpy_loop m' (s + 1) (t + 1) k else zero_fill m' (s + 1) k)"

definition strncpy :: "memory \<Rightarrow> addr_t \<Rightarrow> addr_t \<Rightarrow> int \<Rightarrow> memory" where
  "strncpy m s t n = strncpy_loop m s t (nat n)"

fun safestrcpy_loop :: "memory \<Rightarrow> addr_t \<Rightarrow> addr_t \<Rightarrow> nat \<Rightarrow> memory" where
  "safestrcpy_loop m s t 0 = m(s := 0)"
| "safestrcpy_loop m s t (Suc k) =
     (let m' = m(s := m t)
      in if m t \<noteq> 0 then safestrcpy_loop m' (s + 1) (t + 1) k else m'(s + 1 := 0))"

definition safestrcpy :: "memory \<Rightarrow> addr_t \<Rightarrow> addr_t \<Rightarrow> int \<Rightarrow> memory" where
  "safestrcpy m s t n = (if n \<le> 0 then m else safestrcpy_loop m s t (nat (n - 1)))"

partial_function (option) strlen_loop :: "memory \<Rightarrow> addr_t \<Rightarrow> nat \<Rightarrow> nat option" where
  "strlen_loop m s n = (if m (s + of_nat n) = 0 then Some n else strlen_loop m s (Suc n))"

definition strlen :: "memory \<Rightarrow> addr_t \<Rightarrow> nat option" where
  "strlen m s = strlen_loop m s 0"

section \<open>Byte sequences in memory\<close>

lemma load_bytes_Suc: "load_bytes m a (Suc k) = m a # load_bytes m (a + 1) k"
proof -
  have "[0..<Suc k] = 0 # map Suc [0..<k]"
    by (simp add: map_Suc_upt upt_conv_Cons)
  then show ?thesis
    by (simp add: load_bytes_def algebra_simps del: upt_Suc)
qed

lemma load_bytes_0 [simp]: "load_bytes m a 0 = []"
  by (simp add: load_bytes_def)

lemma store_bytes_Nil [simp]: "store_bytes m a [] = m"
  by (simp add: store_bytes_def)

lemma unat_diff_Suc:
  fixes x a :: addr_t
  assumes "x \<noteq> a"
  shows "unat (x - a) = Suc (unat (x - (a + 1)))"
proof -
  have "unat (x - a) \<noteq> 0"
    using assms by (simp add: unat_eq_zero)
  then have "unat (x - a - 1) = unat (x - a) - 1"
    by (metis One_nat_def Suc_pred le_eq_less_or_eq less_Suc_eq_le neq0_conv not_less_eq unat_1
        unat_sub word_le_nat_alt)
  then show ?thesis
    using \<open>unat (x - a) \<noteq> 0\<close> by (simp add: algebra_simps)
qed

lemma store_bytes_Cons:
  assumes "length bs < 2 ^ 64"
  shows "store_bytes m a (b # bs) = store_bytes (m(a := b)) (a + 1) bs"
proof
  fix x
  show "store_bytes m a (b # bs) x = store_bytes (m(a := b)) (a + 1) bs x"
  proof (cases "x = a")
    case True
    have "unat (a - (a + 1)) = 2 ^ 64 - 1"
      by (simp add: unsigned_minus_1_eq_mask mask_eq_exp_minus_1)
    then show ?thesis
      using True assms by (simp add: store_bytes_def)
  next
    case False
    then show ?thesis
      by (simp add: store_bytes_def unat_diff_Suc)
  qed
qed

lemma store_bytes_append:
  "length xs + length ys \<le> 2 ^ 64 \<Longrightarrow>
   store_bytes m a (xs @ ys) = store_bytes (store_bytes m a xs) (a + of_nat (length xs)) ys"
  by (induction xs arbitrary: m a) (simp_all add: store_bytes_Cons algebra_simps)

section \<open>memset\<close>

lemma stosb_store: "k \<le> 2 ^ 64 \<Longrightarrow> stosb m a d k = store_bytes m a (replicate k (ucast d))"
  by (induction k arbitrary: m a) (simp_all add: store_bytes_Cons)

lemma stosl_store:
  "4 * k \<le> 2 ^ 64 \<Longrightarrow> stosl m a d k = store_bytes m a (concat (replicate k (le_put 4 d)))"
proof (induction k arbitrary: m a)
  case 0
  then show ?case by simp
next
  case (Suc k)
  have len: "length (concat (replicate k (le_put 4 d))) = 4 * k"
    by (induction k) simp_all
  show ?case
    using Suc store_bytes_append[of "le_put 4 d" "concat (replicate k (le_put 4 d))" m a] len
    by simp
qed

lemma fill_word_bytes:
  fixes c :: uint
  defines "b \<equiv> c AND 0xFF"
  shows "le_put 4 (push_bit 24 b OR push_bit 16 b OR push_bit 8 b OR b) = replicate 4 (ucast c)"
proof (rule nth_equalityI)
  fix i
  assume "i < length (le_put 4 (push_bit 24 b OR push_bit 16 b OR push_bit 8 b OR b))"
  then have i: "i < 4" by simp
  have b: "b = take_bit 8 c"
    by (simp add: b_def take_bit_eq_mask mask_eq_exp_minus_1)
  have cases: "i = 0 \<or> i = 1 \<or> i = 2 \<or> i = 3"
    using i by linarith
  have "bit (le_put 4 (push_bit 24 b OR push_bit 16 b OR push_bit 8 b OR b) ! i) k =
      bit (ucast c :: uchar) k" if "k < 8" for k
    using cases that
    by (elim disjE) (simp_all add: nth_le_put b bit_ucast_iff bit_drop_bit_eq bit_or_iff
        bit_push_bit_iff bit_take_bit_iff)
  then show "le_put 4 (push_bit 24 b OR push_bit 16 b OR push_bit 8 b OR b) ! i =
      replicate 4 (ucast c) ! i"
    using i by (auto intro: bit_word_eqI)
qed simp

lemma concat_replicate_replicate:
  "concat (replicate k (replicate n x)) = replicate (k * n) x"
  by (induction k) (simp_all add: replicate_add)

text \<open>Both paths of \<open>memset\<close>, the word-wise and the byte-wise one, fill \<open>n\<close> bytes.\<close>

lemma memset_fills:
  assumes "unat n < 2 ^ 32"
  shows "memset m dst c n = store_bytes m dst (replicate (unat n) (ucast c))"
proof (cases "unat dst mod 4 = 0 \<and> unat n mod 4 = 0")
  case True
  have cnt: "unat (ucast (n div 4) :: uint) = unat n div 4"
    using assms by (simp add: unsigned_ucast_eq unat_div take_bit_nat_eq_self)
  have "memset m dst c n = store_bytes m dst (concat (replicate (unat n div 4) (replicate 4 (ucast c))))"
  proof -
    have bound: "4 * (unat n div 4) \<le> 2 ^ 64"
      using assms by simp
    show ?thesis
      by (simp only: memset_def Let_def cnt True if_True simp_thms stosl_store[OF bound] fill_word_bytes)
  qed
  also have "concat (replicate (unat n div 4) (replicate 4 (ucast c))) = replicate (unat n) (ucast c :: uchar)"
    using True by (simp only: concat_replicate_replicate) (simp add: mod_0_imp_dvd)
  finally show ?thesis .
next
  case False
  have "unat (ucast n :: uint) = unat n"
    using assms by (simp add: unsigned_ucast_eq take_bit_nat_eq_self)
  then show ?thesis
    using False assms by (auto simp: memset_def stosb_store)
qed

section \<open>memmove\<close>

lemma load_bytes_snoc: "load_bytes m a (Suc k) = load_bytes m a k @ [m (a + of_nat k)]"
  by (simp add: load_bytes_def)

lemma store_bytes_snoc:
  assumes "length bs < 2 ^ 64"
  shows "store_bytes m a (bs @ [b]) = store_bytes (m(a + of_nat (length bs) := b)) a bs"
proof
  fix x
  have "unat (x - a) = length bs \<longleftrightarrow> x = a + of_nat (length bs)"
  proof -
    have "x = a + of_nat (length bs) \<longleftrightarrow> x - a = of_nat (length bs)"
      by (auto simp: algebra_simps)
    then show ?thesis
      using assms by (simp add: word_unat_eq_iff unat_of_nat_small)
  qed
  then show "store_bytes m a (bs @ [b]) x = store_bytes (m(a + of_nat (length bs) := b)) a bs x"
    by (auto simp: store_bytes_def nth_append less_Suc_eq)
qed

lemma copy_up_store:
  assumes "k \<le> 2 ^ 64" and "\<And>i j. i < j \<Longrightarrow> j < k \<Longrightarrow> d + of_nat i \<noteq> s + of_nat j"
  shows "copy_up m d s k = store_bytes m d (load_bytes m s k)"
  using assms
proof (induction k arbitrary: m d s)
  case 0
  then show ?case by simp
next
  case (Suc k)
  have keep: "load_bytes (m(d := m s)) (s + 1) k = load_bytes m (s + 1) k"
    using Suc.prems(2)[of 0 "Suc _"] by (intro load_bytes_cong) (auto simp: algebra_simps)
  have "copy_up (m(d := m s)) (d + 1) (s + 1) k =
      store_bytes (m(d := m s)) (d + 1) (load_bytes (m(d := m s)) (s + 1) k)"
  proof (rule Suc.IH)
    show "d + 1 + of_nat i \<noteq> s + 1 + of_nat j" if "i < j" "j < k" for i j
      using Suc.prems(2)[of "Suc i" "Suc j"] that by (auto simp: algebra_simps)
  qed (use Suc.prems in simp)
  then show ?case
    using Suc.prems by (simp add: load_bytes_Suc store_bytes_Cons keep)
qed

lemma copy_down_store:
  assumes "k \<le> 2 ^ 64" and "\<And>i j. i < j \<Longrightarrow> j < k \<Longrightarrow> d + of_nat j \<noteq> s + of_nat i"
  shows "copy_down m (d + of_nat k) (s + of_nat k) k = store_bytes m d (load_bytes m s k)"
  using assms
proof (induction k arbitrary: m)
  case 0
  then show ?case by simp
next
  case (Suc k)
  let ?m = "m(d + of_nat k := m (s + of_nat k))"
  have keep: "load_bytes ?m s k = load_bytes m s k"
    using Suc.prems(2)[of _ k] by (intro load_bytes_cong) (simp, metis)
  have "copy_down m (d + of_nat (Suc k)) (s + of_nat (Suc k)) (Suc k) =
      copy_down ?m (d + of_nat k) (s + of_nat k) k"
    by (simp add: algebra_simps)
  also have "\<dots> = store_bytes ?m d (load_bytes ?m s k)"
    using Suc.prems by (intro Suc.IH) auto
  also have "\<dots> = store_bytes m d (load_bytes m s (Suc k))"
    using Suc.prems(1) by (simp add: keep load_bytes_snoc store_bytes_snoc)
  finally show ?case .
qed

lemma unat_add_of_nat: "unat (a :: addr_t) + i < 2 ^ 64 \<Longrightarrow> unat (a + of_nat i) = unat a + i"
  by (simp add: unat_word_ariths unat_of_nat_small)

text \<open>
  \<open>memmove\<close> copies the \<open>n\<close> source bytes as they were before the call, however the two
  areas overlap.
\<close>

lemma memmove_copies:
  assumes src: "unat src + unat n < 2 ^ 64" and dst: "unat dst + unat n \<le> 2 ^ 64"
  shows "memmove m dst src n = store_bytes m dst (load_bytes m src (unat n))"
proof -
  let ?n = "unat n"
  have sj: "unat (src + of_nat j) = unat src + j" if "j < ?n" for j
    using src that by (intro unat_add_of_nat) simp
  have di: "unat (dst + of_nat i) = unat dst + i" if "i < ?n" for i
    using dst that by (intro unat_add_of_nat) simp
  have sn: "unat (src + ucast n) = unat src + ?n"
    using unat_add_of_nat[OF src] by simp
  have small: "?n \<le> 2 ^ 64"
    using src by simp
  show ?thesis
  proof (cases "src < dst \<and> src + ucast n > dst")
    case True
    then have lt: "unat src < unat dst"
      by (simp add: word_less_nat_alt)
    have "copy_down m (dst + of_nat ?n) (src + of_nat ?n) ?n = store_bytes m dst (load_bytes m src ?n)"
    proof (rule copy_down_store[OF small])
      fix i j
      assume "i < j" "j < ?n"
      then have "unat (dst + of_nat j) \<noteq> unat (src + of_nat i)"
        using lt by (simp add: sj di)
      then show "dst + of_nat j \<noteq> src + of_nat i" by auto
    qed
    then show ?thesis
      using True by (simp add: memmove_def)
  next
    case False
    then have far: "unat dst \<le> unat src \<or> unat src + ?n \<le> unat dst"
      using sn by (auto simp: word_less_nat_alt)
    have "copy_up m dst src ?n = store_bytes m dst (load_bytes m src ?n)"
    proof (rule copy_up_store[OF small])
      fix i j
      assume "i < j" "j < ?n"
      then have "unat (dst + of_nat i) \<noteq> unat (src + of_nat j)"
        using far by (auto simp: sj di)
      then show "dst + of_nat i \<noteq> src + of_nat j" by auto
    qed
    then show ?thesis
      using False by (auto simp: memmove_def)
  qed
qed

section \<open>Comparison\<close>

lemma byte_diff_0 [simp]: "int (unat (x :: uchar)) - int (unat y) = 0 \<longleftrightarrow> x = y"
  by (simp add: word_uint_eq_iff)

lemma memcmp_loop_0: "memcmp_loop m a b k = 0 \<longleftrightarrow> load_bytes m a k = load_bytes m b k"
proof (induction k arbitrary: a b)
  case 0
  then show ?case by simp
next
  case (Suc k)
  show ?case
    by (simp only: memcmp_loop.simps load_bytes_Suc Suc.IH byte_diff_0 list.inject split: if_split) blast
qed

lemma memcmp_zero: "memcmp m a b n = 0 \<longleftrightarrow> load_bytes m a (unat n) = load_bytes m b (unat n)"
  by (simp add: memcmp_def memcmp_loop_0)

text \<open>The string at \<open>p\<close>, cut off after \<open>n\<close> bytes.\<close>

definition cstrn :: "memory \<Rightarrow> addr_t \<Rightarrow> nat \<Rightarrow> uchar list" where
  "cstrn m p n = takeWhile (\<lambda>b. b \<noteq> 0) (load_bytes m p n)"

lemma cstrn_0 [simp]: "cstrn m p 0 = []"
  by (simp add: cstrn_def)

lemma cstrn_Suc: "cstrn m p (Suc n) = (if m p = 0 then [] else m p # cstrn m (p + 1) n)"
  by (simp add: cstrn_def load_bytes_Suc)

lemma length_cstrn: "length (cstrn m p n) \<le> n"
  using length_takeWhile_le[of "\<lambda>b. b \<noteq> 0" "load_bytes m p n"] by (simp add: cstrn_def)

lemma cstrn_cong:
  "(\<And>i. i < n \<Longrightarrow> m (p + of_nat i) = m' (p + of_nat i)) \<Longrightarrow> cstrn m p n = cstrn m' p n"
  by (simp add: cstrn_def cong: load_bytes_cong)

lemma strncmp_loop_0: "strncmp_loop m p q k = 0 \<longleftrightarrow> cstrn m p k = cstrn m q k"
proof (induction k arbitrary: p q)
  case 0
  then show ?case by simp
next
  case (Suc k)
  show ?case
    by (simp only: strncmp_loop.simps cstrn_Suc Suc.IH byte_diff_0 split: if_split) auto
qed

lemma strncmp_zero: "strncmp m p q n = 0 \<longleftrightarrow> cstrn m p (unat n) = cstrn m q (unat n)"
  by (simp add: strncmp_def strncmp_loop_0)

section \<open>String copies\<close>

text \<open>The \<open>n\<close> bytes at \<open>s\<close> and the \<open>n\<close> bytes at \<open>t\<close> have no byte in common.\<close>

definition apart :: "addr_t \<Rightarrow> addr_t \<Rightarrow> nat \<Rightarrow> bool" where
  "apart s t n \<longleftrightarrow> (\<forall>i<n. \<forall>j<n. s + of_nat i \<noteq> t + of_nat j)"

lemma apart_Suc: "apart s t (Suc n) \<Longrightarrow> apart (s + 1) (t + 1) n"
  unfolding apart_def
proof (intro allI impI)
  fix i j
  assume "\<forall>i<Suc n. \<forall>j<Suc n. s + of_nat i \<noteq> t + of_nat j" and "i < n" and "j < n"
  then have "s + of_nat (Suc i) \<noteq> t + of_nat (Suc j)"
    by blast
  then show "s + 1 + of_nat i \<noteq> t + 1 + of_nat j"
    by (simp add: algebra_simps)
qed

lemma apart_cstrn: "apart s t (Suc n) \<Longrightarrow> cstrn (m(s := b)) (t + 1) n = cstrn m (t + 1) n"
proof (rule cstrn_cong)
  fix i
  assume "apart s t (Suc n)" and "i < n"
  then have "s + of_nat 0 \<noteq> t + of_nat (Suc i)"
    unfolding apart_def by blast
  then show "(m(s := b)) (t + 1 + of_nat i) = m (t + 1 + of_nat i)"
    by (simp add: algebra_simps)
qed

lemma zero_fill_store: "k \<le> 2 ^ 64 \<Longrightarrow> zero_fill m s k = store_bytes m s (replicate k 0)"
  by (induction k arbitrary: m s) (simp_all add: store_bytes_Cons)

lemma strncpy_loop_store:
  "apart s t k \<Longrightarrow> k \<le> 2 ^ 64 \<Longrightarrow>
   strncpy_loop m s t k =
     store_bytes m s (cstrn m t k @ replicate (k - length (cstrn m t k)) 0)"
proof (induction k arbitrary: m s t)
  case 0
  then show ?case by simp
next
  case (Suc k)
  show ?case
  proof (cases "m t = 0")
    case True
    then show ?thesis
      using Suc.prems by (simp add: zero_fill_store store_bytes_Cons cstrn_Suc)
  next
    case False
    have "length (cstrn m (t + 1) k @ replicate (k - length (cstrn m (t + 1) k)) 0) = k"
      using length_cstrn[of m "t + 1" k] by simp
    then show ?thesis
      using False Suc.prems Suc.IH[OF apart_Suc[OF Suc.prems(1)]]
      by (simp add: store_bytes_Cons cstrn_Suc apart_cstrn)
  qed
qed

lemma strncpy_store:
  assumes "apart s t (nat n)" and "nat n \<le> 2 ^ 64"
  shows "strncpy m s t n =
    store_bytes m s (cstrn m t (nat n) @ replicate (nat n - length (cstrn m t (nat n))) 0)"
  using assms by (simp add: strncpy_def strncpy_loop_store)

lemma safestrcpy_loop_store:
  "apart s t (Suc k) \<Longrightarrow> Suc k \<le> 2 ^ 64 \<Longrightarrow>
   safestrcpy_loop m s t k =
     store_bytes m s (cstrn m t k @ replicate (min 2 (Suc k - length (cstrn m t k))) 0)"
proof (induction k arbitrary: m s t)
  case 0
  then show ?case by (simp add: store_bytes_Cons)
next
  case (Suc k)
  let ?c = "cstrn m (t + 1) k"
  show ?case
  proof (cases "m t = 0")
    case True
    have "replicate (min 2 (Suc (Suc k))) (0 :: uchar) = [0, 0]"
      by (simp add: numeral_2_eq_2)
    then show ?thesis
      using True Suc.prems by (simp add: store_bytes_Cons cstrn_Suc)
  next
    case False
    have "length (?c @ replicate (min 2 (Suc k - length ?c)) (0 :: uchar)) \<le> Suc k"
      using length_cstrn[of m "t + 1" k] by simp
    moreover have "cstrn (m(s := m t)) (t + 1) k = ?c"
      using Suc.prems(1) by (intro apart_cstrn) (simp add: apart_def)
    ultimately show ?thesis
      using False Suc.prems Suc.IH[OF apart_Suc[OF Suc.prems(1)]]
      by (simp add: store_bytes_Cons cstrn_Suc)
  qed
qed

text \<open>
  \<open>safestrcpy\<close> leaves a terminated string: the source string, cut to \<open>n - 1\<close> bytes.
\<close>

lemma safestrcpy_terminates:
  assumes "0 < n" and "apart s t (nat n)" and "nat n \<le> 2 ^ 64"
  shows "cstrn (safestrcpy m s t n) s (nat n) = cstrn m t (nat n - 1)"
    and "\<And>x. nat n \<le> unat (x - s) \<Longrightarrow> safestrcpy m s t n x = m x"
    and "\<exists>i<nat n. safestrcpy m s t n (s + of_nat i) = 0"
proof -
  obtain k where k: "nat n = Suc k" "nat (n - 1) = k"
    using assms(1) by (cases "nat n") auto
  let ?c = "cstrn m t k"
  let ?bs = "?c @ replicate (min 2 (Suc k - length ?c)) 0"
  have len: "length ?c \<le> k" by (rule length_cstrn)
  have copy: "safestrcpy m s t n = store_bytes m s ?bs"
    using assms k by (simp add: safestrcpy_def safestrcpy_loop_store)
  have lenbs: "length ?bs \<le> Suc k"
    using len by simp
  have at: "safestrcpy m s t n (s + of_nat i) = ?bs ! i" if "i < length ?bs" for i
    using that lenbs assms(3) k by (simp add: copy store_bytes_def unat_of_nat_small)
  have nz: "\<forall>b\<in>set ?c. b \<noteq> 0"
    by (auto simp: cstrn_def dest: set_takeWhileD)
  have nul: "safestrcpy m s t n (s + of_nat (length ?c)) = 0"
    using at[of "length ?c"] len by (simp add: nth_append)
  then show "\<exists>i<nat n. safestrcpy m s t n (s + of_nat i) = 0"
    using len k by (auto intro: exI[of _ "length ?c"])
  show "safestrcpy m s t n x = m x" if "nat n \<le> unat (x - s)" for x
    using that lenbs k by (simp add: copy store_bytes_other)
  have pre: "take (length ?c) (load_bytes (safestrcpy m s t n) s (nat n)) = ?c"
  proof (rule nth_equalityI)
    show "length (take (length ?c) (load_bytes (safestrcpy m s t n) s (nat n))) = length ?c"
      using len k by simp
  next
    fix i
    assume "i < length (take (length ?c) (load_bytes (safestrcpy m s t n) s (nat n)))"
    then have "i < length ?c" by simp
    then show "take (length ?c) (load_bytes (safestrcpy m s t n) s (nat n)) ! i = ?c ! i"
      using at[of i] len k by (simp add: nth_load_bytes nth_append)
  qed
  let ?l = "load_bytes (safestrcpy m s t n) s (nat n)"
  have "?l = ?c @ drop (length ?c) ?l" and "hd (drop (length ?c) ?l) = 0" and "drop (length ?c) ?l \<noteq> []"
    using pre nul len k append_take_drop_id[of "length ?c" ?l]
    by (simp_all add: hd_drop_conv_nth nth_load_bytes)
  then obtain ys where l: "?l = ?c @ 0 # ys"
    by (cases "drop (length ?c) ?l") auto
  have "takeWhile (\<lambda>b. b \<noteq> 0) ?l = ?c"
    using nz by (subst l) simp
  then show "cstrn (safestrcpy m s t n) s (nat n) = cstrn m t (nat n - 1)"
    using k by (simp add: cstrn_def)
qed

lemma strlen_loop_finds:
  assumes "\<And>i. n \<le> i \<Longrightarrow> i < k \<Longrightarrow> m (s + of_nat i) \<noteq> 0" and "m (s + of_nat k) = 0" and "n \<le> k"
  shows "strlen_loop m s n = Some k"
  using assms(3,1)
proof (induction rule: inc_induct)
  case base
  then show ?case using assms(2) by (simp add: strlen_loop.simps)
next
  case (step n)
  then show ?case by (subst strlen_loop.simps) auto
qed

section \<open>Properties\<close>

text \<open>
  Claim C39. \<open>memmove\<close> and \<open>memset\<close> have the effect of one simultaneous update: the
  destination gets the source bytes as they were before the call, in whichever direction the
  areas overlap, and both store paths of \<open>memset\<close> fill exactly \<open>n\<close> bytes with the low
  byte of \<open>c\<close>.
\<close>

theorem memmove_memset_bytes:
  assumes "unat src + unat n < 2 ^ 64" and "unat dst + unat n \<le> 2 ^ 64" and "unat k < 2 ^ 32"
  shows "memmove m dst src n = store_bytes m dst (load_bytes m src (unat n)) \<and>
    memset m dst c k = store_bytes m dst (replicate (unat k) (ucast c))"
  using memmove_copies[OF assms(1,2)] memset_fills[OF assms(3)] by simp

theorem memmove_memset_bytes_witness:
  "memmove (\<lambda>a. ucast a) 0x1004 0x1000 16 =
     store_bytes (\<lambda>a. ucast a) 0x1004 (load_bytes (\<lambda>a. ucast a) 0x1000 16) \<and>
   memset (\<lambda>a. ucast a) 0x1004 0x41 3 = store_bytes (\<lambda>a. ucast a) 0x1004 (replicate 3 0x41)"
  using memmove_memset_bytes[of "0x1000" 16 "0x1004" 3 "\<lambda>a. ucast a" "0x41"]
  by simp

text \<open>
  Claim C40. \<open>safestrcpy(s, t, n)\<close> with \<open>n > 0\<close> always leaves a terminated string within
  the \<open>n\<close> bytes at \<open>s\<close>: the string at \<open>t\<close> cut to \<open>n - 1\<close> bytes; nothing outside these
  bytes changes.
\<close>

theorem safestrcpy_string:
  assumes "0 < n" and "apart s t (nat n)" and "nat n \<le> 2 ^ 64"
  shows "cstrn (safestrcpy m s t n) s (nat n) = cstrn m t (nat n - 1) \<and>
    (\<exists>i<nat n. safestrcpy m s t n (s + of_nat i) = 0) \<and>
    (\<forall>x. nat n \<le> unat (x - s) \<longrightarrow> safestrcpy m s t n x = m x)"
  using safestrcpy_terminates[OF assms] by blast

theorem safestrcpy_string_witness:
  "cstrn (safestrcpy (\<lambda>_. 65) 0 100 3) 0 3 = cstrn (\<lambda>_. 65) 100 2"
proof -
  have "apart 0 100 3"
  proof (unfold apart_def, intro allI impI)
    fix i j :: nat
    assume "i < 3" and "j < 3"
    then have "unat (0 + of_nat i :: addr_t) \<noteq> unat (100 + of_nat j :: addr_t)"
      using unat_add_of_nat[of 0 i] unat_add_of_nat[of 100 j] by simp
    then show "0 + of_nat i \<noteq> (100 + of_nat j :: addr_t)" by auto
  qed
  then show ?thesis
    using safestrcpy_string[of 3 0 100 "\<lambda>_. 65"] by simp
qed

end
