(* ===== verification/Kalloc.thy ===== *)
theory Kalloc
  imports Spinlock Cstring
begin

text \<open>
  \<^verbatim>\<open>kalloc.c\<close>: the physical page allocator. The free pages form a linked list through
  their own first words; \<open>flist\<close> relates that list in memory to a HOL list, the abstract
  state. \<open>pages\<close> is the contract its clients use.
\<close>

section \<open>State and layout (kalloc.c, memlayout.h, mmu.h)\<close>

record kmem_state = kstate +
  mem :: memory          \<comment> \<open>kernel virtual memory\<close>
  kend :: addr_t         \<comment> \<open>the linker symbol \<open>end\<close>, first address after the kernel\<close>
  use_lock :: bool
  freelist :: addr_t

definition PGSIZE :: nat where
  "PGSIZE = 4096"

definition PHYSTOP :: addr_t where
  "PHYSTOP = 0xE000000"

definition V2P :: "addr_t \<Rightarrow> addr_t" where
  "V2P a = a - KERNBASE"

definition P2V :: "addr_t \<Rightarrow> addr_t" where
  "P2V a = a + KERNBASE"

definition PGROUNDUP :: "addr_t \<Rightarrow> addr_t" where
  "PGROUNDUP sz = (sz + 4095) AND NOT 4095"

definition PGROUNDDOWN :: "addr_t \<Rightarrow> addr_t" where
  "PGROUNDDOWN a = a AND NOT 4095"

section \<open>Operations (kalloc.c)\<close>

definition kfree_ok :: "addr_t \<Rightarrow> 'x kmem_state_scheme \<Rightarrow> bool" where
  "kfree_ok v s \<longleftrightarrow> \<not> (unat v mod PGSIZE \<noteq> 0 \<or> v < kend s \<or> V2P v \<ge> PHYSTOP)"

definition kfree :: "addr_t \<Rightarrow> ('x kmem_state_scheme, unit) km" where
  "kfree v =
     kbind (kget (kfree_ok v)) (\<lambda>ok.
     if \<not> ok then kpanic ''kfree''
     else kseq (kmod (\<lambda>s. s\<lparr>mem := memset (mem s) v 1 4096\<rparr>))
       (kbind (kget use_lock) (\<lambda>ul.
        kseq (kwhen ul (acquire KmemLock))
        (kseq (kmod (\<lambda>s. s\<lparr>mem := store64 (mem s) v (freelist s)\<rparr>))
        (kseq (kmod (\<lambda>s. s\<lparr>freelist := v\<rparr>))
              (kwhen ul (release KmemLock)))))))"

definition kalloc :: "('x kmem_state_scheme, addr_t) km" where
  "kalloc =
     kbind (kget use_lock) (\<lambda>ul.
     kseq (kwhen ul (acquire KmemLock))
     (kbind (kget freelist) (\<lambda>r.
      kseq (if r \<noteq> 0 then kmod (\<lambda>s. s\<lparr>freelist := load64 (mem s) r\<rparr>)
            else kpanic ''Out of memory!'')
      (kseq (kwhen ul (release KmemLock)) (kret r)))))"

text \<open>
  The loop of \<open>freerange\<close>. \<open>p + PGSIZE <= vend\<close> compares pointers into one object, so
  the sum is taken without wrap-around.
\<close>

function freerange_loop :: "addr_t \<Rightarrow> addr_t \<Rightarrow> ('x kmem_state_scheme, unit) km" where
  "freerange_loop p vend =
     (if unat p + PGSIZE \<le> unat vend then kseq (kfree p) (freerange_loop (p + of_nat PGSIZE) vend)
      else kret ())"
  by pat_completeness auto
termination
proof (relation "measure (\<lambda>(p, vend). unat vend - unat p)")
  fix p vend :: addr_t
  assume a: "unat p + PGSIZE \<le> unat vend"
  then have "unat p + PGSIZE < 2 ^ 64"
    using unat_bound[of vend] by simp
  then have "unat (p + of_nat PGSIZE) = unat p + PGSIZE"
    by (rule unat_add_of_nat)
  with a show "((p + of_nat PGSIZE, vend), p, vend) \<in> measure (\<lambda>(p, vend). unat vend - unat p)"
    by (simp add: PGSIZE_def)
qed simp

declare freerange_loop.simps [simp del]

definition freerange :: "addr_t \<Rightarrow> addr_t \<Rightarrow> ('x kmem_state_scheme, unit) km" where
  "freerange vstart vend = freerange_loop (PGROUNDUP vstart) vend"

definition kinit1 :: "addr_t \<Rightarrow> addr_t \<Rightarrow> ('x kmem_state_scheme, unit) km" where
  "kinit1 vstart vend =
     kseq (initlock KmemLock ''kmem'')
     (kseq (kmod (\<lambda>s. s\<lparr>use_lock := False\<rparr>))
     (kseq (kmod (\<lambda>s. s\<lparr>freelist := 0\<rparr>))
           (freerange vstart vend)))"

definition kinit2 :: "('x kmem_state_scheme, unit) km" where
  "kinit2 = kmod (\<lambda>s. s\<lparr>use_lock := True\<rparr>)"

section \<open>The free list\<close>

text \<open>\<open>flist m r xs\<close>: following first words from \<open>r\<close> visits \<open>xs\<close> and ends in 0.\<close>

primrec flist :: "memory \<Rightarrow> addr_t \<Rightarrow> addr_t list \<Rightarrow> bool" where
  "flist m r [] \<longleftrightarrow> r = 0"
| "flist m r (x # xs) \<longleftrightarrow> r = x \<and> x \<noteq> 0 \<and> flist m (load64 m x) xs"

definition kmem_inv :: "addr_t list \<Rightarrow> 'x kmem_state_scheme \<Rightarrow> bool" where
  "kmem_inv xs s \<longleftrightarrow> flist (mem s) (freelist s) xs \<and> distinct xs \<and> (\<forall>x\<in>set xs. kfree_ok x s)"

definition kmem_ready :: "'x kmem_state_scheme \<Rightarrow> bool" where
  "kmem_ready s \<longleftrightarrow> (use_lock s \<longrightarrow> irq_ok s \<and> lock_free KmemLock s)"

lemma kfree_ok_nonzero: "kfree_ok v s \<Longrightarrow> v \<noteq> 0"
  by (auto simp: kfree_ok_def V2P_def KERNBASE_def PHYSTOP_def)

lemma kfree_ok_aligned: "kfree_ok v s \<Longrightarrow> unat v mod 4096 = 0"
  by (simp add: kfree_ok_def PGSIZE_def)

lemma flist_nonzero: "flist m r xs \<Longrightarrow> r \<noteq> 0 \<Longrightarrow> \<exists>ys. xs = r # ys"
  by (cases xs) auto

text \<open>Two different pages have no byte in common.\<close>

lemma page_unat_diff:
  fixes a b :: addr_t
  assumes "unat a mod 4096 = 0" and "unat b mod 4096 = 0" and "a \<noteq> b" and "i < 4096"
  shows "4096 \<le> unat (b + of_nat i - a)"
proof -
  obtain p where p: "unat a = 4096 * p" using assms(1) by (metis mod_0_imp_dvd dvdE)
  obtain q where q: "unat b = 4096 * q" using assms(2) by (metis mod_0_imp_dvd dvdE)
  have pq: "p \<noteq> q"
    using assms(3) p q by (auto simp: word_unat_eq_iff)
  have bounds: "4096 * p < 2 ^ 64" "4096 * q < 2 ^ 64"
    using unat_bound[of a] unat_bound[of b] by (simp_all add: p q)
  have "unat (b + of_nat i) = 4096 * q + i"
    using bounds assms(4) q by (subst unat_add_of_nat) simp_all
  then have "unat (b + of_nat i - a) =
      (if 4096 * p \<le> 4096 * q + i then 4096 * q + i - 4096 * p
       else 4096 * q + i + 2 ^ 64 - 4096 * p)"
    by (simp add: unat_sub_if' word_le_nat_alt p)
  then show ?thesis
    using pq bounds assms(4) by (auto split: if_splits)
qed

text \<open>A memory change inside page \<open>v\<close> is not seen in another page.\<close>

definition only_page :: "addr_t \<Rightarrow> memory \<Rightarrow> memory \<Rightarrow> bool" where
  "only_page v m m' \<longleftrightarrow> (\<forall>x. 4096 \<le> unat (x - v) \<longrightarrow> m' x = m x)"

lemma only_page_load64:
  assumes "only_page v m m'" and "unat v mod 4096 = 0" and "unat a mod 4096 = 0" and "a \<noteq> v"
    and "off + 8 \<le> 4096"
  shows "load64 m' (a + of_nat off) = load64 m (a + of_nat off)"
proof -
  have "m' (a + of_nat off + of_nat i) = m (a + of_nat off + of_nat i)" if "i < 8" for i
    using assms page_unat_diff[of v a "off + i"] that
    by (auto simp: only_page_def add.assoc)
  then have "load_bytes m' (a + of_nat off) 8 = load_bytes m (a + of_nat off) 8"
    by (intro load_bytes_cong)
  then show ?thesis by (simp add: load64_def)
qed

lemma only_page_flist:
  "only_page v m m' \<Longrightarrow> unat v mod 4096 = 0 \<Longrightarrow> v \<notin> set xs \<Longrightarrow>
   (\<And>x. x \<in> set xs \<Longrightarrow> unat x mod 4096 = 0) \<Longrightarrow> flist m' r xs = flist m r xs"
proof (induction xs arbitrary: r)
  case Nil
  then show ?case by simp
next
  case (Cons x xs)
  have "load64 m' x = load64 m x"
    using only_page_load64[of v m m' x 0] Cons.prems by auto
  with Cons show ?case by simp
qed

lemma only_page_refl: "only_page v m m"
  by (simp add: only_page_def)

lemma only_page_trans: "only_page v m m' \<Longrightarrow> only_page v m' m'' \<Longrightarrow> only_page v m m''"
  by (simp add: only_page_def)

text \<open>Stores inside a page, and the words they leave alone.\<close>

lemma unat_diff_off:
  fixes d :: addr_t
  assumes "off \<le> unat d"
  shows "unat (d - of_nat off) = unat d - off"
proof -
  have "unat (of_nat off :: addr_t) = off"
    using assms unat_bound[of d] by (intro unat_of_nat_small) simp
  then show ?thesis
    using assms by (simp add: unat_sub word_le_nat_alt)
qed

lemma only_page_store_bytes:
  assumes "off + length bs \<le> 4096"
  shows "only_page k m (store_bytes m (k + of_nat off) bs)"
  unfolding only_page_def
proof (intro allI impI)
  fix x
  assume x: "4096 \<le> unat (x - k)"
  have "unat (x - (k + of_nat off)) = unat (x - k) - off"
    using assms x unat_diff_off[of off "x - k"] by (simp add: diff_diff_eq)
  then show "store_bytes m (k + of_nat off) bs x = m x"
    using assms x by (intro store_bytes_other) simp
qed

lemma only_page_store64: "off + 8 \<le> 4096 \<Longrightarrow> only_page k m (store64 m (k + of_nat off) w)"
  unfolding store64_def by (rule only_page_store_bytes) simp

lemma page_load_other:
  fixes k :: addr_t
  assumes "off + length bs \<le> off' \<or> off' + 8 \<le> off" and "off + length bs \<le> 4096" and "off' + 8 \<le> 4096"
  shows "load64 (store_bytes m (k + of_nat off) bs) (k + of_nat off') = load64 m (k + of_nat off')"
proof -
  have "length bs \<le> unat (k + of_nat off' + of_nat i - (k + of_nat off))" if "i < 8" for i
  proof -
    have d: "k + of_nat off' + of_nat i - (k + of_nat off) = (of_nat (off' + i) :: addr_t) - of_nat off"
      by simp
    have u: "unat (of_nat (off' + i) :: addr_t) = off' + i" "unat (of_nat off :: addr_t) = off"
      using assms that by (intro unat_of_nat_small; simp)+
    show ?thesis
      unfolding d using assms that by (auto simp: unat_sub_if' u word_le_nat_alt simp del: of_nat_add)
  qed
  then show ?thesis
    by (simp add: load64_def load_store_bytes_other)
qed

lemma page_load64_other:
  "off + 8 \<le> off' \<or> off' + 8 \<le> off \<Longrightarrow> off + 8 \<le> 4096 \<Longrightarrow> off' + 8 \<le> 4096 \<Longrightarrow>
   load64 (store64 m (k + of_nat off) w) (k + of_nat off') = load64 m (k + of_nat off')"
  unfolding store64_def by (rule page_load_other) simp_all

section \<open>What kfree and kalloc do\<close>

definition freed_mem :: "memory \<Rightarrow> addr_t \<Rightarrow> addr_t \<Rightarrow> memory" where
  "freed_mem m v nxt = store64 (memset m v 1 4096) v nxt"

lemma only_page_freed: "only_page v m (freed_mem m v nxt)"
  by (auto simp: only_page_def freed_mem_def store64_def store_bytes_def memset_fills)

lemma load_freed [simp]: "load64 (freed_mem m v nxt) v = nxt"
  by (simp add: freed_mem_def)

text \<open>The junk a freed page is filled with, past its link word.\<close>

lemma freed_junk: "8 \<le> i \<Longrightarrow> i < 4096 \<Longrightarrow> freed_mem m v nxt (v + of_nat i) = 1"
  by (simp add: freed_mem_def store64_def store_bytes_def memset_fills unat_of_nat_small)

lemma kfree_eq:
  assumes "kmem_ready s" and "kfree_ok v s"
  shows "kfree v s = Ok () (s\<lparr>mem := freed_mem (mem s) v (freelist s), freelist := v\<rparr>)"
proof (cases "use_lock s")
  case False
  then show ?thesis
    using assms(2) by (simp add: kfree_def k_simps freed_mem_def)
next
  case True
  let ?s = "s\<lparr>mem := memset (mem s) v 1 4096\<rparr>"
  let ?t = "taken KmemLock ?s"
  have lk: "irq_ok ?s" "lock_free KmemLock ?s"
    using assms(1) True by (simp_all add: kmem_ready_def irq_ok_def lock_free_def)
  have "release KmemLock (?t\<lparr>mem := store64 (mem ?t) v (freelist ?t), freelist := v\<rparr>) =
      Ok () (restore_locks ?s (?t\<lparr>mem := store64 (mem ?t) v (freelist ?t), freelist := v\<rparr>))"
    using lk by (rule release_taken) (simp add: same_locks_def)
  then show ?thesis
    using True assms(2) acquire_free[OF lk(2)]
    by (simp add: kfree_def k_simps restore_locks_def taken_def freed_mem_def)
qed

lemma kalloc_eq:
  assumes "kmem_ready s" and "freelist s \<noteq> 0"
  shows "kalloc s = Ok (freelist s) (s\<lparr>freelist := load64 (mem s) (freelist s)\<rparr>)"
proof (cases "use_lock s")
  case False
  then show ?thesis
    using assms(2) by (simp add: kalloc_def k_simps)
next
  case True
  have lk: "irq_ok s" "lock_free KmemLock s"
    using assms(1) True by (simp_all add: kmem_ready_def)
  let ?t = "taken KmemLock s"
  have "release KmemLock (?t\<lparr>freelist := load64 (mem ?t) (freelist ?t)\<rparr>) =
      Ok () (restore_locks s (?t\<lparr>freelist := load64 (mem ?t) (freelist ?t)\<rparr>))"
    using lk by (rule release_taken) (simp add: same_locks_def)
  then show ?thesis
    using True assms(2) acquire_free[OF lk(2)]
    by (simp add: kalloc_def k_simps restore_locks_def taken_def)
qed

lemma kalloc_empty:
  assumes "kmem_ready s" and "freelist s = 0"
  shows "kalloc s = Fail (EPanic ''Out of memory!'')"
  using assms by (cases "use_lock s")
    (simp_all add: kalloc_def k_simps kmem_ready_def acquire_free, simp add: taken_def)

lemma kalloc_OkD: "kalloc s = Ok r t \<Longrightarrow> r \<noteq> 0"
  by (auto simp: kalloc_def k_invert split: if_splits)

lemma kfree_bad: "\<not> kfree_ok v s \<Longrightarrow> kfree v s = Fail (EPanic ''kfree'')"
  by (simp add: kfree_def k_simps)

lemma kfree_inv:
  assumes "kmem_inv xs s" and "kfree_ok v s" and "v \<notin> set xs"
  shows "kmem_inv (v # xs) (s\<lparr>mem := freed_mem (mem s) v (freelist s), freelist := v\<rparr>)"
proof -
  have "flist (freed_mem (mem s) v (freelist s)) (freelist s) xs = flist (mem s) (freelist s) xs"
    using assms by (intro only_page_flist[OF only_page_freed])
      (auto simp: kmem_inv_def kfree_ok_aligned)
  then show ?thesis
    using assms kfree_ok_nonzero[OF assms(2)] by (auto simp: kmem_inv_def kfree_ok_def)
qed

lemma kalloc_inv:
  "kmem_inv (x # xs) s \<Longrightarrow> kmem_inv xs (s\<lparr>freelist := load64 (mem s) (freelist s)\<rparr>)"
  by (auto simp: kmem_inv_def kfree_ok_def)

lemma kmem_inv_freelist: "kmem_inv xs s \<Longrightarrow> freelist s = (case xs of [] \<Rightarrow> 0 | x # _ \<Rightarrow> x)"
  by (cases xs) (auto simp: kmem_inv_def)

lemma kmem_inv_nonzero: "kmem_inv (x # xs) s \<Longrightarrow> freelist s \<noteq> 0"
  by (auto simp: kmem_inv_def)

section \<open>The allocator contract\<close>

text \<open>
  \<open>pool xs s\<close>: in state \<open>s\<close> the pages \<open>xs\<close> can be handed out. An allocation hands
  out one of them, which then belongs to the caller; freeing a page the pool does not hold
  gives it back.
\<close>

locale pages =
  fixes alloc :: "('s, 'p) km" and free :: "'p \<Rightarrow> ('s, unit) km"
    and pool :: "'p list \<Rightarrow> 's \<Rightarrow> bool" and valid :: "'p \<Rightarrow> 's \<Rightarrow> bool"
  assumes pool_distinct: "pool xs s \<Longrightarrow> distinct xs"
    and pool_valid: "pool xs s \<Longrightarrow> x \<in> set xs \<Longrightarrow> valid x s"
    and alloc_pool: "pool (x # xs) s \<Longrightarrow> \<exists>t. alloc s = Ok x t \<and> pool xs t \<and> valid x t"
    and alloc_none: "pool [] s \<Longrightarrow> \<exists>e. alloc s = Fail e"
    and free_pool: "pool xs s \<Longrightarrow> valid x s \<Longrightarrow> x \<notin> set xs \<Longrightarrow> \<exists>t. free x s = Ok () t \<and> pool (x # xs) t"
begin

text \<open>\<open>n\<close> allocations in a row.\<close>

primrec allocs :: "nat \<Rightarrow> ('s, 'p list) km" where
  "allocs 0 = kret []"
| "allocs (Suc n) = kbind alloc (\<lambda>x. kbind (allocs n) (\<lambda>xs. kret (x # xs)))"

lemma allocs_take:
  "n \<le> length xs \<Longrightarrow> pool xs s \<Longrightarrow> \<exists>t. allocs n s = Ok (take n xs) t \<and> pool (drop n xs) t"
proof (induction n arbitrary: xs s)
  case 0
  then show ?case by (simp add: k_simps)
next
  case (Suc n)
  then obtain x ys where xs: "xs = x # ys" by (cases xs) auto
  obtain t where t: "alloc s = Ok x t" "pool ys t"
    using alloc_pool Suc.prems(2) xs by blast
  obtain u where "allocs n t = Ok (take n ys) u" "pool (drop n ys) u"
    using Suc.IH[of ys t] Suc.prems(1) t(2) xs by auto
  then show ?case
    by (simp add: k_simps t xs)
qed

lemma allocs_exhaust: "pool xs s \<Longrightarrow> \<exists>e. allocs (Suc (length xs)) s = Fail e"
proof (induction xs arbitrary: s)
  case Nil
  then obtain e where "alloc s = Fail e" using alloc_none by blast
  then show ?case by (simp add: k_simps)
next
  case (Cons x xs)
  obtain t where t: "alloc s = Ok x t" "pool xs t"
    using alloc_pool Cons.prems by blast
  obtain e where "allocs (Suc (length xs)) t = Fail e"
    using Cons.IH[OF t(2)] by blast
  then show ?case by (simp add: k_simps t(1))
qed

lemma free_alloc:
  assumes "pool xs s" and "valid x s" and "x \<notin> set xs"
  shows "\<exists>t. kseq (free x) alloc s = Ok x t \<and> pool xs t"
proof -
  obtain u where u: "free x s = Ok () u" "pool (x # xs) u"
    using free_pool[OF assms] by blast
  then obtain t where "alloc u = Ok x t" "pool xs t"
    using alloc_pool by blast
  then show ?thesis by (simp add: k_simps u(1))
qed

end

interpretation km: pages kalloc kfree "\<lambda>xs s. kmem_inv xs s \<and> kmem_ready s" "\<lambda>x s. kfree_ok x s"
proof unfold_locales
  fix xs and s :: "'x kmem_state_scheme" and x
  show "kmem_inv xs s \<and> kmem_ready s \<Longrightarrow> distinct xs"
    by (simp add: kmem_inv_def)
  show "kmem_inv xs s \<and> kmem_ready s \<Longrightarrow> x \<in> set xs \<Longrightarrow> kfree_ok x s"
    by (simp add: kmem_inv_def)
  show "\<exists>t. kalloc s = Ok x t \<and> (kmem_inv xs t \<and> kmem_ready t) \<and> kfree_ok x t"
    if "kmem_inv (x # xs) s \<and> kmem_ready s"
  proof -
    have "freelist s = x" and "kfree_ok x s"
      using that by (auto simp: kmem_inv_def)
    moreover have "kmem_inv xs (s\<lparr>freelist := load64 (mem s) (freelist s)\<rparr>)"
      using that by (blast intro: kalloc_inv)
    ultimately show ?thesis
      using that kfree_ok_nonzero[of x s]
      by (auto simp: kalloc_eq kmem_ready_def irq_ok_def lock_free_def kfree_ok_def)
  qed
  show "\<exists>e. kalloc s = Fail e" if "kmem_inv [] s \<and> kmem_ready s"
    using that kalloc_empty[of s] by (auto simp: kmem_inv_def)
  show "\<exists>t. kfree x s = Ok () t \<and> kmem_inv (x # xs) t \<and> kmem_ready t"
    if "kmem_inv xs s \<and> kmem_ready s" and "kfree_ok x s" and "x \<notin> set xs"
    using that kfree_inv[of xs s x]
    by (auto simp: kfree_eq kmem_ready_def irq_ok_def lock_free_def)
qed

section \<open>Page rounding\<close>

lemma and_not_mask: "(x :: 'a::len word) AND NOT (mask n) = push_bit n (drop_bit n x)"
  by (auto intro!: bit_word_eqI simp: bit_and_iff bit_not_iff bit_mask_iff bit_push_bit_iff bit_drop_bit_eq)

lemma and_not_4095: "(x :: addr_t) AND - 4096 = push_bit 12 (drop_bit 12 x)"
proof -
  have "mask 12 = (4095 :: addr_t)"
    by (simp add: mask_eq_exp_minus_1)
  then show ?thesis
    using and_not_mask[of x 12] by simp
qed

lemma unat_PGROUNDDOWN: "unat (PGROUNDDOWN x) = unat x div 4096 * 4096"
proof -
  have "unat x div 4096 * 4096 < 2 ^ 64"
    using unat_bound[of x] by (simp add: le_less_trans[OF div_times_less_eq_dividend])
  then show ?thesis
    by (simp add: PGROUNDDOWN_def and_not_4095 push_bit_eq_mult drop_bit_eq_div unat_word_ariths
        unat_div)
qed

lemma unat_PGROUNDUP:
  "unat x + 4095 < 2 ^ 64 \<Longrightarrow> unat (PGROUNDUP x) = (unat x + 4095) div 4096 * 4096"
  using unat_PGROUNDDOWN[of "x + 4095"]
  by (simp add: PGROUNDUP_def PGROUNDDOWN_def unat_word_ariths)

section \<open>Initialisation\<close>

definition page_range :: "addr_t \<Rightarrow> addr_t \<Rightarrow> addr_t set" where
  "page_range lo hi = {v. unat v mod PGSIZE = 0 \<and> lo \<le> v \<and> unat v + PGSIZE \<le> unat hi}"

lemma aligned_gap:
  assumes "a mod 4096 = 0" and "b mod 4096 = 0" and "a < (b :: nat)"
  shows "a + 4096 \<le> b"
proof -
  obtain i j where i: "a = 4096 * i" and j: "b = 4096 * j"
    using assms by (metis mod_0_imp_dvd dvdE)
  then have "Suc i \<le> j"
    using assms(3) by simp
  then have "4096 * Suc i \<le> 4096 * j"
    by (rule mult_le_mono2)
  then show ?thesis by (simp add: i j)
qed

lemma page_range_Suc:
  assumes "unat p mod 4096 = 0" and "unat p + 4096 \<le> unat vend"
  shows "page_range p vend = insert p (page_range (p + 4096) vend)" and "p \<notin> page_range (p + 4096) vend"
proof -
  have next_p: "unat (p + 4096) = unat p + 4096"
    using unat_add_of_nat[of p 4096] assms(2) unat_bound[of vend] by simp
  show "p \<notin> page_range (p + 4096) vend"
    by (simp add: page_range_def word_le_nat_alt next_p)
  show "page_range p vend = insert p (page_range (p + 4096) vend)"
  proof (intro set_eqI iffI)
    fix x
    assume x: "x \<in> page_range p vend"
    then have "x = p \<or> unat p < unat x"
      by (auto simp: page_range_def word_le_nat_alt word_unat_eq_iff)
    then show "x \<in> insert p (page_range (p + 4096) vend)"
    proof
      assume "unat p < unat x"
      then have "unat p + 4096 \<le> unat x"
        using x assms(1) by (intro aligned_gap) (simp_all add: page_range_def PGSIZE_def)
      with x show ?thesis
        by (simp add: page_range_def word_le_nat_alt next_p)
    qed simp
  next
    fix x
    assume "x \<in> insert p (page_range (p + 4096) vend)"
    then show "x \<in> page_range p vend"
      using assms by (auto simp: page_range_def PGSIZE_def word_le_nat_alt next_p)
  qed
qed

lemma freerange_loop_ok:
  fixes s :: "'x kmem_state_scheme"
  assumes "kmem_inv xs s" and "\<not> use_lock s" and "unat p mod 4096 = 0"
    and "\<And>v. v \<in> page_range p vend \<Longrightarrow> kfree_ok v s" and "set xs \<inter> page_range p vend = {}"
  shows "\<exists>ys t. freerange_loop p vend s = Ok () t \<and> kmem_inv (ys @ xs) t \<and>
     set ys = page_range p vend \<and> \<not> use_lock t"
  using assms
proof (induction p vend arbitrary: xs s rule: freerange_loop.induct)
  case (1 p vend)
  show ?case
  proof (cases "unat p + PGSIZE \<le> unat vend")
    case False
    then have "page_range p vend = {}"
      by (auto simp: page_range_def word_le_nat_alt)
    with False 1(2,3) show ?thesis
      by (intro exI[of _ "[]"] exI[of _ s]) (simp add: freerange_loop.simps[of p vend] k_simps)
  next
    case True
    then have gap: "unat p + 4096 \<le> unat vend" by (simp add: PGSIZE_def)
    note range = page_range_Suc[OF 1(4) gap]
    let ?t = "s\<lparr>mem := freed_mem (mem s) p (freelist s), freelist := p\<rparr>"
    have ok: "kfree_ok p s" and fresh: "p \<notin> set xs"
      using 1(5,6) range by auto
    have step: "kfree p s = Ok () ?t"
      using ok 1(3) by (intro kfree_eq) (simp_all add: kmem_ready_def)
    have next_p: "unat (p + 4096) = unat p + 4096"
      using unat_add_of_nat[of p 4096] gap unat_bound[of vend] by simp
    have "\<exists>ys t. freerange_loop (p + of_nat PGSIZE) vend ?t = Ok () t \<and> kmem_inv (ys @ p # xs) t \<and>
        set ys = page_range (p + of_nat PGSIZE) vend \<and> \<not> use_lock t"
    proof (rule 1(1)[OF True])
      show "kmem_inv (p # xs) ?t"
        using 1(2) ok fresh by (rule kfree_inv)
      show "unat (p + of_nat PGSIZE) mod 4096 = 0"
        using 1(4) next_p by (simp add: PGSIZE_def)
      show "kfree_ok v ?t" if "v \<in> page_range (p + of_nat PGSIZE) vend" for v
        using 1(5)[of v] that range by (simp add: PGSIZE_def kfree_ok_def)
      show "set (p # xs) \<inter> page_range (p + of_nat PGSIZE) vend = {}"
        using 1(6) range by (auto simp: PGSIZE_def)
    qed (use 1(3) in simp)
    then obtain ys t where "freerange_loop (p + 4096) vend ?t = Ok () t" "kmem_inv ((ys @ [p]) @ xs) t"
        "set ys = page_range (p + 4096) vend" "\<not> use_lock t"
      by (auto simp: PGSIZE_def)
    then show ?thesis
      using True step range(1)
      by (intro exI[of _ "ys @ [p]"] exI[of _ t])
        (simp add: freerange_loop.simps[of p vend] k_simps PGSIZE_def)
  qed
qed

lemma page_range_PGROUNDUP:
  assumes "unat lo + 4095 < 2 ^ 64"
  shows "page_range (PGROUNDUP lo) hi = page_range lo hi"
proof -
  have iff: "unat (PGROUNDUP lo) \<le> n \<longleftrightarrow> unat lo \<le> n" if aligned: "n mod PGSIZE = 0" for n
  proof -
    obtain k where n: "n = k * 4096"
      using aligned by (metis PGSIZE_def mod_0_imp_dvd dvd_div_mult_self)
    have "unat (PGROUNDUP lo) \<le> n \<longleftrightarrow> (unat lo + 4095) div 4096 < Suc k"
      unfolding unat_PGROUNDUP[OF assms] n by (simp add: less_Suc_eq_le)
    also have "\<dots> \<longleftrightarrow> unat lo + 4095 < Suc k * 4096"
      by (rule div_less_iff_less_mult) simp
    also have "\<dots> \<longleftrightarrow> unat lo \<le> n"
      unfolding n mult_Suc by arith
    finally show ?thesis .
  qed
  show ?thesis
    unfolding page_range_def word_le_nat_alt by (intro Collect_cong) (metis iff)
qed

lemma kfree_ok_range:
  assumes "KERNBASE \<le> lo" and "kend s \<le> lo" and "unat hi \<le> unat (P2V PHYSTOP)" and "v \<in> page_range lo hi"
  shows "kfree_ok v s"
proof -
  have v: "unat v mod 4096 = 0" "lo \<le> v" "unat v + 4096 \<le> unat hi"
    using assms(4) by (auto simp: page_range_def PGSIZE_def)
  have base: "unat KERNBASE \<le> unat v"
    using assms(1) v(2) by (simp add: word_le_nat_alt)
  have "unat (V2P v) = unat v - unat KERNBASE"
    using base by (simp add: V2P_def unat_sub word_le_nat_alt)
  moreover have "unat (P2V PHYSTOP) = unat PHYSTOP + unat KERNBASE"
    by (simp add: P2V_def PHYSTOP_def KERNBASE_def)
  ultimately have "V2P v < PHYSTOP"
    using v(3) assms(3) base by (simp add: word_less_nat_alt)
  then show ?thesis
    using v assms(2) by (auto simp: kfree_ok_def PGSIZE_def)
qed

section \<open>Properties\<close>

text \<open>
  Claim C36. After \<open>kinit1(vstart, vend)\<close> the free list holds exactly the whole pages of the
  range, each once, and every one of them may be allocated and freed.
\<close>

theorem kinit1_frees_range:
  assumes "KERNBASE \<le> vstart" and "kend s \<le> vstart" and "vstart \<le> vend"
    and "unat vend \<le> unat (P2V PHYSTOP)"
  shows "\<exists>xs t. kinit1 vstart vend s = Ok () t \<and> kmem_inv xs t \<and> set xs = page_range vstart vend"
proof -
  let ?s = "s\<lparr>locks := (locks s)(KmemLock := (locks s KmemLock)\<lparr>lk_name := ''kmem'', locked := 0, lk_cpu := None\<rparr>),
    use_lock := False, freelist := 0\<rparr>"
  have lo: "unat vstart + 4095 < 2 ^ 64"
    using assms(3,4) by (simp add: word_le_nat_alt P2V_def PHYSTOP_def KERNBASE_def)
  have init: "kinit1 vstart vend s = freerange_loop (PGROUNDUP vstart) vend ?s"
    by (simp add: kinit1_def initlock_def set_lock_def k_simps freerange_def)
  have "\<exists>ys t. freerange_loop (PGROUNDUP vstart) vend ?s = Ok () t \<and> kmem_inv (ys @ []) t \<and>
      set ys = page_range (PGROUNDUP vstart) vend \<and> \<not> use_lock t"
  proof (rule freerange_loop_ok)
    show "kmem_inv [] ?s"
      by (simp add: kmem_inv_def)
    show "kfree_ok v ?s" if "v \<in> page_range (PGROUNDUP vstart) vend" for v
      using that assms by (intro kfree_ok_range[of vstart _ vend]) (simp_all add: page_range_PGROUNDUP[OF lo])
  qed (simp_all add: unat_PGROUNDUP[OF lo])
  then show ?thesis
    by (auto simp: init page_range_PGROUNDUP[OF lo])
qed

text \<open>A machine just after boot: all of the kernel's variables zero.\<close>

definition boot_cpu :: cpu where
  "boot_cpu = \<lparr>ncli = 0, intena = False, if_flag = False\<rparr>"

definition boot_lock :: spinlock where
  "boot_lock = \<lparr>locked = 0, lk_name = [], lk_cpu = None\<rparr>"

definition boot_kmem :: kmem_state where
  "boot_kmem = \<lparr>cpuid = 0, cpus = (\<lambda>_. boot_cpu), locks = (\<lambda>_. boot_lock), mem = (\<lambda>_. 0),
     kend = 0xFFFF800000200000, use_lock = False, freelist = 0\<rparr>"

theorem kinit1_frees_range_witness:
  "\<exists>xs t. kinit1 0xFFFF800000200123 0xFFFF800000204000 boot_kmem = Ok () t \<and> kmem_inv xs t \<and>
     set xs = page_range 0xFFFF800000200123 0xFFFF800000204000"
  by (rule kinit1_frees_range)
    (simp_all add: boot_kmem_def KERNBASE_def P2V_def PHYSTOP_def word_le_nat_alt)

text \<open>
  Claim C37. \<open>kalloc\<close> hands out the first page of the free list, takes it off the list and
  leaves memory alone; \<open>kfree\<close> puts a page that is not on the list at its front, fills it
  with junk beyond the link word and changes no byte outside it. Both keep the list well
  formed and duplicate-free.
\<close>

theorem kalloc_kfree_list:
  assumes "kmem_inv xs s" and "kmem_ready s"
  shows "(\<forall>x ys. xs = x # ys \<longrightarrow> (\<exists>t. kalloc s = Ok x t \<and> kmem_inv ys t \<and> mem t = mem s)) \<and>
    (\<forall>v. kfree_ok v s \<and> v \<notin> set xs \<longrightarrow>
      (\<exists>t. kfree v s = Ok () t \<and> kmem_inv (v # xs) t \<and>
         (\<forall>a. PGSIZE \<le> unat (a - v) \<longrightarrow> mem t a = mem s a) \<and>
         (\<forall>i. 8 \<le> i \<and> i < PGSIZE \<longrightarrow> mem t (v + of_nat i) = 1)))"
proof (intro conjI allI impI)
  fix x ys
  assume "xs = x # ys"
  then show "\<exists>t. kalloc s = Ok x t \<and> kmem_inv ys t \<and> mem t = mem s"
    using assms kalloc_inv[of x ys s] kmem_inv_nonzero[of x ys s] kmem_inv_freelist[of xs s]
    by (auto simp: kalloc_eq)
next
  fix v
  assume "kfree_ok v s \<and> v \<notin> set xs"
  then show "\<exists>t. kfree v s = Ok () t \<and> kmem_inv (v # xs) t \<and>
         (\<forall>a. PGSIZE \<le> unat (a - v) \<longrightarrow> mem t a = mem s a) \<and>
         (\<forall>i. 8 \<le> i \<and> i < PGSIZE \<longrightarrow> mem t (v + of_nat i) = 1)"
    using assms kfree_inv[of xs s v] only_page_freed[of v "mem s" "freelist s"]
    by (auto simp: kfree_eq only_page_def freed_junk PGSIZE_def)
qed

theorem kalloc_kfree_list_witness:
  "\<exists>t. kfree 0xFFFF800000200000 boot_kmem = Ok () t \<and> kmem_inv [0xFFFF800000200000] t"
proof -
  have "kmem_inv [] boot_kmem" and "kmem_ready boot_kmem"
    by (simp_all add: kmem_inv_def boot_kmem_def kmem_ready_def)
  moreover have "kfree_ok 0xFFFF800000200000 boot_kmem"
    by (simp add: kfree_ok_def boot_kmem_def V2P_def KERNBASE_def PHYSTOP_def PGSIZE_def)
  ultimately show ?thesis
    using kalloc_kfree_list[of "[]" boot_kmem] by auto
qed

text \<open>
  Claim C38. With no free page left \<open>kalloc\<close> panics; it never returns 0, although its
  comment and its callers (\<open>allocproc\<close>, \<open>walkpgdir\<close>, \<open>allocuvm\<close>, \<open>pipealloc\<close>) expect
  a null result on exhaustion.
\<close>

theorem kalloc_never_null:
  assumes "kmem_ready s" and "kmem_inv xs s"
  shows "(\<forall>t. kalloc s \<noteq> Ok 0 t) \<and> (xs = [] \<longrightarrow> kalloc s = Fail (EPanic ''Out of memory!''))"
  using assms kalloc_empty[of s] kalloc_eq[of s]
  by (cases "freelist s = 0") (auto simp: kmem_inv_def)

theorem kalloc_never_null_witness: "kalloc boot_kmem = Fail (EPanic ''Out of memory!'')"
  using kalloc_never_null[of boot_kmem "[]"]
  by (simp add: boot_kmem_def kmem_ready_def kmem_inv_def)

end
