(* ===== verification/Proctab.thy ===== *)
theory Proctab
  imports Kalloc "HOL-Library.Sublist"
begin

text \<open>
  \<^verbatim>\<open>proc.c\<close>, the part below the file system: the process table, \<open>allocproc\<close>, the
  scheduler and the operations that change a process's state. \<open>fork\<close>, \<open>exit\<close>,
  \<open>wait\<close> and \<open>growproc\<close> need the file and memory layers and are in
  \<^verbatim>\<open>Process\<close>.

  A path that reaches \<open>swtch\<close> ends there with outcome \<open>Switch\<close>; what the same code does
  once it is switched back in is the operation's \<open>_return\<close> definition. \<open>sched_step\<close> puts
  the pieces together: any number of CPUs, each in its scheduler loop or in a process.
\<close>

section \<open>State (proc.h, proc.c)\<close>

datatype procstate = UNUSED | EMBRYO | SLEEPING | RUNNABLE | RUNNING | ZOMBIE

datatype slockid =
    BufSleep nat    \<comment> \<open>\<open>bcache.buf[i].lock\<close>\<close>
  | InodeSleep nat  \<comment> \<open>\<open>icache.inode[i].lock\<close>\<close>

text \<open>What processes sleep on: the code uses the address of the object as the channel.\<close>

datatype chan =
    ProcChan nat            \<comment> \<open>\<open>&ptable.proc[i]\<close>, in \<open>wait\<close>\<close>
  | SleepChan slockid       \<comment> \<open>a sleep lock\<close>
  | TicksChan | LogChan | InputChan
  | PipeReadChan addr_t | PipeWriteChan addr_t
  | BufChan nat             \<comment> \<open>\<open>&bcache.buf[i]\<close>, in the disk driver\<close>

record proc =
  p_sz :: addr_t
  p_pgdir :: addr_t
  p_kstack :: addr_t
  p_state :: procstate
  p_pid :: "32 word"
  p_parent :: "nat option"
  p_tf :: addr_t
  p_context :: addr_t
  p_chan :: "chan option"
  p_killed :: bool
  p_ofile :: "nat \<Rightarrow> nat option"
  p_cwd :: "nat option"
  p_name :: "uchar list"
  p_stk_intena :: bool  \<comment> \<open>local \<open>intena\<close> of \<open>sched\<close>, on the kernel stack while switched out\<close>

record proc_state = kmem_state +
  ptable :: "nat \<Rightarrow> proc"
  initproc :: "nat option"
  nextpid :: "32 word"
  cpu_proc :: "nat \<Rightarrow> nat option"   \<comment> \<open>per-CPU variable \<open>proc\<close>\<close>
  cr3 :: "nat \<Rightarrow> addr_t"            \<comment> \<open>per-CPU page table register\<close>
  tss_rsp0 :: "nat \<Rightarrow> addr_t"       \<comment> \<open>per-CPU \<open>tss[1]\<close>, \<open>tss[2]\<close>: kernel stack top\<close>
  kpml4 :: addr_t
  kpdpt :: addr_t
  code_addr :: "string \<Rightarrow> addr_t"   \<comment> \<open>addresses of code labels, fixed by the linker\<close>

definition NPROC :: nat where
  "NPROC = 64"

definition KSTACKSIZE :: addr_t where
  "KSTACKSIZE = 4096"

text \<open>Sizes and field offsets of \<open>struct trapframe\<close> and \<open>struct context\<close>.\<close>

definition sizeof_trapframe :: addr_t where
  "sizeof_trapframe = 176"

definition sizeof_context :: addr_t where
  "sizeof_context = 56"

definition context_rip :: addr_t where
  "context_rip = 48"

definition myproc :: "'x proc_state_scheme \<Rightarrow> nat option" where
  "myproc s = cpu_proc s (cpuid s)"

definition set_proc :: "nat \<Rightarrow> (proc \<Rightarrow> proc) \<Rightarrow> ('x proc_state_scheme, unit) km" where
  "set_proc i f = kmod (\<lambda>s. s\<lparr>ptable := (ptable s)(i := f (ptable s i))\<rparr>)"

text \<open>Code that reads \<open>proc->\<close>: a fault when no process runs on this CPU.\<close>

definition with_cur :: "(nat \<Rightarrow> ('x proc_state_scheme, 'a) km) \<Rightarrow> ('x proc_state_scheme, 'a) km" where
  "with_cur f = kbind (kget myproc) (\<lambda>p. case p of None \<Rightarrow> kfault ''proc'' | Some i \<Rightarrow> f i)"

definition get_proc :: "(proc \<Rightarrow> 'a) \<Rightarrow> nat \<Rightarrow> ('x proc_state_scheme, 'a) km" where
  "get_proc f i = kget (\<lambda>s. f (ptable s i))"

section \<open>Operations (proc.c, vm.c)\<close>

definition pinit :: "('x proc_state_scheme, unit) km" where
  "pinit = initlock PtableLock ''ptable''"

text \<open>\<open>allocproc\<close>: the critical section that claims a slot, then the kernel stack.\<close>

definition alloc_slot :: "('x proc_state_scheme, nat option) km" where
  "alloc_slot =
     kseq (acquire PtableLock)
     (kbind (kget (\<lambda>s. find (\<lambda>i. p_state (ptable s i) = UNUSED) [0..<NPROC])) (\<lambda>found.
      case found of
        None \<Rightarrow> kseq (release PtableLock) (kret None)
      | Some p \<Rightarrow>
          kseq (set_proc p (\<lambda>q. q\<lparr>p_state := EMBRYO\<rparr>))
          (kbind (kget nextpid) (\<lambda>n.
           kseq (set_proc p (\<lambda>q. q\<lparr>p_pid := n\<rparr>))
          (kseq (kmod (\<lambda>s. s\<lparr>nextpid := nextpid s + 1\<rparr>))
          (kseq (release PtableLock) (kret (Some p))))))))"

definition alloc_stack :: "nat \<Rightarrow> ('x proc_state_scheme, nat option) km" where
  "alloc_stack p =
     kbind kalloc (\<lambda>ks.
     kseq (set_proc p (\<lambda>q. q\<lparr>p_kstack := ks\<rparr>))
     (if ks = 0 then kseq (set_proc p (\<lambda>q. q\<lparr>p_state := UNUSED\<rparr>)) (kret None)
      else let tf = ks + KSTACKSIZE - sizeof_trapframe; ret = tf - 8; ctx = ret - sizeof_context in
        kseq (set_proc p (\<lambda>q. q\<lparr>p_tf := tf\<rparr>))
        (kseq (kmod (\<lambda>s. s\<lparr>mem := store64 (mem s) ret (code_addr s ''syscall_trapret'')\<rparr>))
        (kseq (set_proc p (\<lambda>q. q\<lparr>p_context := ctx\<rparr>))
        (kseq (kmod (\<lambda>s. s\<lparr>mem := memset (mem s) ctx 0 (ucast sizeof_context)\<rparr>))
        (kseq (kmod (\<lambda>s. s\<lparr>mem := store64 (mem s) (ctx + context_rip) (code_addr s ''forkret'')\<rparr>))
              (kret (Some p))))))))"

definition allocproc :: "('x proc_state_scheme, nat option) km" where
  "allocproc =
     kbind alloc_slot (\<lambda>r. case r of None \<Rightarrow> kret None | Some p \<Rightarrow> alloc_stack p)"

definition switchuvm :: "nat \<Rightarrow> ('x proc_state_scheme, unit) km" where
  "switchuvm p =
     kseq pushcli
     (kbind (get_proc (\<lambda>q. q) p) (\<lambda>q.
      if p_pgdir q = 0 then kpanic ''switchuvm: no pgdir''
      else kseq (kmod (\<lambda>s. s\<lparr>tss_rsp0 := (tss_rsp0 s)(cpuid s := p_kstack q + KSTACKSIZE)\<rparr>))
        (kseq (kmod (\<lambda>s. s\<lparr>cr3 := (cr3 s)(cpuid s := V2P (p_pgdir q))\<rparr>))
              popcli)))"

definition switchkvm :: "('x proc_state_scheme, unit) km" where
  "switchkvm = kmod (\<lambda>s. s\<lparr>cr3 := (cr3 s)(cpuid s := V2P (kpml4 s))\<rparr>)"

text \<open>
  One turn of the \<open>for\<close> loop of \<open>scheduler\<close>, up to the \<open>swtch\<close> into the process, and
  what follows the \<open>swtch\<close> when the process gives the CPU back.
\<close>

definition scheduler_visit :: "nat \<Rightarrow> ('x proc_state_scheme, unit) km" where
  "scheduler_visit p =
     kbind (get_proc p_state p) (\<lambda>st.
     if st \<noteq> RUNNABLE then kret ()
     else kseq (kmod (\<lambda>s. s\<lparr>cpu_proc := (cpu_proc s)(cpuid s := Some p)\<rparr>))
       (kseq (switchuvm p)
       (kseq (set_proc p (\<lambda>q. q\<lparr>p_state := RUNNING\<rparr>))
             (\<lambda>s. Switch s))))"

definition scheduler_back :: "('x proc_state_scheme, unit) km" where
  "scheduler_back =
     kseq switchkvm (kmod (\<lambda>s. s\<lparr>cpu_proc := (cpu_proc s)(cpuid s := None)\<rparr>))"

definition sched :: "('x proc_state_scheme, 'a) km" where
  "sched =
     kbind (kget (holding PtableLock)) (\<lambda>h.
     if \<not> h then kpanic ''sched ptable.lock''
     else kbind (kget (\<lambda>s. cpus s (cpuid s))) (\<lambda>c.
       if ncli c \<noteq> 1 then kpanic ''sched locks''
       else with_cur (\<lambda>p. kbind (get_proc p_state p) (\<lambda>st.
         if st = RUNNING then kpanic ''sched running''
         else if if_flag c then kpanic ''sched interruptible''
         else kseq (set_proc p (\<lambda>q. q\<lparr>p_stk_intena := intena c\<rparr>)) (\<lambda>s. Switch s)))))"

definition sched_return :: "('x proc_state_scheme, unit) km" where
  "sched_return = with_cur (\<lambda>p. kbind (get_proc p_stk_intena p) (\<lambda>ie. set_cpu (\<lambda>c. c\<lparr>intena := ie\<rparr>)))"

definition yield :: "('x proc_state_scheme, 'a) km" where
  "yield =
     kseq (acquire PtableLock)
     (kseq (with_cur (\<lambda>p. set_proc p (\<lambda>q. q\<lparr>p_state := RUNNABLE\<rparr>))) sched)"

definition yield_return :: "('x proc_state_scheme, unit) km" where
  "yield_return = kseq sched_return (release PtableLock)"

text \<open>\<open>sleep(chan, lk)\<close> up to the switch, and after it. A null \<open>lk\<close> is \<open>None\<close>.\<close>

definition sleep :: "chan \<Rightarrow> lockid option \<Rightarrow> ('x proc_state_scheme, 'a) km" where
  "sleep ch lko =
     kbind (kget myproc) (\<lambda>me.
     case me of None \<Rightarrow> kpanic ''sleep''
     | Some p \<Rightarrow>
       (case lko of None \<Rightarrow> kpanic ''sleep without lk''
        | Some lk \<Rightarrow>
            kseq (kwhen (lk \<noteq> PtableLock) (kseq (acquire PtableLock) (release lk)))
            (kseq (set_proc p (\<lambda>q. q\<lparr>p_chan := Some ch\<rparr>))
            (kseq (set_proc p (\<lambda>q. q\<lparr>p_state := SLEEPING\<rparr>))
                  sched))))"

definition sleep_return :: "lockid \<Rightarrow> ('x proc_state_scheme, unit) km" where
  "sleep_return lk =
     kseq sched_return
     (kseq (with_cur (\<lambda>p. set_proc p (\<lambda>q. q\<lparr>p_chan := None\<rparr>)))
           (kwhen (lk \<noteq> PtableLock) (kseq (release PtableLock) (acquire lk))))"

definition wakeup1 :: "chan option \<Rightarrow> ('x proc_state_scheme, unit) km" where
  "wakeup1 ch =
     kfor (\<lambda>i. kbind (get_proc (\<lambda>q. q) i) (\<lambda>q.
       kwhen (p_state q = SLEEPING \<and> p_chan q = ch) (set_proc i (\<lambda>q. q\<lparr>p_state := RUNNABLE\<rparr>))))
     [0..<NPROC]"

definition wakeup :: "chan \<Rightarrow> ('x proc_state_scheme, unit) km" where
  "wakeup ch = kseq (acquire PtableLock) (kseq (wakeup1 (Some ch)) (release PtableLock))"

definition kill :: "32 word \<Rightarrow> ('x proc_state_scheme, int) km" where
  "kill n =
     kseq (acquire PtableLock)
     (kbind (kget (\<lambda>s. find (\<lambda>i. p_pid (ptable s i) = n) [0..<NPROC])) (\<lambda>found.
      case found of
        None \<Rightarrow> kseq (release PtableLock) (kret (- 1))
      | Some p \<Rightarrow>
          kseq (set_proc p (\<lambda>q. q\<lparr>p_killed := True\<rparr>))
          (kseq (kbind (get_proc p_state p) (\<lambda>st.
                   kwhen (st = SLEEPING) (set_proc p (\<lambda>q. q\<lparr>p_state := RUNNABLE\<rparr>))))
          (kseq (release PtableLock) (kret 0)))))"

text \<open>
  The parts of \<open>exit\<close> and \<open>wait\<close> that change process states: the end of \<open>exit\<close>, run
  after files and directory are given up, and the reset of a reaped table entry.
\<close>

definition reparent :: "nat \<Rightarrow> nat \<Rightarrow> ('x proc_state_scheme, unit) km" where
  "reparent me i =
     kbind (get_proc (\<lambda>q. q) i) (\<lambda>q.
     kwhen (p_parent q = Some me)
       (kbind (kget initproc) (\<lambda>ip.
        kseq (set_proc i (\<lambda>q. q\<lparr>p_parent := ip\<rparr>))
             (kwhen (p_state q = ZOMBIE) (wakeup1 (map_option ProcChan ip))))))"

definition exit_tail :: "('x proc_state_scheme, 'a) km" where
  "exit_tail =
     kseq (acquire PtableLock)
     (with_cur (\<lambda>me.
      kbind (get_proc p_parent me) (\<lambda>par.
      kseq (wakeup1 (map_option ProcChan par))
      (kseq (kfor (reparent me) [0..<NPROC])
      (kseq (set_proc me (\<lambda>q. q\<lparr>p_state := ZOMBIE\<rparr>))
      (kseq (sched :: (_, unit) km) (kpanic ''zombie exit'')))))))"

definition reap :: "nat \<Rightarrow> ('x proc_state_scheme, unit) km" where
  "reap i = set_proc i (\<lambda>q. q\<lparr>p_pid := 0, p_parent := None, p_name := (p_name q)[0 := 0],
     p_killed := False, p_state := UNUSED\<rparr>)"

lemmas proc_ops = set_proc_def get_proc_def with_cur_def myproc_def

section \<open>Closed forms\<close>

definition woken :: "chan option \<Rightarrow> proc \<Rightarrow> proc" where
  "woken ch q = (if p_state q = SLEEPING \<and> p_chan q = ch then q\<lparr>p_state := RUNNABLE\<rparr> else q)"

definition wake_all :: "chan option \<Rightarrow> 'x proc_state_scheme \<Rightarrow> 'x proc_state_scheme" where
  "wake_all ch s = s\<lparr>ptable := (\<lambda>i. if i < NPROC then woken ch (ptable s i) else ptable s i)\<rparr>"

lemma proc_stay [kstay_intros]: "kstay (set_proc i f)" "kstay (get_proc g i)"
  by (simp_all add: set_proc_def get_proc_def kstay_basic)

lemma wakeup1_stay [kstay_intros]: "kstay (wakeup1 ch)"
  unfolding wakeup1_def by (intro kstay_intros)

lemma reparent_stay [kstay_intros]: "kstay (reparent me i)"
  unfolding reparent_def by (intro kstay_intros)

lemma kfor_proc:
  "kfor (\<lambda>i. set_proc i f) [0..<n] s =
     Ok () (s\<lparr>ptable := (\<lambda>i. if i < n then f (ptable s i) else ptable s i)\<rparr>)"
proof (induction n)
  case 0
  then show ?case by (simp add: k_simps)
next
  case (Suc n)
  then show ?case
    by (auto simp: kfor_append k_simps proc_ops fun_eq_iff intro!: arg_cong[where f = "\<lambda>p. s\<lparr>ptable := p\<rparr>"])
qed

lemma wakeup1_eq: "wakeup1 ch s = Ok () (wake_all ch s)"
proof -
  have "(\<lambda>i. kbind (get_proc (\<lambda>q. q) i) (\<lambda>q. kwhen (p_state q = SLEEPING \<and> p_chan q = ch)
      (set_proc i (\<lambda>q. q\<lparr>p_state := RUNNABLE\<rparr>)))) =
    (\<lambda>i. (set_proc i (woken ch) :: ('a proc_state_scheme, unit) km))"
    by (auto simp: fun_eq_iff k_simps proc_ops woken_def)
  then show ?thesis
    by (simp add: wakeup1_def kfor_proc wake_all_def)
qed

lemma wakeup_eq:
  assumes "irq_ok s" and "lock_free PtableLock s"
  shows "wakeup ch s = Ok () (wake_all (Some ch) s)"
proof -
  have "wakeup ch s = with_lock PtableLock (wakeup1 (Some ch)) s"
    by (simp add: wakeup_def with_lock_def k_simps split: outcome.splits)
  also have "\<dots> = Ok () (restore_locks s (wake_all (Some ch) (taken PtableLock s)))"
    using assms by (intro with_lock_Ok) (simp_all add: wakeup1_eq wake_all_def same_locks_def)
  finally show ?thesis
    by (simp add: restore_locks_def wake_all_def taken_def cong: if_cong)
qed

lemma wake_all_sel [simp]:
  "cpuid (wake_all ch s) = cpuid s" "cpus (wake_all ch s) = cpus s" "locks (wake_all ch s) = locks s"
  "mem (wake_all ch s) = mem s" "cpu_proc (wake_all ch s) = cpu_proc s"
  "initproc (wake_all ch s) = initproc s" "nextpid (wake_all ch s) = nextpid s"
  "proc_state.more (wake_all ch s) = proc_state.more s" "myproc (wake_all ch s) = myproc s"
  by (simp_all add: wake_all_def myproc_def)

lemma woken_sel [simp]:
  "p_pid (woken ch q) = p_pid q" "p_parent (woken ch q) = p_parent q" "p_killed (woken ch q) = p_killed q"
  "p_chan (woken ch q) = p_chan q"
  "p_state (woken ch q) = UNUSED \<longleftrightarrow> p_state q = UNUSED"
  "p_state (woken ch q) = RUNNING \<longleftrightarrow> p_state q = RUNNING"
  "p_state (woken ch q) = ZOMBIE \<longleftrightarrow> p_state q = ZOMBIE"
  "p_state (woken ch q) = EMBRYO \<longleftrightarrow> p_state q = EMBRYO"
  by (simp_all add: woken_def)

section \<open>Many CPUs: scheduler loops and processes\<close>

text \<open>
  Where each CPU is. \<open>Sweep i k\<close> and \<open>Enter p\<close> hold the table lock: it is taken by the
  scheduler, carried through \<open>swtch\<close>, and released by the process; and the other way
  round. \<open>k\<close> is the scheduler's local \<open>skipped\<close>.
\<close>

datatype sched_pc =
    Idle nat        \<comment> \<open>top of the scheduler's outer loop\<close>
  | Sweep nat nat   \<comment> \<open>in its inner loop, about to visit process \<open>i\<close>\<close>
  | Enter nat       \<comment> \<open>switched into process \<open>p\<close>, lock still held\<close>
  | InProc nat      \<comment> \<open>running process \<open>p\<close>\<close>

record sched_sys =
  ss_st :: proc_state
  ss_pc :: "nat \<Rightarrow> sched_pc"

definition sti :: "('x kstate_scheme, unit) km" where
  "sti = set_cpu (\<lambda>c. c\<lparr>if_flag := True\<rparr>)"

definition ss_put :: "nat \<Rightarrow> proc_state \<Rightarrow> sched_pc \<Rightarrow> sched_sys \<Rightarrow> sched_sys" where
  "ss_put c s pc y = y\<lparr>ss_st := s, ss_pc := (ss_pc y)(c := pc)\<rparr>"

definition in_proc :: "sched_pc \<Rightarrow> bool" where
  "in_proc pc \<longleftrightarrow> (case pc of InProc _ \<Rightarrow> True | _ \<Rightarrow> False)"

inductive sched_step :: "nat \<Rightarrow> sched_sys \<Rightarrow> sched_sys \<Rightarrow> bool" for c y where
  begin_sweep: "ss_pc y c = Idle k \<Longrightarrow> kseq sti (acquire PtableLock) (on_cpu c (ss_st y)) = Ok () s \<Longrightarrow>
     sched_step c y (ss_put c s (Sweep 0 k) y)"
| skip_proc: "ss_pc y c = Sweep i k \<Longrightarrow> i < NPROC \<Longrightarrow> scheduler_visit i (on_cpu c (ss_st y)) = Ok () s \<Longrightarrow>
     sched_step c y (ss_put c s (Sweep (Suc i) (Suc k)) y)"
| run_proc: "ss_pc y c = Sweep i k \<Longrightarrow> i < NPROC \<Longrightarrow> scheduler_visit i (on_cpu c (ss_st y)) = Switch s \<Longrightarrow>
     sched_step c y (ss_put c s (Enter i) y)"
| end_sweep: "ss_pc y c = Sweep NPROC k \<Longrightarrow> release PtableLock (on_cpu c (ss_st y)) = Ok () s \<Longrightarrow>
     sched_step c y (ss_put c s (Idle (if NPROC < k then 0 else k)) y)"
| first_run: "ss_pc y c = Enter p \<Longrightarrow> release PtableLock (on_cpu c (ss_st y)) = Ok () s \<Longrightarrow>
     sched_step c y (ss_put c s (InProc p) y)"
| resume_yield: "ss_pc y c = Enter p \<Longrightarrow> yield_return (on_cpu c (ss_st y)) = Ok () s \<Longrightarrow>
     sched_step c y (ss_put c s (InProc p) y)"
| resume_sleep: "ss_pc y c = Enter p \<Longrightarrow> lk \<noteq> PtableLock \<Longrightarrow>
     sleep_return lk (on_cpu c (ss_st y)) = Ok () s \<Longrightarrow> sched_step c y (ss_put c s (InProc p) y)"
| do_yield: "ss_pc y c = InProc p \<Longrightarrow> yield (on_cpu c (ss_st y)) = (Switch s :: (unit, _) outcome) \<Longrightarrow>
     scheduler_back s = Ok () s' \<Longrightarrow> sched_step c y (ss_put c s' (Sweep (Suc p) 0) y)"
| do_sleep: "ss_pc y c = InProc p \<Longrightarrow> lk \<noteq> PtableLock \<Longrightarrow>
     sleep ch (Some lk) (on_cpu c (ss_st y)) = (Switch s :: (unit, _) outcome) \<Longrightarrow>
     scheduler_back s = Ok () s' \<Longrightarrow> sched_step c y (ss_put c s' (Sweep (Suc p) 0) y)"
| do_exit: "ss_pc y c = InProc p \<Longrightarrow> exit_tail (on_cpu c (ss_st y)) = (Switch s :: (unit, _) outcome) \<Longrightarrow>
     scheduler_back s = Ok () s' \<Longrightarrow> sched_step c y (ss_put c s' (Sweep (Suc p) 0) y)"
| do_wakeup: "wakeup ch (on_cpu c (ss_st y)) = Ok () s \<Longrightarrow>
     sched_step c y (ss_put c s (ss_pc y c) y)"
| do_kill: "in_proc (ss_pc y c) \<Longrightarrow> kill n (on_cpu c (ss_st y)) = Ok r s \<Longrightarrow>
     sched_step c y (ss_put c s (ss_pc y c) y)"
| do_alloc: "in_proc (ss_pc y c) \<Longrightarrow> allocproc (on_cpu c (ss_st y)) = Ok r s \<Longrightarrow>
     sched_step c y (ss_put c s (ss_pc y c) y)"
| do_ready: "in_proc (ss_pc y c) \<Longrightarrow> p_state (ptable (ss_st y) np) = EMBRYO \<Longrightarrow>
     set_proc np (\<lambda>q. q\<lparr>p_state := RUNNABLE\<rparr>) (on_cpu c (ss_st y)) = Ok () s \<Longrightarrow>
     sched_step c y (ss_put c s (ss_pc y c) y)"
| do_reap: "in_proc (ss_pc y c) \<Longrightarrow> p_state (ptable (ss_st y) i) = ZOMBIE \<Longrightarrow>
     with_lock PtableLock (reap i) (on_cpu c (ss_st y)) = Ok () s \<Longrightarrow>
     sched_step c y (ss_put c s (ss_pc y c) y)"

text \<open>The machine starts with every CPU at the top of its scheduler and nothing running.\<close>

definition sched_start :: "sched_sys \<Rightarrow> bool" where
  "sched_start y \<longleftrightarrow> (\<forall>c. ss_pc y c = Idle 0 \<and> cpu_proc (ss_st y) c = None) \<and>
     locked (locks (ss_st y) PtableLock) = 0 \<and> (\<forall>p<NPROC. p_state (ptable (ss_st y) p) \<noteq> RUNNING)"

inductive sched_reach :: "sched_sys \<Rightarrow> bool" where
  reach_start: "sched_start y \<Longrightarrow> sched_reach y"
| reach_step: "sched_reach y \<Longrightarrow> sched_step c y z \<Longrightarrow> sched_reach z"

fun on_proc :: "sched_pc \<Rightarrow> nat option" where
  "on_proc (Enter p) = Some p"
| "on_proc (InProc p) = Some p"
| "on_proc _ = None"

fun has_table :: "sched_pc \<Rightarrow> bool" where
  "has_table (Sweep i k) = True"
| "has_table (Enter p) = True"
| "has_table _ = False"

text \<open>Each process that runs does so on one CPU, and the lock is held as \<open>ss_pc\<close> says.\<close>

definition run_inv :: "(nat \<Rightarrow> sched_pc) \<Rightarrow> proc_state \<Rightarrow> bool" where
  "run_inv pc s \<longleftrightarrow>
     (\<forall>c. cpu_proc s c = on_proc (pc c)) \<and>
     (\<forall>c p. on_proc (pc c) = Some p \<longrightarrow> p < NPROC \<and> p_state (ptable s p) = RUNNING) \<and>
     (\<forall>c d p. on_proc (pc c) = Some p \<and> on_proc (pc d) = Some p \<longrightarrow> c = d) \<and>
     (\<forall>p<NPROC. p_state (ptable s p) = RUNNING \<longrightarrow> (\<exists>c. on_proc (pc c) = Some p))"

definition table_inv :: "(nat \<Rightarrow> sched_pc) \<Rightarrow> proc_state \<Rightarrow> bool" where
  "table_inv pc s \<longleftrightarrow>
     (locked (locks s PtableLock) \<noteq> 0 \<longleftrightarrow> (\<exists>c. has_table (pc c))) \<and>
     (\<forall>c. has_table (pc c) \<longrightarrow> lk_cpu (locks s PtableLock) = Some c)"

lemma sched_SwitchD:
  assumes "sched s = (Switch t :: ('b, 'x proc_state_scheme) outcome)"
  shows "\<exists>p ie. myproc s = Some p \<and> p_state (ptable s p) \<noteq> RUNNING \<and>
    t = s\<lparr>ptable := (ptable s)(p := (ptable s p)\<lparr>p_stk_intena := ie\<rparr>)\<rparr>"
  using assms by (auto simp: sched_def k_simps proc_ops split: if_splits option.splits intro: exI)

lemma release_Ok_fields:
  assumes "release lk (s :: 'x proc_state_scheme) = Ok x t"
  shows "ptable t = ptable s \<and> cpu_proc t = cpu_proc s \<and> cpuid t = cpuid s \<and>
    locks t = (locks s)(lk := (locks s lk)\<lparr>lk_cpu := None, locked := 0\<rparr>) \<and>
    lk_cpu (locks s lk) = Some (cpuid s) \<and> nextpid t = nextpid s"
  using release_OkD[OF assms] by (auto simp: holding_def)

lemma acquire_Ok_fields:
  assumes "acquire lk (s :: 'x proc_state_scheme) = Ok x t"
  shows "ptable t = ptable s \<and> cpu_proc t = cpu_proc s \<and> cpuid t = cpuid s \<and>
    locks t = (locks s)(lk := (locks s lk)\<lparr>locked := 1, lk_cpu := Some (cpuid s)\<rparr>) \<and>
    locked (locks s lk) = 0 \<and> nextpid t = nextpid s"
  using acquire_OkD[OF assms] by (simp add: taken_def)

text \<open>
  What a step may do, as far as the invariants see it. \<open>mild\<close> steps leave the current
  processes and the set of running processes as they were; \<open>calm\<close> steps also leave the
  table lock.
\<close>

definition mild :: "'x proc_state_scheme \<Rightarrow> 'x proc_state_scheme \<Rightarrow> bool" where
  "mild s t \<longleftrightarrow> cpu_proc t = cpu_proc s \<and> cpuid t = cpuid s \<and>
     (\<forall>p. p_state (ptable t p) = RUNNING \<longleftrightarrow> p_state (ptable s p) = RUNNING)"

definition same_table_lock :: "'x proc_state_scheme \<Rightarrow> 'x proc_state_scheme \<Rightarrow> bool" where
  "same_table_lock s t \<longleftrightarrow>
     locked (locks t PtableLock) = locked (locks s PtableLock) \<and>
     (locked (locks s PtableLock) \<noteq> 0 \<longrightarrow> lk_cpu (locks t PtableLock) = lk_cpu (locks s PtableLock))"

interpretation mild: kframe mild
  by unfold_locales (auto simp: mild_def)

interpretation tlock: kframe same_table_lock
  by unfold_locales (auto simp: same_table_lock_def)

lemma mild_inv: "mild s t \<Longrightarrow> run_inv pc s \<Longrightarrow> run_inv pc t"
  by (auto simp: mild_def run_inv_def)

lemma same_table_lock_inv: "same_table_lock s t \<Longrightarrow> table_inv pc s \<Longrightarrow> table_inv pc t"
  by (auto simp: same_table_lock_def table_inv_def)

lemma on_cpu_inv [simp]:
  "run_inv pc (on_cpu c s) \<longleftrightarrow> run_inv pc s" "table_inv pc (on_cpu c s) \<longleftrightarrow> table_inv pc s"
  by (simp_all add: on_cpu_def run_inv_def table_inv_def)

lemma on_cpu_sel [simp]:
  "cpuid (on_cpu c s) = c" "locks (on_cpu c s) = locks s" "cpus (on_cpu c s) = cpus s"
  by (simp_all add: on_cpu_def)

lemma on_cpu_proc_sel [simp]:
  "ptable (on_cpu c s) = ptable s" "cpu_proc (on_cpu c s) = cpu_proc s" "nextpid (on_cpu c s) = nextpid s"
  "myproc (on_cpu c s) = cpu_proc s c"
  by (simp_all add: on_cpu_def myproc_def)

lemma mild_locks: "kpres mild (acquire lk)" "kpres mild (release lk)"
  by (auto intro!: kpresI dest!: acquire_Ok_fields release_Ok_fields
      simp: mild_def acquire_no_Switch release_no_Switch)

lemma tlock_locks:
  "lk \<noteq> PtableLock \<Longrightarrow> kpres same_table_lock (acquire lk)"
  "lk \<noteq> PtableLock \<Longrightarrow> kpres same_table_lock (release lk)"
  by (auto intro!: kpresI dest!: acquire_Ok_fields release_Ok_fields
      simp: same_table_lock_def acquire_no_Switch release_no_Switch)

lemma mild_kalloc: "kpres mild kalloc"
  unfolding kalloc_def by (intro mild.pres mild_locks kpres_mod) (simp_all add: mild_def)

lemma tlock_kalloc: "kpres same_table_lock kalloc"
  unfolding kalloc_def by (intro tlock.pres tlock_locks kpres_mod) (simp_all add: same_table_lock_def)

lemma mild_set_proc:
  "(\<And>q. p_state (f q) = RUNNING \<longleftrightarrow> p_state q = RUNNING) \<Longrightarrow> kpres mild (set_proc p f)"
  by (auto simp: kpres_def k_simps set_proc_def mild_def)

lemma tlock_set_proc: "kpres same_table_lock (set_proc p f)"
  by (auto simp: kpres_def k_simps set_proc_def same_table_lock_def)

lemma mild_wakeup1: "kpres mild (wakeup1 ch)"
  by (auto simp: kpres_def wakeup1_eq mild_def wake_all_def)

lemma mild_wakeup: "kpres mild (wakeup ch)"
  unfolding wakeup_def by (intro mild.pres mild_locks mild_wakeup1)

lemma mild_reparent: "kpres mild (reparent me i)"
  unfolding reparent_def get_proc_def
  by (intro mild.pres mild_set_proc mild_wakeup1) simp_all

lemma alloc_slot_OkD:
  assumes "alloc_slot s = Ok r t"
  shows "(case r of
      None \<Rightarrow> (\<forall>i<NPROC. p_state (ptable s i) \<noteq> UNUSED) \<and> ptable t = ptable s \<and> nextpid t = nextpid s
    | Some p \<Rightarrow> p < NPROC \<and> p_state (ptable s p) = UNUSED \<and> (\<forall>i<p. p_state (ptable s i) \<noteq> UNUSED) \<and>
        ptable t = (ptable s)(p := (ptable s p)\<lparr>p_state := EMBRYO, p_pid := nextpid s\<rparr>) \<and>
        nextpid t = nextpid s + 1) \<and>
    cpu_proc t = cpu_proc s \<and> cpuid t = cpuid s \<and>
    locked (locks s PtableLock) = 0 \<and> locked (locks t PtableLock) = 0"
proof -
  obtain u where u: "acquire PtableLock s = Ok () u"
    using assms by (auto simp: alloc_slot_def k_invert)
  note a = acquire_Ok_fields[OF u]
  show ?thesis
  proof (cases "find (\<lambda>i. p_state (ptable u i) = UNUSED) [0..<NPROC]")
    case None
    then have r: "release PtableLock u = Ok () t" "r = None"
      using assms u by (auto simp: alloc_slot_def k_invert)
    show ?thesis
      using None a release_Ok_fields[OF r(1)] by (simp add: r find_upt_None)
  next
    case (Some p)
    then have r: "release PtableLock (u\<lparr>ptable := (ptable u)(p := (ptable u p)\<lparr>p_state := EMBRYO,
        p_pid := nextpid u\<rparr>), nextpid := nextpid u + 1\<rparr>) = Ok () t" "r = Some p"
      using assms u by (auto simp: alloc_slot_def k_invert set_proc_def)
    show ?thesis
      using Some a release_Ok_fields[OF r(1)] by (simp add: r find_upt_Some)
  qed
qed

lemma alloc_slot_no_Switch: "alloc_slot s \<noteq> Switch t"
  unfolding alloc_slot_def by (intro kstayD kstay_intros)

lemma mild_allocproc: "kpres mild allocproc"
proof -
  have "kpres mild alloc_slot"
    by (rule kpresI)
      (auto simp: mild_def alloc_slot_no_Switch dest!: alloc_slot_OkD split: option.splits if_splits)
  moreover have "kpres mild (alloc_stack p)" for p
    unfolding alloc_stack_def
    by (rule mild.pres_bind_res[OF mild_kalloc, where P = "\<lambda>x. x \<noteq> 0"], erule kalloc_OkD,
        intro mild.pres mild_set_proc kpres_mod) (simp_all add: mild_def)
  ultimately show ?thesis
    unfolding allocproc_def by (intro mild.pres)
qed

lemma mild_kill: "kpres mild (kill n)"
proof -
  have "kpres mild (kbind (get_proc p_state p) (\<lambda>st.
      kwhen (st = SLEEPING) (set_proc p (\<lambda>q. q\<lparr>p_state := RUNNABLE\<rparr>))))" for p
    by (rule kpresI) (auto simp: k_invert get_proc_def set_proc_def mild_def split: if_splits)
  note wake = this
  show ?thesis
    unfolding kill_def
    by (intro mild.pres(1-3) mild.pres_seq[OF wake] mild.pres mild_locks mild_set_proc) simp_all
qed

text \<open>Operations that open with \<open>acquire(&ptable.lock)\<close> and end with the lock free.\<close>

abbreviation table_free :: "'x proc_state_scheme \<Rightarrow> bool" where
  "table_free s \<equiv> locked (locks s PtableLock) = 0"

lemma table_section:
  assumes "kpost table_free m" and "kseq (acquire PtableLock) m s = Ok r t"
  shows "same_table_lock s t"
  using assms by (auto simp: kpost_def same_table_lock_def k_invert dest!: acquire_Ok_fields)

lemma release_table_free: "kpost table_free (release PtableLock)"
  by (auto simp: kpost_def dest!: release_Ok_fields)

lemma tlock_keeps: "kpres same_table_lock m \<Longrightarrow> kpres (keeps table_free) m"
  by (auto simp: kpres_def keeps_def same_table_lock_def split: outcome.splits dest: spec)

lemma tlock_wakeup: "wakeup ch s = Ok r t \<Longrightarrow> same_table_lock s t"
  unfolding wakeup_def by (erule table_section[rotated]) (intro kpost_later_seq release_table_free)

lemma tlock_kill: "kill n s = Ok r t \<Longrightarrow> same_table_lock s t"
  unfolding kill_def
  by (erule table_section[rotated])
    (auto intro!: kpost_later kpost_later_seq[of _ "kseq _ (kseq _ _)"] kpost_later_seq[of _ "kseq (release PtableLock) _"]
      kpost_now release_table_free keeps.pres split: option.splits)

lemma tlock_allocproc: "allocproc s = Ok r t \<Longrightarrow> same_table_lock s t"
proof -
  assume a: "allocproc s = Ok r t"
  then obtain r' u where u: "alloc_slot s = Ok r' u" and
    rest: "(case r' of None \<Rightarrow> kret None | Some p \<Rightarrow> alloc_stack p) u = Ok r t"
    by (auto simp: allocproc_def k_invert)
  have "kpres same_table_lock (case r' of None \<Rightarrow> kret None | Some p \<Rightarrow> alloc_stack p)"
    unfolding alloc_stack_def
    by (intro tlock.pres tlock_kalloc tlock_set_proc kpres_mod) (simp_all add: same_table_lock_def)
  then have "same_table_lock u t"
    using rest by (rule kpresD)
  then show "same_table_lock s t"
    using alloc_slot_OkD[OF u] by (simp add: same_table_lock_def)
qed

section \<open>Invariants of the scheduler machine\<close>

text \<open>\<open>left p s t\<close>: process \<open>p\<close> has stopped running and handed over the table lock.\<close>

definition left :: "nat \<Rightarrow> 'x proc_state_scheme \<Rightarrow> 'x proc_state_scheme \<Rightarrow> bool" where
  "left p s t \<longleftrightarrow> cpuid t = cpuid s \<and> cpu_proc t = cpu_proc s \<and> locked (locks s PtableLock) = 0 \<and>
     locked (locks t PtableLock) \<noteq> 0 \<and> lk_cpu (locks t PtableLock) = Some (cpuid s) \<and>
     p_state (ptable t p) \<noteq> RUNNING \<and>
     (\<forall>q. q \<noteq> p \<longrightarrow> (p_state (ptable t q) = RUNNING \<longleftrightarrow> p_state (ptable s q) = RUNNING))"

lemma left_inv:
  assumes "left p s t" and "pc (cpuid s) = InProc p" and "run_inv pc s" and "table_inv pc s"
    and "scheduler_back t = Ok () u"
  shows "run_inv (pc(cpuid s := Sweep (Suc p) 0)) u \<and> table_inv (pc(cpuid s := Sweep (Suc p) 0)) u"
proof -
  have u: "cpu_proc u = (cpu_proc t)(cpuid s := None)" "ptable u = ptable t" "locks u = locks t"
    using assms(1,5) by (auto simp: left_def scheduler_back_def switchkvm_def k_simps)
  have others: "on_proc (pc d) \<noteq> Some p" if "d \<noteq> cpuid s" for d
    using assms(2,3) that unfolding run_inv_def by (metis on_proc.simps(2))
  have run: "p_state (ptable t q) = RUNNING" if "d \<noteq> cpuid s" "on_proc (pc d) = Some q" for d q
    using assms(1,3) others[OF that(1)] that(2) by (auto simp: left_def run_inv_def)
  have "\<not> has_table (pc d)" for d
    using assms(1,4) by (auto simp: left_def table_inv_def)
  moreover have "\<exists>d. on_proc ((pc(cpuid s := Sweep (Suc p) 0)) d) = Some q"
    if q: "q < NPROC" "p_state (ptable t q) = RUNNING" for q
  proof -
    have "q \<noteq> p" and "p_state (ptable s q) = RUNNING"
      using assms(1) q by (auto simp: left_def)
    then obtain d where "on_proc (pc d) = Some q"
      using assms(3) q by (auto simp: run_inv_def)
    moreover have "d \<noteq> cpuid s"
      using calculation \<open>q \<noteq> p\<close> assms(2) by auto
    ultimately show ?thesis
      by (intro exI[of _ d]) simp
  qed
  ultimately show ?thesis
    using assms(1,3) run by (auto simp: run_inv_def table_inv_def left_def u)
qed

lemma left_sched:
  fixes s t :: "'x proc_state_scheme"
  assumes "sched s = (Switch t :: ('b, 'x proc_state_scheme) outcome)" and "myproc s = Some p"
    and "locked (locks r PtableLock) = 0" and "cpuid s = cpuid r" and "cpu_proc s = cpu_proc r"
    and "\<And>q. q \<noteq> p \<Longrightarrow> p_state (ptable s q) = RUNNING \<longleftrightarrow> p_state (ptable r q) = RUNNING"
  shows "left p r t"
proof -
  have "holding PtableLock s"
    using assms(1) by (auto simp: sched_def k_simps split: if_splits)
  then show ?thesis
    using sched_SwitchD[OF assms(1)] assms(2-) by (auto simp: left_def holding_def)
qed

lemma yield_left: "yield s = (Switch t :: ('b, 'x proc_state_scheme) outcome) \<Longrightarrow> myproc s = Some p \<Longrightarrow> left p s t"
  by (auto simp: yield_def k_invert acquire_no_Switch proc_ops split: option.splits
      dest!: acquire_Ok_fields intro!: left_sched)

lemma sleep_left:
  assumes "sleep ch (Some lk) s = (Switch t :: ('b, 'x proc_state_scheme) outcome)" and "lk \<noteq> PtableLock"
    and "myproc s = Some p"
  shows "left p s t"
  using assms
  by (auto simp: sleep_def k_invert acquire_no_Switch release_no_Switch proc_ops
      dest!: acquire_Ok_fields release_Ok_fields intro!: left_sched)

lemma exit_left:
  assumes "exit_tail s = (Switch t :: ('b, 'x proc_state_scheme) outcome)" and "myproc s = Some p"
  shows "left p s t"
proof -
  obtain u where u: "acquire PtableLock s = Ok () u"
    using assms(1) by (auto simp: exit_tail_def k_invert acquire_no_Switch)
  note a = acquire_Ok_fields[OF u]
  let ?loop = "kfor (reparent p) [0..<NPROC] :: ('x proc_state_scheme, unit) km"
  have mild: "kpres mild ?loop"
    by (intro mild.pres mild_reparent)
  have stay: "?loop w \<noteq> Switch t" for w
    by (rule kstayD) (intro kstay_intros)
  obtain v where v: "?loop (wake_all (map_option ProcChan (p_parent (ptable u p))) u) = Ok () v"
    and w: "sched (v\<lparr>ptable := (ptable v)(p := (ptable v p)\<lparr>p_state := ZOMBIE\<rparr>)\<rparr>) = (Switch t :: (unit, _) outcome)"
    using assms u a stay
    by (auto simp: exit_tail_def k_invert acquire_no_Switch proc_ops wakeup1_eq)
  have "mild u v"
    using kpresD[OF mild v] by (auto simp: mild_def wake_all_def)
  then show ?thesis
    using a assms(2) by (intro left_sched[OF w]) (auto simp: mild_def myproc_def)
qed

lemma switchuvm_OkD:
  assumes "switchuvm p (s :: 'x proc_state_scheme) = Ok () t"
  shows "ptable t = ptable s \<and> cpu_proc t = cpu_proc s \<and> cpuid t = cpuid s \<and> locks t = locks s"
  using assms by (auto simp: switchuvm_def pushcli_eq popcli_def set_cpu_def k_invert proc_ops split: if_splits)

lemma visit_OkD: "scheduler_visit i s = Ok () t \<Longrightarrow> t = s \<and> p_state (ptable s i) \<noteq> RUNNABLE"
  by (auto simp: scheduler_visit_def k_invert get_proc_def split: if_splits)

lemma switchuvm_stay [kstay_intros]: "kstay (switchuvm p)"
  unfolding switchuvm_def by (intro kstay_intros)

lemma visit_SwitchD:
  assumes "scheduler_visit i s = Switch t"
  shows "p_state (ptable s i) = RUNNABLE \<and> cpu_proc t = (cpu_proc s)(cpuid s := Some i) \<and>
    ptable t = (ptable s)(i := (ptable s i)\<lparr>p_state := RUNNING\<rparr>) \<and> cpuid t = cpuid s \<and> locks t = locks s"
  using assms switchuvm_stay[THEN kstayD]
  by (auto simp: scheduler_visit_def k_invert get_proc_def set_proc_def dest!: switchuvm_OkD split: if_splits)

text \<open>Dispatching: the chosen process was \<open>RUNNABLE\<close>, so no CPU was running it.\<close>

lemma run_inv_dispatch:
  assumes inv: "run_inv pc s" and idle: "on_proc (pc c) = None" and i: "i < NPROC" "p_state (ptable s i) = RUNNABLE"
    and t: "cpu_proc t = (cpu_proc s)(c := Some i)" "ptable t = (ptable s)(i := (ptable s i)\<lparr>p_state := RUNNING\<rparr>)"
  shows "run_inv (pc(c := Enter i)) t"
proof -
  have fresh: "on_proc (pc d) \<noteq> Some i" for d
    using inv i by (auto simp: run_inv_def)
  have "\<exists>d. on_proc ((pc(c := Enter i)) d) = Some q" if q: "q < NPROC" "p_state (ptable t q) = RUNNING" for q
  proof (cases "q = i")
    case False
    then obtain d where "on_proc (pc d) = Some q"
      using inv q t by (auto simp: run_inv_def)
    moreover have "d \<noteq> c" using calculation idle by auto
    ultimately show ?thesis by (intro exI[of _ d]) simp
  qed (auto intro: exI[of _ c])
  then show ?thesis
    using inv i fresh unfolding run_inv_def t by auto
qed

text \<open>Entering a process: its thread releases the table lock the scheduler took.\<close>

lemma run_inv_cong:
  "run_inv pc s \<Longrightarrow> (\<And>d. on_proc (pc' d) = on_proc (pc d)) \<Longrightarrow> mild s t \<Longrightarrow> run_inv pc' t"
  by (auto simp: run_inv_def mild_def)

lemma table_inv_cong:
  "table_inv pc s \<Longrightarrow> (\<And>d. has_table (pc' d) = has_table (pc d)) \<Longrightarrow> locks t = locks s \<Longrightarrow> table_inv pc' t"
  by (simp add: table_inv_def)

lemma table_inv_take:
  assumes "table_inv pc s" and "acquire PtableLock s = Ok () t" and "has_table pc'"
  shows "table_inv (pc(cpuid s := pc')) t"
  using acquire_Ok_fields[OF assms(2)] assms(1,3) by (auto simp: table_inv_def)

lemma table_inv_drop:
  assumes "table_inv pc s" and "release PtableLock u = Ok () t" and "has_table (pc (cpuid s))"
    and "\<not> has_table pc'" and "locks u = locks s" and "cpuid u = cpuid s"
  shows "table_inv (pc(cpuid s := pc')) t"
proof -
  have "\<not> has_table (pc d)" if "d \<noteq> cpuid s" for d
    using assms(1,3) that unfolding table_inv_def by (metis option.inject)
  then show ?thesis
    using release_Ok_fields[OF assms(2)] assms(4-6) by (auto simp: table_inv_def)
qed

lemma mild_set_cpu: "kpres mild (set_cpu f)"
  by (simp add: kpres_def k_simps set_cpu_def mild_def)

lemma mild_returns: "kpres mild sched_return" "kpres mild yield_return" "kpres mild (sleep_return lk)"
  unfolding sched_return_def yield_return_def sleep_return_def with_cur_def get_proc_def
  by (intro mild.pres mild_locks mild_set_cpu mild_set_proc; simp)+

lemma sched_returnD: "sched_return s = Ok () t \<Longrightarrow> locks t = locks s \<and> cpuid t = cpuid s"
  by (auto simp: sched_return_def k_invert proc_ops set_cpu_def split: option.splits)

lemma yield_returnD:
  assumes "yield_return s = Ok () t"
  shows "\<exists>u. locks u = locks s \<and> cpuid u = cpuid s \<and> release PtableLock u = Ok () t"
  using assms by (auto simp: yield_return_def kseq_eq_Ok dest: sched_returnD)

lemma sleep_returnD:
  assumes "sleep_return lk s = Ok () t" and "lk \<noteq> PtableLock"
  shows "\<exists>u v. locks u = locks s \<and> cpuid u = cpuid s \<and> release PtableLock u = Ok () v \<and> same_table_lock v t"
proof -
  obtain r u v where "sched_return s = Ok () r" and u: "with_cur (\<lambda>p. set_proc p (\<lambda>q. q\<lparr>p_chan := None\<rparr>)) r = Ok () u"
    and v: "release PtableLock u = Ok () v" "acquire lk v = Ok () t"
    using assms by (auto simp: sleep_return_def kseq_eq_Ok kwhen_apply)
  moreover have "locks u = locks r" "cpuid u = cpuid r"
    using u by (auto simp: k_invert proc_ops split: option.splits)
  moreover have "same_table_lock v t"
    using tlock_locks(1)[OF assms(2)] v(2) by (rule kpresD)
  ultimately show ?thesis
    using sched_returnD[of s r] by metis
qed

lemma sched_inv_step:
  assumes "sched_step c y z" and run: "run_inv (ss_pc y) (ss_st y)" and tab: "table_inv (ss_pc y) (ss_st y)"
  shows "run_inv (ss_pc z) (ss_st z) \<and> table_inv (ss_pc z) (ss_st z)"
proof -
  let ?s = "on_cpu c (ss_st y)"
  have run': "run_inv (ss_pc y) ?s" and tab': "table_inv (ss_pc y) ?s"
    using run tab by simp_all
  have calm: "run_inv (ss_pc y) s \<and> table_inv (ss_pc y) s" if "mild ?s s" "same_table_lock ?s s" for s
    using that run' tab' by (blast intro: mild_inv same_table_lock_inv)
  have same: "(ss_pc y)(c := ss_pc y c) = ss_pc y" by simp
  show ?thesis
    using assms(1)
  proof (cases rule: sched_step.cases)
    case (begin_sweep k s)
    then obtain u where u: "acquire PtableLock u = Ok () s" "mild ?s u" "same_table_lock ?s u" "cpuid u = c"
      by (auto simp: sti_def set_cpu_def k_invert mild_def same_table_lock_def)
    have "run_inv ((ss_pc y)(c := Sweep 0 k)) s"
      using run' begin_sweep(2) u(1,2)
      by (intro run_inv_cong[OF run']) (auto intro: mild.frame_trans kpresD[OF mild_locks(1)])
    moreover have "table_inv ((ss_pc y)(c := Sweep 0 k)) s"
      using table_inv_take[OF same_table_lock_inv[OF u(3) tab'] u(1), of "Sweep 0 k"] by (simp add: u(4))
    ultimately show ?thesis by (simp add: begin_sweep(1) ss_put_def)
  next
    case (skip_proc i k s)
    then have "s = ?s" by (simp add: visit_OkD)
    moreover have "run_inv ((ss_pc y)(c := Sweep (Suc i) (Suc k))) ?s"
      using skip_proc(2) by (intro run_inv_cong[OF run']) (simp_all add: mild.frame_refl)
    moreover have "table_inv ((ss_pc y)(c := Sweep (Suc i) (Suc k))) ?s"
      using skip_proc(2) by (intro table_inv_cong[OF tab']) simp_all
    ultimately show ?thesis
      by (simp add: skip_proc(1) ss_put_def)
  next
    case (run_proc i k s)
    note v = visit_SwitchD[OF run_proc(4)]
    have "run_inv ((ss_pc y)(c := Enter i)) s"
      using run' run_proc(2,3) v by (intro run_inv_dispatch) auto
    moreover have "table_inv ((ss_pc y)(c := Enter i)) s"
      using run_proc(2) v by (intro table_inv_cong[OF tab']) simp_all
    ultimately show ?thesis by (simp add: run_proc(1) ss_put_def)
  next
    case (end_sweep k s)
    show ?thesis
      using run_inv_cong[OF run', of _ s] kpresD[OF mild_locks(2) end_sweep(3)] end_sweep(2)
        table_inv_drop[OF tab' end_sweep(3)]
      by (simp add: end_sweep(1) ss_put_def)
  next
    case (first_run p s)
    show ?thesis
      using run_inv_cong[OF run', of _ s] kpresD[OF mild_locks(2) first_run(3)] first_run(2)
        table_inv_drop[OF tab' first_run(3)]
      by (simp add: first_run(1) ss_put_def)
  next
    case (resume_yield p s)
    show ?thesis
      using run_inv_cong[OF run', of _ s] kpresD[OF mild_returns(2) resume_yield(3)] resume_yield(2)
        table_inv_drop[OF tab'] yield_returnD[OF resume_yield(3)]
      by (auto simp: resume_yield(1) ss_put_def)
  next
    case (resume_sleep p lk s)
    show ?thesis
      using run_inv_cong[OF run', of _ s] kpresD[OF mild_returns(3) resume_sleep(4)] resume_sleep(2)
        table_inv_drop[OF tab'] sleep_returnD[OF resume_sleep(4,3)]
      by (auto simp: resume_sleep(1) ss_put_def intro: same_table_lock_inv)
  next
    case (do_yield p s s')
    then have "left p ?s s"
      using run by (intro yield_left) (auto simp: run_inv_def)
    then show ?thesis
      using left_inv[OF _ _ run' tab' do_yield(4)] do_yield(1,2) by (simp add: ss_put_def)
  next
    case (do_sleep p lk ch s s')
    then have "left p ?s s"
      using run by (intro sleep_left) (auto simp: run_inv_def)
    then show ?thesis
      using left_inv[OF _ _ run' tab' do_sleep(5)] do_sleep(1,2) by (simp add: ss_put_def)
  next
    case (do_exit p s s')
    then have "left p ?s s"
      using run by (intro exit_left) (auto simp: run_inv_def)
    then show ?thesis
      using left_inv[OF _ _ run' tab' do_exit(4)] do_exit(1,2) by (simp add: ss_put_def)
  next
    case (do_wakeup ch s)
    then show ?thesis
      using calm[of s] kpresD[OF mild_wakeup do_wakeup(2)] tlock_wakeup[OF do_wakeup(2)]
      by (simp add: ss_put_def)
  next
    case (do_kill n r s)
    then show ?thesis
      using calm[of s] kpresD[OF mild_kill do_kill(3)] tlock_kill[OF do_kill(3)] by (simp add: ss_put_def)
  next
    case (do_alloc r s)
    then show ?thesis
      using calm[of s] kpresD[OF mild_allocproc do_alloc(3)] tlock_allocproc[OF do_alloc(3)]
      by (simp add: ss_put_def)
  next
    case (do_ready np s)
    then have "mild ?s s" and "same_table_lock ?s s"
      by (auto simp: set_proc_def k_prims mild_def same_table_lock_def split: if_splits)
    then show ?thesis
      using calm[of s] do_ready by (simp add: ss_put_def)
  next
    case (do_reap i s)
    have "mild ?s s"
      using do_reap(3,4)
      by (auto simp: with_lock_def reap_def set_proc_def k_invert mild_def split: if_splits
          dest!: acquire_Ok_fields release_Ok_fields)
    moreover have "same_table_lock ?s s"
      using do_reap(4)
      by (auto simp: with_lock_def k_invert same_table_lock_def dest!: acquire_Ok_fields release_Ok_fields)
    ultimately show ?thesis
      using calm[of s] do_reap by (simp add: ss_put_def)
  qed
qed

lemma sched_reach_inv: "sched_reach y \<Longrightarrow> run_inv (ss_pc y) (ss_st y) \<and> table_inv (ss_pc y) (ss_st y)"
proof (induction rule: sched_reach.induct)
  case (reach_start y)
  then show ?case by (auto simp: sched_start_def run_inv_def table_inv_def)
next
  case (reach_step y c z)
  then show ?case
    using sched_inv_step[OF reach_step(2)] by simp
qed

section \<open>One round of the scheduler\<close>

text \<open>
  \<open>turn i\<close> stands for whatever happens, on this CPU and others, between the \<open>swtch\<close> into
  process \<open>i\<close> and the \<open>swtch\<close> back. The round's result is the list of the processes run.
\<close>

primrec sched_round :: "(nat \<Rightarrow> 'x proc_state_scheme \<Rightarrow> 'x proc_state_scheme) \<Rightarrow> nat list \<Rightarrow>
    'x proc_state_scheme \<Rightarrow> nat list option" where
  "sched_round turn [] s = Some []"
| "sched_round turn (i # is) s =
     (case scheduler_visit i s of
        Ok _ t \<Rightarrow> sched_round turn is t
      | Switch t \<Rightarrow>
          (case scheduler_back (turn i t) of
             Ok _ u \<Rightarrow> map_option (Cons i) (sched_round turn is u)
           | _ \<Rightarrow> None)
      | Fail _ \<Rightarrow> None)"

text \<open>The scheduler's own state while it holds the table lock, and that processes have page tables.\<close>

definition sched_ready :: "'x proc_state_scheme \<Rightarrow> bool" where
  "sched_ready s \<longleftrightarrow> \<not> if_flag (cpus s (cpuid s)) \<and> 1 \<le> ncli (cpus s (cpuid s)) \<and>
     (\<forall>p<NPROC. p_state (ptable s p) = RUNNABLE \<longrightarrow> p_pgdir (ptable s p) \<noteq> 0)"

lemma switchuvm_ready:
  assumes "\<not> if_flag (cpus s (cpuid s))" and "1 \<le> ncli (cpus s (cpuid s))" and "p_pgdir (ptable s p) \<noteq> 0"
  shows "switchuvm p s = Ok () (s\<lparr>tss_rsp0 := (tss_rsp0 s)(cpuid s := p_kstack (ptable s p) + KSTACKSIZE),
    cr3 := (cr3 s)(cpuid s := V2P (p_pgdir (ptable s p)))\<rparr>)"
proof -
  have "(pushed (cpus s (cpuid s)))\<lparr>ncli := ncli (cpus s (cpuid s))\<rparr> = cpus s (cpuid s)"
    using assms(1,2) by (simp add: pushed_def)
  then show ?thesis
    using assms
    by (simp add: switchuvm_def pushcli_eq popcli_def set_cpu_def k_simps proc_ops pushed_def fun_upd_idem)
qed

definition dispatched :: "nat \<Rightarrow> 'x proc_state_scheme \<Rightarrow> 'x proc_state_scheme" where
  "dispatched i s = s\<lparr>ptable := (ptable s)(i := (ptable s i)\<lparr>p_state := RUNNING\<rparr>),
     cpu_proc := (cpu_proc s)(cpuid s := Some i),
     cr3 := (cr3 s)(cpuid s := V2P (p_pgdir (ptable s i))),
     tss_rsp0 := (tss_rsp0 s)(cpuid s := p_kstack (ptable s i) + KSTACKSIZE)\<rparr>"

lemma visit_runs:
  assumes "sched_ready s" and "i < NPROC" and "p_state (ptable s i) = RUNNABLE"
  shows "scheduler_visit i s = Switch (dispatched i s)"
  using assms switchuvm_ready[of "s\<lparr>cpu_proc := (cpu_proc s)(cpuid s := Some i)\<rparr>" i]
  by (simp add: scheduler_visit_def k_simps proc_ops sched_ready_def dispatched_def)

lemma visit_skips: "p_state (ptable s i) \<noteq> RUNNABLE \<Longrightarrow> scheduler_visit i s = Ok () s"
  by (simp add: scheduler_visit_def k_simps proc_ops)

lemma sched_back_ready:
  "sched_ready t \<Longrightarrow> \<exists>u. scheduler_back t = Ok () u \<and> sched_ready u \<and> ptable u = ptable t"
  by (simp add: scheduler_back_def switchkvm_def k_simps sched_ready_def)

lemma sched_round_fair:
  assumes turn: "\<And>i t. i < NPROC \<Longrightarrow> sched_ready t \<Longrightarrow> p_state (ptable t i) = RUNNABLE \<Longrightarrow>
      sched_ready (turn i (dispatched i t))"
    and keep: "\<And>i t. i \<noteq> q \<Longrightarrow> p_state (ptable t q) = RUNNABLE \<Longrightarrow> p_state (ptable (turn i t) q) = RUNNABLE"
    and "sched_ready s" and "distinct is" and "set is \<subseteq> {..<NPROC}"
  shows "\<exists>tr. sched_round turn is s = Some tr \<and> subseq tr is \<and>
    (q \<in> set is \<and> p_state (ptable s q) = RUNNABLE \<longrightarrow> q \<in> set tr)"
  using assms(3-5)
proof (induction "is" arbitrary: s)
  case Nil
  then show ?case by simp
next
  case (Cons i "is")
  show ?case
  proof (cases "p_state (ptable s i) = RUNNABLE")
    case False
    then show ?thesis
      using Cons.IH[OF Cons.prems(1)] Cons.prems by (auto simp: visit_skips)
  next
    case True
    let ?t = "turn i (dispatched i s)"
    have i: "i < NPROC" using Cons.prems(3) by simp
    obtain u where u: "scheduler_back ?t = Ok () u" "sched_ready u" "ptable u = ptable ?t"
      using sched_back_ready[OF turn[OF i Cons.prems(1) True]] by blast
    have q: "p_state (ptable u q) = RUNNABLE" if "i \<noteq> q" "p_state (ptable s q) = RUNNABLE"
      using keep[OF that(1), of "dispatched i s"] that by (simp add: u(3) dispatched_def)
    show ?thesis
      using Cons.IH[OF u(2)] Cons.prems q by (auto simp: visit_runs[OF Cons.prems(1) i True] u(1))
  qed
qed

section \<open>Process identifiers\<close>

text \<open>Every process in the table has its own pid, below the next one to be given out.\<close>

definition pids_ok :: "'x proc_state_scheme \<Rightarrow> bool" where
  "pids_ok s \<longleftrightarrow> 0 < nextpid s \<and>
     (\<forall>p<NPROC. p_state (ptable s p) \<noteq> UNUSED \<longrightarrow> 0 < p_pid (ptable s p) \<and> p_pid (ptable s p) < nextpid s) \<and>
     (\<forall>p<NPROC. \<forall>q<NPROC. p_state (ptable s p) \<noteq> UNUSED \<longrightarrow> p_state (ptable s q) \<noteq> UNUSED \<longrightarrow>
        p_pid (ptable s p) = p_pid (ptable s q) \<longrightarrow> p = q)"

lemma pids_ok_cong:
  "pids_ok s \<Longrightarrow> nextpid t = nextpid s \<Longrightarrow> (\<And>i. p_state (ptable t i) = p_state (ptable s i)) \<Longrightarrow>
   (\<And>i. p_pid (ptable t i) = p_pid (ptable s i)) \<Longrightarrow> pids_ok t"
  by (simp add: pids_ok_def)

lemma alloc_slot_pids:
  assumes "alloc_slot s = Ok r t" and "pids_ok s" and "nextpid s + 1 \<noteq> 0"
  shows "pids_ok t"
proof (cases r)
  case None
  then show ?thesis
    using alloc_slot_OkD[OF assms(1)] assms(2) by (simp add: pids_ok_def)
next
  case (Some p)
  note d = alloc_slot_OkD[OF assms(1), unfolded Some option.case]
  have "unat (nextpid s + 1) = Suc (unat (nextpid s))"
    using assms(3) unatSuc[of "nextpid s"] by (simp add: add.commute)
  then have less: "x < nextpid s \<Longrightarrow> x < nextpid s + 1" and self: "nextpid s < nextpid s + 1" for x
    by (simp_all add: word_less_nat_alt)
  have "0 < nextpid s + 1"
    using assms(2) self by (auto simp: pids_ok_def)
  moreover have "p_pid (ptable s q) \<noteq> nextpid s" if "q < NPROC" "p_state (ptable s q) \<noteq> UNUSED" for q
    using assms(2) that by (auto simp: pids_ok_def)
  ultimately show ?thesis
    using assms(2) d less self unfolding pids_ok_def by (auto simp: split: if_splits)
qed

lemma alloc_slot_eq:
  assumes "irq_ok s" and "lock_free PtableLock s"
  shows "alloc_slot s = (case find (\<lambda>i. p_state (ptable s i) = UNUSED) [0..<NPROC] of
      None \<Rightarrow> Ok None s
    | Some p \<Rightarrow> Ok (Some p) (s\<lparr>ptable := (ptable s)(p := (ptable s p)\<lparr>p_state := EMBRYO, p_pid := nextpid s\<rparr>),
        nextpid := nextpid s + 1\<rparr>))"
proof -
  let ?u = "taken PtableLock s"
  have sel: "ptable ?u = ptable s" "nextpid ?u = nextpid s"
    by (simp_all add: taken_def)
  have rel: "release PtableLock t = Ok () (restore_locks s t)"
    if "cpuid t = cpuid ?u" "cpus t = cpus ?u" "locks t = locks ?u" for t
    using assms that by (intro release_taken) (simp_all add: same_locks_def)
  show ?thesis
    by (simp add: alloc_slot_def k_simps acquire_free[OF assms(2)] sel set_proc_def rel split: option.split)
      (simp add: restore_locks_def taken_def)
qed

text \<open>The kernel stack \<open>allocproc\<close> prepares: trap frame, return address, context.\<close>

definition kstack_ready :: "addr_t \<Rightarrow> 'x proc_state_scheme \<Rightarrow> bool" where
  "kstack_ready ks s \<longleftrightarrow>
     load64 (mem s) (ks + 3912) = code_addr s ''syscall_trapret'' \<and>
     load64 (mem s) (ks + 3904) = code_addr s ''forkret'' \<and>
     (\<forall>i<6. load64 (mem s) (ks + 3856 + 8 * of_nat i) = 0)"

definition stack_mem :: "memory \<Rightarrow> addr_t \<Rightarrow> addr_t \<Rightarrow> addr_t \<Rightarrow> memory" where
  "stack_mem m ks ret entry =
     store64 (store_bytes (store64 m (ks + of_nat 3912) ret) (ks + of_nat 3856) (replicate 56 0))
       (ks + of_nat 3904) entry"

lemma alloc_stack_eq:
  assumes "kmem_ready s" and "freelist s = ks" and "ks \<noteq> 0"
  shows "alloc_stack p s = Ok (Some p) (s\<lparr>freelist := load64 (mem s) ks,
     ptable := (ptable s)(p := (ptable s p)\<lparr>p_kstack := ks, p_tf := ks + 3920, p_context := ks + 3856\<rparr>),
     mem := stack_mem (mem s) ks (code_addr s ''syscall_trapret'') (code_addr s ''forkret'')\<rparr>)"
proof -
  have "memset m a 0 56 = store_bytes m a (replicate 56 0)" for m a
    using memset_fills[of 56 m a 0] by simp
  then show ?thesis
    using assms
    by (simp add: alloc_stack_def k_simps kalloc_eq set_proc_def Let_def KSTACKSIZE_def sizeof_trapframe_def
        sizeof_context_def context_rip_def stack_mem_def ac_simps)
qed

lemma only_page_stack: "only_page ks m (stack_mem m ks ret entry)"
  unfolding stack_mem_def
  by (intro only_page_trans[OF only_page_trans[OF only_page_store64 only_page_store_bytes] only_page_store64]) simp_all

lemma stack_mem_words:
  "load64 (stack_mem m ks ret entry) (ks + 3912) = ret"
  "load64 (stack_mem m ks ret entry) (ks + 3904) = entry"
  "i < 6 \<Longrightarrow> load64 (stack_mem m ks ret entry) (ks + 3856 + 8 * of_nat i) = 0"
proof -
  let ?m = "store64 m (ks + of_nat 3912) ret"
  let ?z = "store_bytes ?m (ks + of_nat 3856) (replicate 56 0)"
  have "load64 (stack_mem m ks ret entry) (ks + of_nat 3912) = load64 ?z (ks + of_nat 3912)"
    unfolding stack_mem_def by (rule page_load64_other) simp_all
  also have "\<dots> = load64 ?m (ks + of_nat 3912)"
    by (rule page_load_other) simp_all
  finally show "load64 (stack_mem m ks ret entry) (ks + 3912) = ret"
    by simp
  show "load64 (stack_mem m ks ret entry) (ks + 3904) = entry"
    by (simp add: stack_mem_def)
  assume i: "i < 6"
  then have "load64 (stack_mem m ks ret entry) (ks + of_nat (3856 + 8 * i)) = load64 ?z (ks + of_nat (3856 + 8 * i))"
    unfolding stack_mem_def by (intro page_load64_other) simp_all
  also have "\<dots> = load64 ?z (ks + of_nat 3856 + of_nat (8 * i))"
    by (simp add: add.assoc)
  also have "\<dots> = 0"
    using i load_store_bytes_chunk[of "8 * i" 8 "replicate 56 0" ?m "ks + of_nat 3856"]
    by (simp add: load64_def chunk_def del: of_nat_numeral of_nat_mult)
  finally show "load64 (stack_mem m ks ret entry) (ks + 3856 + 8 * of_nat i) = 0"
    by (simp add: add.assoc)
qed

section \<open>Properties\<close>


definition unused_proc :: proc where
  "unused_proc = \<lparr>p_sz = 0, p_pgdir = 0, p_kstack = 0, p_state = UNUSED, p_pid = 0, p_parent = None, p_tf = 0,
     p_context = 0, p_chan = None, p_killed = False, p_ofile = (\<lambda>_. None), p_cwd = None,
     p_name = replicate 16 0, p_stk_intena = False\<rparr>"

definition boot_procs :: proc_state where
  "boot_procs = kmem_state.extend boot_kmem \<lparr>ptable = (\<lambda>_. unused_proc)(0 := unused_proc\<lparr>p_state := RUNNABLE,
       p_pid := 1, p_pgdir := 0xFFFF800000300000, p_kstack := 0xFFFF800000301000\<rparr>),
     initproc = Some 0, nextpid = 2, cpu_proc = (\<lambda>_. None), cr3 = (\<lambda>_. 0), tss_rsp0 = (\<lambda>_. 0), kpml4 = 0, kpdpt = 0,
     code_addr = (\<lambda>_. 0), \<dots> = ()\<rparr>"

lemmas boot_procs_simps = boot_procs_def kmem_state.defs boot_kmem_def boot_cpu_def boot_lock_def unused_proc_def




text \<open>
  Claim C29. \<open>allocproc\<close> takes the first unused slot, gives it a pid no other process has, and
  prepares its kernel stack on a free page so that the first switch to it starts in
  \<open>forkret\<close> and returns to \<open>syscall_trapret\<close>; the free list loses just that page. With
  no unused slot it returns 0 and changes nothing.
\<close>

theorem allocproc_new:
  assumes "irq_ok s" and "lock_free PtableLock s" and "lock_free KmemLock s"
    and "kmem_inv (ks # xs) s" and "pids_ok s" and "nextpid s + 1 \<noteq> 0"
  shows "((\<forall>i<NPROC. p_state (ptable s i) \<noteq> UNUSED) \<longrightarrow> allocproc s = Ok None s) \<and>
    (\<forall>p<NPROC. p_state (ptable s p) = UNUSED \<and> (\<forall>i<p. p_state (ptable s i) \<noteq> UNUSED) \<longrightarrow>
      (\<exists>t. allocproc s = Ok (Some p) t \<and> p_state (ptable t p) = EMBRYO \<and> p_pid (ptable t p) = nextpid s \<and>
        pids_ok t \<and> (\<forall>i. i \<noteq> p \<longrightarrow> ptable t i = ptable s i) \<and> p_kstack (ptable t p) = ks \<and> 
        p_context (ptable t p) = ks + 3856 \<and> kstack_ready ks t \<and> kmem_inv xs t))"
proof (intro conjI allI impI)
  assume "\<forall>i<NPROC. p_state (ptable s i) \<noteq> UNUSED"
  then have "find (\<lambda>i. p_state (ptable s i) = UNUSED) [0..<NPROC] = None"
    by (simp add: find_upt_None)
  then show "allocproc s = Ok None s"
    by (simp add: allocproc_def k_simps alloc_slot_eq[OF assms(1,2)])
next
  fix p
  assume "p < NPROC" and p: "p_state (ptable s p) = UNUSED \<and> (\<forall>i<p. p_state (ptable s i) \<noteq> UNUSED)"
  then have find: "find (\<lambda>i. p_state (ptable s i) = UNUSED) [0..<NPROC] = Some p"
    by (simp add: find_upt_Some)
  let ?u = "s\<lparr>ptable := (ptable s)(p := (ptable s p)\<lparr>p_state := EMBRYO, p_pid := nextpid s\<rparr>), nextpid := nextpid s + 1\<rparr>"
  have slot: "alloc_slot s = Ok (Some p) ?u"
    by (simp add: alloc_slot_eq[OF assms(1,2)] find)
  have ks: "freelist s = ks" "ks \<noteq> 0" "unat ks mod 4096 = 0" "ks \<notin> set xs"
    using assms(4) by (auto simp: kmem_inv_def kfree_ok_aligned)
  have "kmem_ready ?u"
    using assms(1,3) by (simp add: kmem_ready_def irq_ok_def lock_free_def)
  note stack = alloc_stack_eq[OF this, of ks p]
  let ?m = "stack_mem (mem s) ks (code_addr s ''syscall_trapret'') (code_addr s ''forkret'')"
  let ?t = "?u\<lparr>freelist := load64 (mem s) ks, ptable := (ptable ?u)(p := (ptable ?u p)\<lparr>p_kstack := ks,
    p_tf := ks + 3920, p_context := ks + 3856\<rparr>), mem := ?m\<rparr>"
  have t: "allocproc s = Ok (Some p) ?t"
    using stack ks(1,2) by (simp add: allocproc_def k_simps slot)
  have "flist ?m (load64 (mem s) ks) xs = flist (mem s) (load64 (mem s) ks) xs"
    using assms(4) ks(3,4) by (intro only_page_flist[OF only_page_stack]) (auto simp: kmem_inv_def kfree_ok_aligned)
  then have inv: "kmem_inv xs ?t"
    using assms(4) by (auto simp: kmem_inv_def kfree_ok_def)
  have pids: "pids_ok ?t"
    by (rule pids_ok_cong[OF alloc_slot_pids[OF slot assms(5,6)]]) simp_all
  have words: "kstack_ready ks ?t"
    by (simp add: kstack_ready_def stack_mem_words)
  show "\<exists>t. allocproc s = Ok (Some p) t \<and> p_state (ptable t p) = EMBRYO \<and> p_pid (ptable t p) = nextpid s \<and>
        pids_ok t \<and> (\<forall>i. i \<noteq> p \<longrightarrow> ptable t i = ptable s i) \<and> p_kstack (ptable t p) = ks \<and> 
        p_context (ptable t p) = ks + 3856 \<and> kstack_ready ks t \<and> kmem_inv xs t"
    by (rule exI[of _ ?t]) (intro conjI t pids words inv; simp)
qed

theorem allocproc_new_witness:
  "\<exists>t. allocproc (boot_procs\<lparr>freelist := 0xFFFF800000400000\<rparr>) = Ok (Some 1) t \<and> p_pid (ptable t 1) = 2 \<and>
     kstack_ready 0xFFFF800000400000 t \<and> kmem_inv [] t"
proof -
  let ?s = "boot_procs\<lparr>freelist := 0xFFFF800000400000\<rparr>"
  have "load64 (\<lambda>_. 0) a = 0" for a
    using le_get_zeros[of 8] by (simp add: load64_def load_bytes_def map_replicate_const)
  then have "kmem_inv [0xFFFF800000400000] ?s"
    by (simp add: kmem_inv_def boot_procs_simps kfree_ok_def V2P_def KERNBASE_def PHYSTOP_def PGSIZE_def)
  moreover have "irq_ok ?s" "lock_free PtableLock ?s" "lock_free KmemLock ?s"
    by (simp_all add: irq_ok_def lock_free_def boot_procs_simps)
  moreover have "pids_ok ?s" "nextpid ?s + 1 \<noteq> 0"
    by (simp_all add: pids_ok_def boot_procs_simps)
  moreover have "p_state (ptable ?s 1) = UNUSED \<and> (\<forall>i<1. p_state (ptable ?s i) \<noteq> UNUSED)"
    by (simp add: boot_procs_simps)
  moreover have "nextpid ?s = 2" "1 < NPROC"
    by (simp_all add: boot_procs_simps NPROC_def)
  ultimately show ?thesis
    using allocproc_new[of ?s "0xFFFF800000400000" "[]"] by metis
qed



end
