(* ===== verification/Sleeplock.thy ===== *)
theory Sleeplock
  imports Proctab
begin

text \<open>
  \<^verbatim>\<open>sleeplock.c\<close>: long-term locks. A process that finds the lock taken sleeps on it, so
  \<open>acquiresleep\<close> may end in a switch; it goes on, once woken, with \<open>acquiresleep_loop\<close>.
\<close>

section \<open>State and operations\<close>

record sleeplock =
  sl_locked :: uint
  sl_name :: string
  sl_pid :: "32 word"

record sleep_state = proc_state +
  slocks :: "slockid \<Rightarrow> sleeplock"

text \<open>The spin lock inside a sleep lock.\<close>

fun lk_of :: "slockid \<Rightarrow> lockid" where
  "lk_of (BufSleep i) = BufLock i"
| "lk_of (InodeSleep i) = InodeLock i"

definition set_slock :: "slockid \<Rightarrow> (sleeplock \<Rightarrow> sleeplock) \<Rightarrow> ('x sleep_state_scheme, unit) km" where
  "set_slock sl f = kmod (\<lambda>s. s\<lparr>slocks := (slocks s)(sl := f (slocks s sl))\<rparr>)"

definition initsleeplock :: "slockid \<Rightarrow> string \<Rightarrow> ('x sleep_state_scheme, unit) km" where
  "initsleeplock sl nm =
     kseq (initlock (lk_of sl) ''sleep lock'')
          (set_slock sl (\<lambda>l. l\<lparr>sl_name := nm, sl_locked := 0, sl_pid := 0\<rparr>))"

definition acquiresleep_loop :: "slockid \<Rightarrow> ('x sleep_state_scheme, unit) km" where
  "acquiresleep_loop sl =
     kbind (kget (\<lambda>s. sl_locked (slocks s sl))) (\<lambda>l.
     if l \<noteq> 0 then sleep (SleepChan sl) (Some (lk_of sl))
     else kseq (set_slock sl (\<lambda>l. l\<lparr>sl_locked := 1\<rparr>))
       (with_cur (\<lambda>p. kbind (get_proc p_pid p) (\<lambda>n.
          kseq (set_slock sl (\<lambda>l. l\<lparr>sl_pid := n\<rparr>)) (release (lk_of sl))))))"

definition acquiresleep :: "slockid \<Rightarrow> ('x sleep_state_scheme, unit) km" where
  "acquiresleep sl = kseq (acquire (lk_of sl)) (acquiresleep_loop sl)"

definition acquiresleep_return :: "slockid \<Rightarrow> ('x sleep_state_scheme, unit) km" where
  "acquiresleep_return sl = kseq (sleep_return (lk_of sl)) (acquiresleep_loop sl)"

definition releasesleep :: "slockid \<Rightarrow> ('x sleep_state_scheme, unit) km" where
  "releasesleep sl =
     kseq (acquire (lk_of sl))
     (kseq (set_slock sl (\<lambda>l. l\<lparr>sl_locked := 0\<rparr>))
     (kseq (set_slock sl (\<lambda>l. l\<lparr>sl_pid := 0\<rparr>))
     (kseq (wakeup (SleepChan sl))
           (release (lk_of sl)))))"

definition holdingsleep :: "slockid \<Rightarrow> ('x sleep_state_scheme, bool) km" where
  "holdingsleep sl = with_lock (lk_of sl) (kget (\<lambda>s. sl_locked (slocks s sl) \<noteq> 0))"

section \<open>Sleep locks as locks\<close>

definition sl_taken :: "slockid \<Rightarrow> 'x sleep_state_scheme \<Rightarrow> 'x sleep_state_scheme" where
  "sl_taken sl s = s\<lparr>slocks := (slocks s)(sl := (slocks s sl)\<lparr>sl_locked := 1,
     sl_pid := p_pid (ptable s (the (myproc s)))\<rparr>)\<rparr>"

definition sl_freed :: "slockid \<Rightarrow> 'x sleep_state_scheme \<Rightarrow> 'x sleep_state_scheme" where
  "sl_freed sl s = wake_all (Some (SleepChan sl))
     (s\<lparr>slocks := (slocks s)(sl := (slocks s sl)\<lparr>sl_locked := 0, sl_pid := 0\<rparr>)\<rparr>)"

lemma lk_of_not_table [simp]: "lk_of sl \<noteq> PtableLock" "PtableLock \<noteq> lk_of sl"
  by (cases sl; simp)+

lemma acquiresleep_free:
  assumes "quiet s" and "sl_locked (slocks s sl) = 0" and "myproc s = Some p"
  shows "acquiresleep sl s = Ok () (sl_taken sl s)"
proof -
  let ?u = "taken (lk_of sl) s"
  let ?v = "?u\<lparr>slocks := (slocks s)(sl := (slocks s sl)\<lparr>sl_locked := 1, sl_pid := p_pid (ptable s p)\<rparr>)\<rparr>"
  have free: "irq_ok s" "lock_free (lk_of sl) s"
    using assms(1) by (simp_all add: quiet_def)
  have "release (lk_of sl) ?v = Ok () (restore_locks s ?v)"
    using free by (rule release_taken) (simp add: same_locks_def)
  moreover have "cpu_proc s (cpuid s) = Some p"
    using assms(3) by (simp add: myproc_def)
  ultimately show ?thesis
    using assms(2) free
    by (simp add: acquiresleep_def acquiresleep_loop_def k_simps acquire_free set_slock_def proc_ops
        sl_taken_def taken_def restore_locks_def)
qed

lemma releasesleep_quiet:
  assumes "quiet s"
  shows "releasesleep sl s = Ok () (sl_freed sl s)"
proof -
  let ?u = "(taken (lk_of sl) s)\<lparr>slocks := (slocks s)(sl := (slocks s sl)\<lparr>sl_locked := 0, sl_pid := 0\<rparr>)\<rparr>"
  have free: "irq_ok s" "lock_free (lk_of sl) s" "lock_free PtableLock s"
    using assms by (simp_all add: quiet_def)
  have "same_locks ?u (taken (lk_of sl) s)"
    by (simp add: same_locks_def)
  note same = same_locks_cong[OF this]
  have u: "irq_ok ?u" "lock_free PtableLock ?u"
    using irq_ok_taken[OF free(1), of "lk_of sl"] free(3) lock_free_taken[of PtableLock "lk_of sl" s]
    unfolding same by simp_all
  have "release (lk_of sl) (wake_all (Some (SleepChan sl)) ?u) = Ok () (restore_locks s (wake_all (Some (SleepChan sl)) ?u))"
    using free(1,2) by (rule release_taken) (simp add: same_locks_def)
  then show ?thesis
    using free wakeup_eq[OF u, of "SleepChan sl"]
    by (simp add: releasesleep_def k_simps acquire_free set_slock_def)
      (simp add: taken_def restore_locks_def wake_all_def sl_freed_def cong: if_cong)
qed

lemma holdingsleep_quiet: "quiet s \<Longrightarrow> holdingsleep sl s = Ok (sl_locked (slocks s sl) \<noteq> 0) s"
  unfolding holdingsleep_def
  by (subst with_lock_Ok)
    (auto simp: quiet_def k_prims same_locks_def restore_locks_def, simp_all add: taken_def)

text \<open>Sleep locks meet the lock contract of \<^verbatim>\<open>Spinlock\<close>.\<close>

definition sl_avail :: "slockid \<Rightarrow> 'x sleep_state_scheme \<Rightarrow> bool" where
  "sl_avail sl s \<longleftrightarrow> quiet s \<and> sl_locked (slocks s sl) = 0 \<and> myproc s \<noteq> None"

interpretation sleep_mutex: mutex "acquiresleep sl" "releasesleep sl" "sl_avail sl" "sl_taken sl"
  same_locks "\<lambda>s. sl_freed sl" for sl
proof unfold_locales
  fix s t :: "'x sleep_state_scheme"
  show "sl_avail sl s \<Longrightarrow> acquiresleep sl s = Ok () (sl_taken sl s)"
    by (auto simp: sl_avail_def acquiresleep_free)
  assume "sl_avail sl s" and "same_locks t (sl_taken sl s)"
  then have "quiet t"
    by (auto simp: sl_avail_def sl_taken_def same_locks_def intro: quiet_cong[of s])
  then show "releasesleep sl t = Ok () (sl_freed sl t)"
    by (rule releasesleep_quiet)
qed

section \<open>Processes competing for a sleep lock\<close>

text \<open>
  The critical sections on \<open>lk->lk\<close> are single steps: \<open>sleep\<close> takes the table lock before it
  gives up \<open>lk->lk\<close>. \<open>others\<close> is anything else in the system: it leaves this lock alone
  and puts no process to sleep on it.
\<close>

definition asleep_on :: "slockid \<Rightarrow> 'x sleep_state_scheme \<Rightarrow> nat \<Rightarrow> bool" where
  "asleep_on sl s p \<longleftrightarrow> p < NPROC \<and> p_state (ptable s p) = SLEEPING \<and> p_chan (ptable s p) = Some (SleepChan sl)"

record sl_sys =
  sl_st :: sleep_state
  sl_holders :: "nat set"

inductive sl_step :: "slockid \<Rightarrow> sl_sys \<Rightarrow> sl_sys \<Rightarrow> bool" for sl y where
  take: "myproc (sl_st y) = Some p \<Longrightarrow> acquiresleep sl (sl_st y) = Ok () s \<Longrightarrow>
     sl_step sl y (y\<lparr>sl_st := s, sl_holders := insert p (sl_holders y)\<rparr>)"
| block: "acquiresleep sl (sl_st y) = Switch s \<Longrightarrow> sl_step sl y (y\<lparr>sl_st := s\<rparr>)"
| retake: "myproc (sl_st y) = Some p \<Longrightarrow> acquiresleep_return sl (sl_st y) = Ok () s \<Longrightarrow>
     sl_step sl y (y\<lparr>sl_st := s, sl_holders := insert p (sl_holders y)\<rparr>)"
| reblock: "acquiresleep_return sl (sl_st y) = Switch s \<Longrightarrow> sl_step sl y (y\<lparr>sl_st := s\<rparr>)"
| give: "myproc (sl_st y) = Some p \<Longrightarrow> p \<in> sl_holders y \<Longrightarrow> releasesleep sl (sl_st y) = Ok () s \<Longrightarrow>
     sl_step sl y (y\<lparr>sl_st := s, sl_holders := sl_holders y - {p}\<rparr>)"
| others: "slocks s sl = slocks (sl_st y) sl \<Longrightarrow> (\<And>p. asleep_on sl s p \<Longrightarrow> asleep_on sl (sl_st y) p) \<Longrightarrow>
     sl_step sl y (y\<lparr>sl_st := s\<rparr>)"

inductive sl_reach :: "slockid \<Rightarrow> sl_sys \<Rightarrow> bool" for sl where
  sl_start: "sl_locked (slocks s sl) = 0 \<Longrightarrow> (\<And>p. \<not> asleep_on sl s p) \<Longrightarrow>
     sl_reach sl \<lparr>sl_st = s, sl_holders = {}\<rparr>"
| sl_next: "sl_reach sl y \<Longrightarrow> sl_step sl y z \<Longrightarrow> sl_reach sl z"

definition sl_inv :: "slockid \<Rightarrow> sl_sys \<Rightarrow> bool" where
  "sl_inv sl y \<longleftrightarrow>
     (if sl_locked (slocks (sl_st y) sl) = 0 then sl_holders y = {} \<and> (\<forall>p. \<not> asleep_on sl (sl_st y) p)
      else \<exists>p. sl_holders y = {p})"

lemma acquire_slocks: "acquire lk (s :: 'x sleep_state_scheme) = Ok x t \<Longrightarrow> slocks t = slocks s \<and> ptable t = ptable s \<and> myproc t = myproc s"
  by (auto dest!: acquire_OkD simp: taken_def myproc_def)

lemma release_slocks: "release lk (s :: 'x sleep_state_scheme) = Ok x t \<Longrightarrow> slocks t = slocks s \<and> ptable t = ptable s \<and> myproc t = myproc s"
  by (auto dest!: release_OkD simp: myproc_def)

lemma loop_OkD:
  assumes "acquiresleep_loop sl s = Ok () t"
  shows "sl_locked (slocks s sl) = 0 \<and> sl_locked (slocks t sl) = 1"
proof -
  have "sleep ch lk s \<noteq> Ok () t" for ch lk
    by (auto simp: sleep_def sched_def k_invert proc_ops split: option.splits if_splits)
  then show ?thesis
    using assms
    by (auto simp: acquiresleep_loop_def k_invert set_slock_def proc_ops dest!: release_slocks
        split: if_splits option.splits)
qed

lemma loop_SwitchD:
  assumes "acquiresleep_loop sl s = Switch t"
  shows "sl_locked (slocks s sl) \<noteq> 0 \<and> slocks t = slocks s"
proof -
  have "slocks v = slocks u" if "sleep ch lk u = (Switch v :: (unit, 'a sleep_state_scheme) outcome)" for u v ch lk
    using that
    by (auto simp: sleep_def k_invert proc_ops acquire_no_Switch release_no_Switch
        dest!: sched_SwitchD acquire_slocks release_slocks split: option.splits if_splits)
  then show ?thesis
    using assms
    by (auto simp: acquiresleep_loop_def k_invert set_slock_def proc_ops release_no_Switch
        split: if_splits option.splits)
qed

lemma sleep_return_slocks: "sleep_return lk s = Ok () t \<Longrightarrow> slocks t = slocks s"
  by (auto simp: sleep_return_def sched_return_def k_invert proc_ops set_cpu_def
      dest!: acquire_slocks release_slocks split: option.splits if_splits)

lemma sleep_return_stay [kstay_intros]: "kstay (sleep_return lk)"
  unfolding sleep_return_def sched_return_def with_cur_def by (intro kstay_intros)

lemma acquiresleepD:
  "acquiresleep sl s = Ok () t \<Longrightarrow> sl_locked (slocks s sl) = 0 \<and> sl_locked (slocks t sl) = 1"
  "acquiresleep sl s = Switch t \<Longrightarrow> sl_locked (slocks s sl) \<noteq> 0 \<and> slocks t = slocks s"
  "acquiresleep_return sl s = Ok () t \<Longrightarrow> sl_locked (slocks s sl) = 0 \<and> sl_locked (slocks t sl) = 1"
  "acquiresleep_return sl s = Switch t \<Longrightarrow> sl_locked (slocks s sl) \<noteq> 0 \<and> slocks t = slocks s"
  using sleep_return_stay[THEN kstayD]
  by (auto simp: acquiresleep_def acquiresleep_return_def k_invert acquire_no_Switch
      dest!: loop_OkD loop_SwitchD acquire_slocks sleep_return_slocks)

lemma releasesleepD:
  assumes "releasesleep sl s = Ok () t"
  shows "sl_locked (slocks t sl) = 0 \<and> \<not> asleep_on sl t p"
proof -
  obtain u v w where u: "acquire (lk_of sl) s = Ok () u" and v: "wakeup (SleepChan sl)
      (u\<lparr>slocks := (slocks u)(sl := (slocks u sl)\<lparr>sl_locked := 0, sl_pid := 0\<rparr>)\<rparr>) = Ok () v"
    and w: "release (lk_of sl) v = Ok () t"
    using assms by (auto simp: releasesleep_def k_invert set_slock_def)
  have "slocks v sl = (slocks u sl)\<lparr>sl_locked := 0, sl_pid := 0\<rparr>" and "\<not> asleep_on sl v p"
    using v by (auto simp: wakeup_def k_invert wakeup1_eq wake_all_def woken_def asleep_on_def
        dest!: acquire_slocks release_slocks split: if_splits)
  then show ?thesis
    using release_slocks[OF w] by (simp add: asleep_on_def)
qed

lemma sl_inv_reach: "sl_reach sl y \<Longrightarrow> sl_inv sl y"
proof (induction rule: sl_reach.induct)
  case (sl_start s)
  then show ?case by (simp add: sl_inv_def)
next
  case (sl_next y z)
  from sl_next(2) show ?case
  proof (cases rule: sl_step.cases)
    case (take p s)
    then show ?thesis
      using acquiresleepD(1)[of sl "sl_st y" s] sl_next(3) by (auto simp: sl_inv_def)
  next
    case (block s)
    then show ?thesis
      using acquiresleepD(2)[of sl "sl_st y" s] sl_next(3) by (auto simp: sl_inv_def)
  next
    case (retake p s)
    then show ?thesis
      using acquiresleepD(3)[of sl "sl_st y" s] sl_next(3) by (auto simp: sl_inv_def)
  next
    case (reblock s)
    then show ?thesis
      using acquiresleepD(4)[of sl "sl_st y" s] sl_next(3) by (auto simp: sl_inv_def)
  next
    case (give p s)
    then show ?thesis
      using releasesleepD[of sl "sl_st y" s] sl_next(3) by (auto simp: sl_inv_def split: if_splits)
  next
    case (others s)
    then show ?thesis
      using sl_next(3) by (auto simp: sl_inv_def split: if_splits)
  qed
qed

section \<open>Properties\<close>


definition boot_sleep :: sleep_state where
  "boot_sleep = proc_state.extend (boot_procs\<lparr>cpu_proc := (\<lambda>_. None)(0 := Some 0),
      ptable := (ptable boot_procs)(0 := (ptable boot_procs 0)\<lparr>p_state := RUNNING\<rparr>)\<rparr>)
    \<lparr>slocks = (\<lambda>_. \<lparr>sl_locked = 0, sl_name = [], sl_pid = 0\<rparr>), \<dots> = ()\<rparr>"

lemmas boot_sleep_simps = boot_sleep_def proc_state.defs boot_procs_simps


end
