(* ===== verification/Bio.thy ===== *)
theory Bio
  imports Sleeplock
begin

text \<open>
  \<^verbatim>\<open>bio.c\<close>, the buffer cache, over the disk driver \<^verbatim>\<open>memide.c\<close>, which keeps the disk in
  memory. The buffers are chained through \<open>prev\<close> and \<open>next\<close> as in the code; index
  \<open>HEAD\<close> is \<open>bcache.head\<close>. \<open>disk_writes\<close> is a history variable: the blocks written, in
  order, which no operation reads.

  \<open>block_cache\<close> is the contract the log and the file system build on: what a read returns,
  and how a read, a change, a write and a release act on the cached view of the disk, on the
  disk itself and on the set of pinned blocks.
\<close>

section \<open>State (buf.h, bio.c, memide.c)\<close>

definition BSIZE :: nat where
  "BSIZE = 512"

definition NBUF :: nat where
  "NBUF = 30"

definition HEAD :: nat where
  "HEAD = NBUF"

record buf =
  b_valid :: bool     \<comment> \<open>\<open>flags & B_VALID\<close>\<close>
  b_dirty :: bool     \<comment> \<open>\<open>flags & B_DIRTY\<close>\<close>
  b_dev :: uint
  b_no :: nat         \<comment> \<open>\<open>blockno\<close>\<close>
  refcnt :: uint
  b_prev :: nat
  b_next :: nat
  b_data :: "uchar list"

record bio_state = sleep_state +
  bufs :: "nat \<Rightarrow> buf"
  memdisk :: "uchar list"
  disksize :: nat
  disk_writes :: "(nat \<times> uchar list) list"

definition set_buf :: "nat \<Rightarrow> (buf \<Rightarrow> buf) \<Rightarrow> ('x bio_state_scheme, unit) km" where
  "set_buf b f = kmod (\<lambda>s. s\<lparr>bufs := (bufs s)(b := f (bufs s b))\<rparr>)"

definition get_buf :: "(buf \<Rightarrow> 'a) \<Rightarrow> nat \<Rightarrow> ('x bio_state_scheme, 'a) km" where
  "get_buf f b = kget (\<lambda>s. f (bufs s b))"

text \<open>Block \<open>n\<close> of a disk image.\<close>

definition dblock :: "uchar list \<Rightarrow> nat \<Rightarrow> uchar list" where
  "dblock d n = chunk (n * BSIZE) BSIZE d"

definition dput :: "nat \<Rightarrow> uchar list \<Rightarrow> uchar list \<Rightarrow> uchar list" where
  "dput n bs d = patch (n * BSIZE) bs d"

section \<open>Disk driver (memide.c)\<close>

definition ideinit :: "uchar list \<Rightarrow> ('x bio_state_scheme, unit) km" where
  "ideinit img = kmod (\<lambda>s. s\<lparr>memdisk := img, disksize := unat (of_nat (length img) :: uint) div BSIZE\<rparr>)"

definition iderw :: "nat \<Rightarrow> ('x bio_state_scheme, unit) km" where
  "iderw b =
     kbind (holdingsleep (BufSleep b)) (\<lambda>h.
     if \<not> h then kpanic ''iderw: buf not locked''
     else kbind (get_buf (\<lambda>x. x) b) (\<lambda>x.
       if b_valid x \<and> \<not> b_dirty x then kpanic ''iderw: nothing to do''
       else if b_dev x \<noteq> 1 then kpanic ''iderw: request not for disk 1''
       else kbind (kget disksize) (\<lambda>sz.
         if sz \<le> b_no x then kpanic ''iderw: block out of range''
         else kseq
           (if b_dirty x then
              kseq (set_buf b (\<lambda>x. x\<lparr>b_dirty := False\<rparr>))
                   (kmod (\<lambda>s. s\<lparr>memdisk := dput (b_no x) (b_data x) (memdisk s),
                       disk_writes := disk_writes s @ [(b_no x, b_data x)]\<rparr>))
            else kbind (kget memdisk) (\<lambda>d. set_buf b (\<lambda>y. y\<lparr>b_data := dblock d (b_no x)\<rparr>)))
           (set_buf b (\<lambda>x. x\<lparr>b_valid := True\<rparr>)))))"

section \<open>Buffer cache (bio.c)\<close>

definition binit_link :: "nat \<Rightarrow> ('x bio_state_scheme, unit) km" where
  "binit_link b =
     kbind (get_buf b_next HEAD) (\<lambda>first.
     kseq (set_buf b (\<lambda>x. x\<lparr>b_next := first\<rparr>))
     (kseq (set_buf b (\<lambda>x. x\<lparr>b_prev := HEAD\<rparr>))
     (kseq (initsleeplock (BufSleep b) ''buffer'')
     (kseq (set_buf first (\<lambda>x. x\<lparr>b_prev := b\<rparr>))
           (set_buf HEAD (\<lambda>x. x\<lparr>b_next := b\<rparr>))))))"

definition binit :: "('x bio_state_scheme, unit) km" where
  "binit =
     kseq (initlock BcacheLock ''bcache'')
     (kseq (set_buf HEAD (\<lambda>x. x\<lparr>b_prev := HEAD\<rparr>))
     (kseq (set_buf HEAD (\<lambda>x. x\<lparr>b_next := HEAD\<rparr>))
           (kfor binit_link [0..<NBUF])))"

text \<open>
  The search loops of \<open>bget\<close>, along \<open>next\<close> or \<open>prev\<close> up to \<open>HEAD\<close>. \<open>None\<close> is a search
  that has not met \<open>HEAD\<close> after \<open>fuel\<close> steps; on a well-formed list \<open>NBUF + 1\<close> steps are
  enough (\<open>bscan_path\<close>).
\<close>

fun bscan :: "(nat \<Rightarrow> bool) \<Rightarrow> (nat \<Rightarrow> nat) \<Rightarrow> nat \<Rightarrow> nat \<Rightarrow> nat option option" where
  "bscan P link 0 b = None"
| "bscan P link (Suc fuel) b =
     (if b = HEAD then Some None
      else if P b then Some (Some b)
      else bscan P link fuel (link b))"

definition nexts :: "(nat \<Rightarrow> buf) \<Rightarrow> nat \<Rightarrow> nat" where
  "nexts bs = (\<lambda>i. b_next (bs i))"

definition prevs :: "(nat \<Rightarrow> buf) \<Rightarrow> nat \<Rightarrow> nat" where
  "prevs bs = (\<lambda>i. b_prev (bs i))"

definition bfind :: "uint \<Rightarrow> nat \<Rightarrow> 'x bio_state_scheme \<Rightarrow> nat option option" where
  "bfind dev n s = bscan (\<lambda>i. b_dev (bufs s i) = dev \<and> b_no (bufs s i) = n) (nexts (bufs s)) (Suc NBUF)
     (b_next (bufs s HEAD))"

definition bfree_one :: "'x bio_state_scheme \<Rightarrow> nat option option" where
  "bfree_one s = bscan (\<lambda>i. refcnt (bufs s i) = 0 \<and> \<not> b_dirty (bufs s i)) (prevs (bufs s)) (Suc NBUF)
     (b_prev (bufs s HEAD))"

definition bget :: "uint \<Rightarrow> nat \<Rightarrow> ('x bio_state_scheme, nat) km" where
  "bget dev n =
     kseq (acquire BcacheLock)
     (kbind (kget (bfind dev n)) (\<lambda>r.
      case r of
        None \<Rightarrow> (\<lambda>_. Fail ESpin)
      | Some (Some b) \<Rightarrow>
          kseq (set_buf b (\<lambda>x. x\<lparr>refcnt := refcnt x + 1\<rparr>))
          (kseq (release BcacheLock)
          (kseq (acquiresleep (BufSleep b)) (kret b)))
      | Some None \<Rightarrow>
          kbind (kget bfree_one) (\<lambda>r.
          case r of
            None \<Rightarrow> (\<lambda>_. Fail ESpin)
          | Some (Some b) \<Rightarrow>
              kseq (set_buf b (\<lambda>x. x\<lparr>b_dev := dev, b_no := n, b_valid := False, b_dirty := False, refcnt := 1\<rparr>))
              (kseq (release BcacheLock)
              (kseq (acquiresleep (BufSleep b)) (kret b)))
          | Some None \<Rightarrow> kpanic ''bget: no buffers'')))"

definition bread :: "uint \<Rightarrow> nat \<Rightarrow> ('x bio_state_scheme, nat) km" where
  "bread dev n =
     kbind (bget dev n) (\<lambda>b.
     kbind (get_buf b_valid b) (\<lambda>v.
     kseq (kwhen (\<not> v) (iderw b)) (kret b)))"

definition bwrite :: "nat \<Rightarrow> ('x bio_state_scheme, unit) km" where
  "bwrite b =
     kbind (holdingsleep (BufSleep b)) (\<lambda>h.
     if \<not> h then kpanic ''bwrite''
     else kseq (set_buf b (\<lambda>x. x\<lparr>b_dirty := True\<rparr>)) (iderw b))"

definition to_front :: "nat \<Rightarrow> ('x bio_state_scheme, unit) km" where
  "to_front b =
     kbind (get_buf (\<lambda>x. x) b) (\<lambda>x.
     kseq (set_buf (b_next x) (\<lambda>y. y\<lparr>b_prev := b_prev x\<rparr>))
     (kseq (set_buf (b_prev x) (\<lambda>y. y\<lparr>b_next := b_next x\<rparr>))
     (kbind (get_buf b_next HEAD) (\<lambda>first.
     kseq (set_buf b (\<lambda>y. y\<lparr>b_next := first\<rparr>))
     (kseq (set_buf b (\<lambda>y. y\<lparr>b_prev := HEAD\<rparr>))
     (kseq (set_buf first (\<lambda>y. y\<lparr>b_prev := b\<rparr>))
           (set_buf HEAD (\<lambda>y. y\<lparr>b_next := b\<rparr>))))))))"

definition brelse :: "nat \<Rightarrow> ('x bio_state_scheme, unit) km" where
  "brelse b =
     kbind (holdingsleep (BufSleep b)) (\<lambda>h.
     if \<not> h then kpanic ''brelse''
     else kseq (releasesleep (BufSleep b))
       (kseq (acquire BcacheLock)
       (kseq (set_buf b (\<lambda>x. x\<lparr>refcnt := refcnt x - 1\<rparr>))
       (kbind (get_buf refcnt b) (\<lambda>r.
        kseq (kwhen (r = 0) (to_front b))
             (release BcacheLock))))))"

text \<open>What the callers of \<open>bread\<close> do to the buffer they hold.\<close>

definition bput :: "nat \<Rightarrow> uchar list \<Rightarrow> ('x bio_state_scheme, unit) km" where
  "bput b d = set_buf b (\<lambda>x. x\<lparr>b_data := d\<rparr>)"

lemmas buf_ops = set_buf_def get_buf_def bput_def

section \<open>Disk blocks\<close>

lemma length_dput: "length bs = BSIZE \<Longrightarrow> (n + 1) * BSIZE \<le> length d \<Longrightarrow> length (dput n bs d) = length d"
  by (simp add: dput_def)

lemma length_dblock: "(n + 1) * BSIZE \<le> length d \<Longrightarrow> length (dblock d n) = BSIZE"
  by (simp add: dblock_def)

lemma block_apart: "n \<noteq> k \<Longrightarrow> n * BSIZE + BSIZE \<le> k * BSIZE \<or> k * BSIZE + BSIZE \<le> n * BSIZE"
proof -
  assume "n \<noteq> k"
  then have "Suc n \<le> k \<or> Suc k \<le> n" by auto
  then show ?thesis
    by (metis add.commute mult_Suc mult_le_mono1)
qed

lemma dblock_dput:
  assumes "length bs = BSIZE" and "(n + 1) * BSIZE \<le> length d" and "(k + 1) * BSIZE \<le> length d"
  shows "dblock (dput n bs d) k = (if k = n then bs else dblock d k)"
proof (cases "k = n")
  case True
  then show ?thesis using assms by (simp add: dblock_def dput_def)
next
  case False
  then show ?thesis
    using assms block_apart[of k n] by (simp add: dblock_def dput_def) (rule chunk_patch_other, auto)
qed

section \<open>The LRU chain\<close>

text \<open>\<open>path link a xs z\<close>: following \<open>link\<close> from \<open>a\<close> passes through \<open>xs\<close> and arrives at \<open>z\<close>.\<close>

fun path :: "(nat \<Rightarrow> nat) \<Rightarrow> nat \<Rightarrow> nat list \<Rightarrow> nat \<Rightarrow> bool" where
  "path link a [] z \<longleftrightarrow> link a = z"
| "path link a (x # xs) z \<longleftrightarrow> link a = x \<and> path link x xs z"

definition lru :: "nat list \<Rightarrow> (nat \<Rightarrow> buf) \<Rightarrow> bool" where
  "lru xs bs \<longleftrightarrow> distinct xs \<and> set xs = {..<NBUF} \<and>
     path (nexts bs) HEAD xs HEAD \<and> path (prevs bs) HEAD (rev xs) HEAD"

lemma path_append: "path link a (xs @ y # ys) z \<longleftrightarrow> path link a xs y \<and> path link y ys z"
  by (induction xs arbitrary: a) auto

lemma path_snoc: "path link a xs z \<Longrightarrow> link (last (a # xs)) = z"
  by (induction xs arbitrary: a) auto

lemma path_upd: "i \<notin> set (a # xs) \<Longrightarrow> path (link(i := v)) a xs z = path link a xs z"
  by (induction xs arbitrary: a) auto

lemma path_retarget:
  "path link a xs y \<Longrightarrow> distinct (a # xs) \<Longrightarrow> path (link(last (a # xs) := z)) a xs z"
proof (induction xs arbitrary: a)
  case Nil
  then show ?case by simp
next
  case (Cons x xs)
  have "path (link(last (x # xs) := z)) x xs z"
    using Cons.prems by (intro Cons.IH) auto
  moreover have "last (x # xs) \<noteq> a"
    using Cons.prems(2) by (metis distinct.simps(2) last_in_set list.distinct(1))
  moreover have "last (a # x # xs) = last (x # xs)" by simp
  ultimately show ?case
    using Cons.prems(1) by (metis path.simps(2) fun_upd_other)
qed

lemma path_remove:
  assumes "path link a (ys @ b # zs) z" and "distinct (a # ys @ b # zs)"
  shows "path (link(last (a # ys) := link b)) a (ys @ zs) z"
proof -
  have p: "path link a ys b" "path link b zs z"
    using assms(1) by (simp_all add: path_append)
  have ne: "last (a # ys) \<notin> set zs"
    using assms(2) last_in_set[of "a # ys"] by auto
  show ?thesis
  proof (cases zs)
    case Nil
    then show ?thesis
      using path_retarget[OF p(1), of z] p(2) assms(2) by simp
  next
    case (Cons w ws)
    have "path (link(last (a # ys) := w)) a ys w"
      using p(1) assms(2) by (intro path_retarget) auto
    moreover have "path (link(last (a # ys) := w)) w ws z"
      using p(2) ne Cons by (subst path_upd) auto
    ultimately show ?thesis
      using p(2) Cons by (simp add: path_append)
  qed
qed

lemma path_insert_front:
  "path link a xs z \<Longrightarrow> b \<notin> set (a # xs) \<Longrightarrow> a \<notin> set xs \<Longrightarrow> path (link(b := link a, a := b)) a (b # xs) z"
  by (cases xs) (auto simp: path_upd)

lemma path_insert_back:
  assumes "path link a xs z" and "b \<notin> set (a # xs)" and "distinct (a # xs)"
  shows "path (link(b := z, last (a # xs) := b)) a (xs @ [b]) z"
proof -
  have "path (link(last (a # xs) := b)) a xs b"
    using assms by (intro path_retarget)
  then have "path (link(last (a # xs) := b, b := z)) a xs b"
    using assms(2) by (subst path_upd) auto
  moreover have "last (a # xs) \<noteq> b"
    using assms(2) last_in_set[of "a # xs"] by auto
  ultimately show ?thesis
    by (simp add: path_append fun_upd_twist)
qed

lemma bscan_path:
  "path link a xs HEAD \<Longrightarrow> HEAD \<notin> set xs \<Longrightarrow> length xs < fuel \<Longrightarrow> bscan P link fuel (link a) = Some (find P xs)"
proof (induction xs arbitrary: a fuel)
  case Nil
  then show ?case by (cases fuel) auto
next
  case (Cons x xs)
  then show ?case by (cases fuel) auto
qed

declare bscan.simps [simp del]

lemma lru_facts:
  assumes "lru xs bs"
  shows "distinct xs" "distinct (HEAD # xs)" "HEAD \<notin> set xs" "length xs = NBUF"
  using assms distinct_card[of xs] by (auto simp: lru_def HEAD_def)

lemma lru_cong:
  "lru xs bs \<Longrightarrow> (\<And>i. b_next (bs' i) = b_next (bs i)) \<Longrightarrow> (\<And>i. b_prev (bs' i) = b_prev (bs i)) \<Longrightarrow> lru xs bs'"
  by (simp add: lru_def nexts_def prevs_def)

text \<open>What \<open>to_front\<close> changes: links only, and to the list with \<open>b\<close> in front.\<close>

definition unlinked :: "buf \<Rightarrow> buf" where
  "unlinked x = x\<lparr>b_next := 0, b_prev := 0\<rparr>"

lemma unlinked_eqD:
  "unlinked x = unlinked y \<Longrightarrow> b_valid x = b_valid y \<and> b_dirty x = b_dirty y \<and> b_dev x = b_dev y \<and>
     b_no x = b_no y \<and> refcnt x = refcnt y \<and> b_data x = b_data y"
  by (cases x, cases y) (simp add: unlinked_def)

lemma unlinked_upd [simp]:
  "unlinked (x\<lparr>b_next := a\<rparr>) = unlinked x" "unlinked (x\<lparr>b_prev := a\<rparr>) = unlinked x"
  by (simp_all add: unlinked_def)

lemma nexts_upd [simp]:
  "nexts (bs(i := (bs i)\<lparr>b_next := v\<rparr>)) = (nexts bs)(i := v)"
  "nexts (bs(i := (bs i)\<lparr>b_prev := v\<rparr>)) = nexts bs"
  "prevs (bs(i := (bs i)\<lparr>b_prev := v\<rparr>)) = (prevs bs)(i := v)"
  "prevs (bs(i := (bs i)\<lparr>b_next := v\<rparr>)) = prevs bs"
  by (auto simp: nexts_def prevs_def fun_eq_iff)

definition next_upd :: "nat \<Rightarrow> nat \<Rightarrow> (nat \<Rightarrow> buf) \<Rightarrow> nat \<Rightarrow> buf" where
  "next_upd i v bs = bs(i := (bs i)\<lparr>b_next := v\<rparr>)"

definition prev_upd :: "nat \<Rightarrow> nat \<Rightarrow> (nat \<Rightarrow> buf) \<Rightarrow> nat \<Rightarrow> buf" where
  "prev_upd i v bs = bs(i := (bs i)\<lparr>b_prev := v\<rparr>)"

definition front :: "nat \<Rightarrow> (nat \<Rightarrow> buf) \<Rightarrow> nat \<Rightarrow> buf" where
  "front b bs =
     (let bs1 = next_upd (prevs bs b) (nexts bs b) (prev_upd (nexts bs b) (prevs bs b) bs)
      in next_upd HEAD b (prev_upd (nexts bs1 HEAD) b (prev_upd b HEAD (next_upd b (nexts bs1 HEAD) bs1))))"

lemma link_upd_simps [simp]:
  "nexts (next_upd i v bs) = (nexts bs)(i := v)" "nexts (prev_upd i v bs) = nexts bs"
  "prevs (prev_upd i v bs) = (prevs bs)(i := v)" "prevs (next_upd i v bs) = prevs bs"
  "unlinked (next_upd i v bs j) = unlinked (bs j)" "unlinked (prev_upd i v bs j) = unlinked (bs j)"
  by (auto simp: next_upd_def prev_upd_def)

lemma to_front_eq: "to_front b s = Ok () (s\<lparr>bufs := front b (bufs s)\<rparr>)"
  by (simp add: to_front_def k_simps buf_ops front_def Let_def next_upd_def prev_upd_def nexts_def prevs_def)

lemma unlinked_front: "unlinked (front b bs i) = unlinked (bs i)"
  by (simp add: front_def Let_def)

lemma lru_front:
  assumes "lru (ys @ b # zs) bs"
  shows "lru (b # ys @ zs) (front b bs)"
proof -
  note f = lru_facts[OF assms]
  have pn: "path (nexts bs) HEAD (ys @ b # zs) HEAD" and pp: "path (prevs bs) HEAD (rev zs @ b # rev ys) HEAD"
    using assms by (simp_all add: lru_def)
  have d: "distinct (HEAD # ys @ b # zs)" "distinct (HEAD # rev zs @ b # rev ys)"
    using f by auto
  have prev_b: "prevs bs b = last (HEAD # ys)"
  proof (cases ys rule: rev_cases)
    case Nil
    then show ?thesis using pp by (simp add: path_append)
  next
    case (snoc us u)
    then show ?thesis using pp by (simp add: path_append)
  qed
  have next_b: "nexts bs b = last (HEAD # rev zs)"
    using pn by (cases zs) (auto simp: path_append)
  define nx where "nx = (nexts bs)(last (HEAD # ys) := nexts bs b)"
  define pv where "pv = (prevs bs)(last (HEAD # rev zs) := prevs bs b)"
  have nx: "path nx HEAD (ys @ zs) HEAD"
    unfolding nx_def using pn d(1) by (rule path_remove)
  have pv: "path pv HEAD (rev zs @ rev ys) HEAD"
    unfolding pv_def using pp d(2) by (rule path_remove)
  have first: "nx HEAD = last (HEAD # rev zs @ rev ys)"
  proof (cases "ys @ zs")
    case Nil
    then show ?thesis using nx by simp
  next
    case (Cons w ws)
    then have "rev zs @ rev ys = rev ws @ [w]"
      by (metis rev.simps(2) rev_append)
    then show ?thesis using nx Cons by simp
  qed
  have "path (nx(b := nx HEAD, HEAD := b)) HEAD (b # ys @ zs) HEAD"
    using nx d by (intro path_insert_front) auto
  moreover have "path (pv(b := HEAD, last (HEAD # rev zs @ rev ys) := b)) HEAD ((rev zs @ rev ys) @ [b]) HEAD"
    using pv d by (intro path_insert_back) auto
  moreover have "nexts (front b bs) = nx(b := nx HEAD, HEAD := b)"
    by (simp add: front_def Let_def nx_def prev_b)
  moreover have "prevs (front b bs) = pv(b := HEAD, nx HEAD := b)"
    by (simp add: front_def Let_def nx_def pv_def prev_b next_b)
  ultimately show ?thesis
    using assms f by (auto simp: lru_def first)
qed

lemma lru_to_front:
  assumes "lru xs bs" and "b < NBUF"
  shows "\<exists>ys. lru ys (front b bs)"
proof -
  have "b \<in> set xs" using assms by (auto simp: lru_def)
  then obtain ys zs where "xs = ys @ b # zs" by (meson split_list)
  then show ?thesis using lru_front assms(1) by blast
qed

section \<open>The cache invariant and the abstract view\<close>

abbreviation b_locked :: "'x bio_state_scheme \<Rightarrow> nat \<Rightarrow> bool" where
  "b_locked s b \<equiv> sl_locked (slocks s (BufSleep b)) \<noteq> 0"

definition buf_ok :: "'x bio_state_scheme \<Rightarrow> nat \<Rightarrow> bool" where
  "buf_ok s b \<longleftrightarrow> length (b_data (bufs s b)) = BSIZE \<and>
     refcnt (bufs s b) = (if b_locked s b then 1 else 0) \<and>
     (if b_dev (bufs s b) = 1
      then b_valid (bufs s b) \<and> b_no (bufs s b) < disksize s \<and>
        (b_dirty (bufs s b) \<or> b_locked s b \<or> b_data (bufs s b) = dblock (memdisk s) (b_no (bufs s b)))
      else \<not> b_dirty (bufs s b) \<and> \<not> b_locked s b)"

definition one_each :: "'x bio_state_scheme \<Rightarrow> bool" where
  "one_each s \<longleftrightarrow> (\<forall>a<NBUF. \<forall>b<NBUF. b_dev (bufs s a) = 1 \<longrightarrow> b_dev (bufs s b) = 1 \<longrightarrow>
     b_no (bufs s a) = b_no (bufs s b) \<longrightarrow> a = b)"

definition bc_inv :: "'x bio_state_scheme \<Rightarrow> bool" where
  "bc_inv s \<longleftrightarrow> quiet s \<and> myproc s \<noteq> None \<and> (\<exists>xs. lru xs (bufs s)) \<and>
     length (memdisk s) = disksize s * BSIZE \<and> one_each s \<and> (\<forall>b<NBUF. buf_ok s b)"

text \<open>Which buffer has block \<open>n\<close> of disk 1.\<close>

definition lookup :: "'x bio_state_scheme \<Rightarrow> nat \<Rightarrow> nat option" where
  "lookup s n = find (\<lambda>b. b_dev (bufs s b) = 1 \<and> b_no (bufs s b) = n) [0..<NBUF]"

text \<open>
  The abstract cache: the contents of each block as the kernel sees it, the contents on the
  disk, the blocks pinned by \<open>B_DIRTY\<close>, the blocks in use with their buffers, and the
  writes made.
\<close>

record bcache =
  bc_view :: "nat \<Rightarrow> uchar list"
  bc_disk :: "nat \<Rightarrow> uchar list"
  bc_dirty :: "nat set"
  bc_held :: "nat \<rightharpoonup> nat"
  bc_writes :: "(nat \<times> uchar list) list"

definition view :: "'x bio_state_scheme \<Rightarrow> nat \<Rightarrow> uchar list" where
  "view s n = (case lookup s n of None \<Rightarrow> dblock (memdisk s) n | Some b \<Rightarrow> b_data (bufs s b))"

definition dirty :: "'x bio_state_scheme \<Rightarrow> nat set" where
  "dirty s = {n. \<exists>b<NBUF. b_dev (bufs s b) = 1 \<and> b_no (bufs s b) = n \<and> b_dirty (bufs s b)}"

definition held :: "'x bio_state_scheme \<Rightarrow> nat \<rightharpoonup> nat" where
  "held s n = (case lookup s n of Some b \<Rightarrow> if b_locked s b then Some b else None | None \<Rightarrow> None)"

definition babs :: "'x bio_state_scheme \<Rightarrow> bcache" where
  "babs s = \<lparr>bc_view = view s, bc_disk = dblock (memdisk s), bc_dirty = dirty s, bc_held = held s,
     bc_writes = disk_writes s\<rparr>"

lemma babs_sel [simp]:
  "bc_view (babs s) = view s" "bc_disk (babs s) = dblock (memdisk s)" "bc_dirty (babs s) = dirty s"
  "bc_held (babs s) = held s" "bc_writes (babs s) = disk_writes s"
  by (simp_all add: babs_def)

lemma lookup_Some:
  assumes "one_each s"
  shows "lookup s n = Some b \<longleftrightarrow> b < NBUF \<and> b_dev (bufs s b) = 1 \<and> b_no (bufs s b) = n"
proof
  assume "b < NBUF \<and> b_dev (bufs s b) = 1 \<and> b_no (bufs s b) = n"
  moreover have "\<not> (b_dev (bufs s j) = 1 \<and> b_no (bufs s j) = n)" if "j < b" for j
    using assms calculation that unfolding one_each_def by (metis less_trans nat_neq_iff)
  ultimately show "lookup s n = Some b"
    by (simp add: lookup_def find_upt_Some)
qed (simp add: lookup_def find_upt_Some)

lemma lookup_SomeD: "lookup s n = Some b \<Longrightarrow> b < NBUF \<and> b_dev (bufs s b) = 1 \<and> b_no (bufs s b) = n"
  by (simp add: lookup_def find_upt_Some)

lemma lookup_None: "lookup s n = None \<longleftrightarrow> (\<forall>b<NBUF. \<not> (b_dev (bufs s b) = 1 \<and> b_no (bufs s b) = n))"
  by (simp add: lookup_def find_upt_None)

lemma dirty_iff: "one_each s \<Longrightarrow> n \<in> dirty s \<longleftrightarrow> (\<exists>b. lookup s n = Some b \<and> b_dirty (bufs s b))"
  by (auto simp: dirty_def lookup_Some)

text \<open>The search loops find what is there.\<close>

lemma find_same_set:
  assumes "set xs = set ys" and "\<And>a b. a \<in> set xs \<Longrightarrow> b \<in> set xs \<Longrightarrow> P a \<Longrightarrow> P b \<Longrightarrow> a = b"
  shows "find P xs = find P ys"
proof (cases "find P ys")
  case None
  then have "find P xs = None"
    using assms(1) unfolding find_None_iff by simp
  with None show ?thesis by simp
next
  case (Some y)
  then have y: "P y" "y \<in> set ys" by (auto simp: find_Some_iff)
  then obtain x where "find P xs = Some x"
    using assms(1) by (cases "find P xs") (auto simp: find_None_iff)
  moreover have "P x" "x \<in> set xs"
    using calculation by (auto simp: find_Some_iff)
  ultimately show ?thesis
    using assms y Some by auto
qed

lemma bfind_lookup:
  assumes "lru xs (bufs s)" and "one_each s"
  shows "bfind 1 n s = Some (lookup s n)"
proof -
  note f = lru_facts[OF assms(1)]
  have "bscan P (nexts (bufs s)) (Suc NBUF) (nexts (bufs s) HEAD) = Some (find P xs)" for P
    using assms(1) f by (intro bscan_path) (simp_all add: lru_def)
  then have "bfind 1 n s = Some (find (\<lambda>b. b_dev (bufs s b) = 1 \<and> b_no (bufs s b) = n) xs)"
    by (simp add: bfind_def nexts_def)
  also have "find (\<lambda>b. b_dev (bufs s b) = 1 \<and> b_no (bufs s b) = n) xs = lookup s n"
    unfolding lookup_def using assms by (intro find_same_set) (auto simp: lru_def one_each_def)
  finally show ?thesis by simp
qed

lemma bfree_one_found:
  assumes "lru xs (bufs s)" and "b < NBUF" and "refcnt (bufs s b) = 0" and "\<not> b_dirty (bufs s b)"
  shows "\<exists>c. bfree_one s = Some (Some c) \<and> c < NBUF \<and> refcnt (bufs s c) = 0 \<and> \<not> b_dirty (bufs s c)"
proof -
  note f = lru_facts[OF assms(1)]
  have "bscan P (prevs (bufs s)) (Suc NBUF) (prevs (bufs s) HEAD) = Some (find P (rev xs))" for P
    using assms(1) f by (intro bscan_path) (simp_all add: lru_def)
  then have "bfree_one s = Some (find (\<lambda>b. refcnt (bufs s b) = 0 \<and> \<not> b_dirty (bufs s b)) (rev xs))"
    by (simp add: bfree_one_def prevs_def)
  moreover have "b \<in> set (rev xs)"
    using assms(1,2) by (auto simp: lru_def)
  moreover obtain c where "find (\<lambda>b. refcnt (bufs s b) = 0 \<and> \<not> b_dirty (bufs s b)) (rev xs) = Some c"
    using assms(3,4) calculation(2) by (cases "find (\<lambda>b. refcnt (bufs s b) = 0 \<and> \<not> b_dirty (bufs s b)) (rev xs)")
      (auto simp: find_None_iff)
  moreover have "c \<in> set (rev xs) \<and> refcnt (bufs s c) = 0 \<and> \<not> b_dirty (bufs s c)"
    using calculation(3) unfolding find_Some_iff by (metis nth_mem)
  moreover have "c < NBUF" if "c \<in> set (rev xs)"
    using assms(1) that by (auto simp: lru_def)
  ultimately show ?thesis by auto
qed

text \<open>While fewer than \<open>NBUF\<close> blocks are pinned or in use there is a buffer to recycle.\<close>

lemma free_buffer:
  assumes "bc_inv s" and "card (dirty s \<union> dom (held s)) < NBUF"
  shows "\<exists>b<NBUF. refcnt (bufs s b) = 0 \<and> \<not> b_dirty (bufs s b)"
proof (rule ccontr)
  assume none: "\<not> ?thesis"
  have one: "one_each s" using assms(1) by (simp add: bc_inv_def)
  have busy: "b_dev (bufs s b) = 1 \<and> b_no (bufs s b) \<in> dirty s \<union> dom (held s)" if "b < NBUF" for b
  proof -
    have ok: "buf_ok s b" using assms(1) that by (simp add: bc_inv_def)
    have "b_dirty (bufs s b) \<or> b_locked s b"
      using none that ok by (auto simp: buf_ok_def)
    moreover have dev: "b_dev (bufs s b) = 1"
      using ok calculation by (auto simp: buf_ok_def split: if_splits)
    moreover have "lookup s (b_no (bufs s b)) = Some b"
      using one that dev by (simp add: lookup_Some)
    ultimately show ?thesis
      using that by (auto simp: dirty_def held_def dom_def)
  qed
  have inj: "inj_on (\<lambda>b. b_no (bufs s b)) {..<NBUF}"
    using one busy by (auto simp: inj_on_def one_each_def)
  have "finite (dirty s \<union> dom (held s))"
  proof (rule finite_subset)
    show "dirty s \<union> dom (held s) \<subseteq> (\<lambda>b. b_no (bufs s b)) ` {..<NBUF}"
      using one by (auto simp: dirty_def held_def lookup_Some split: option.splits if_splits)
  qed simp
  moreover have "(\<lambda>b. b_no (bufs s b)) ` {..<NBUF} \<subseteq> dirty s \<union> dom (held s)"
    using busy by blast
  ultimately have "card ((\<lambda>b. b_no (bufs s b)) ` {..<NBUF}) \<le> card (dirty s \<union> dom (held s))"
    by (intro card_mono)
  then show False
    using assms(2) inj by (simp add: card_image)
qed

section \<open>What the cache operations do\<close>

lemma bget_cached:
  assumes "bc_inv s" and "lookup s n = Some b" and "\<not> b_locked s b"
  shows "bget 1 n s = Ok b (sl_taken (BufSleep b) (s\<lparr>bufs := (bufs s)(b := (bufs s b)\<lparr>refcnt := 1\<rparr>)\<rparr>))"
proof -
  obtain xs where xs: "lru xs (bufs s)" and q: "quiet s" and one: "one_each s" and my: "myproc s \<noteq> None"
    using assms(1) by (auto simp: bc_inv_def)
  let ?u = "taken BcacheLock s"
  let ?v = "s\<lparr>bufs := (bufs s)(b := (bufs s b)\<lparr>refcnt := 1\<rparr>)\<rparr>"
  have free: "irq_ok s" "lock_free BcacheLock s" using q by (simp_all add: quiet_def)
  have u: "bufs ?u = bufs s" by (simp add: taken_def)
  then have find: "bfind 1 n ?u = Some (Some b)"
    using bfind_lookup[OF xs one, of n] assms(2) by (simp add: bfind_def)
  have b: "b < NBUF" using assms(2) one by (simp add: lookup_Some)
  then have ref: "refcnt (bufs s b) = 0"
    using assms(1,3) by (simp add: bc_inv_def buf_ok_def)
  have rel: "release BcacheLock (?u\<lparr>bufs := (bufs s)(b := (bufs s b)\<lparr>refcnt := 1\<rparr>)\<rparr>) = Ok () ?v"
    using free release_taken[OF free, of "?u\<lparr>bufs := (bufs s)(b := (bufs s b)\<lparr>refcnt := 1\<rparr>)\<rparr>"]
    by (simp add: same_locks_def restore_locks_def taken_def)
  have "quiet ?v" using q by (rule quiet_cong) (simp add: same_locks_def)
  then have "acquiresleep (BufSleep b) ?v = Ok () (sl_taken (BufSleep b) ?v)"
    using assms(3) my by (intro acquiresleep_free[where p = "the (myproc s)"]) (auto simp: myproc_def)
  then show ?thesis
    using free(2) find by (simp add: bget_def k_simps acquire_free buf_ops u ref rel)
qed

lemma bget_recycle:
  assumes "bc_inv s" and "lookup s n = None" and "card (dirty s \<union> dom (held s)) < NBUF"
  shows "\<exists>b<NBUF. refcnt (bufs s b) = 0 \<and> \<not> b_dirty (bufs s b) \<and> \<not> b_locked s b \<and>
    bget 1 n s = Ok b (sl_taken (BufSleep b) (s\<lparr>bufs := (bufs s)(b := (bufs s b)\<lparr>b_dev := 1, b_no := n,
       b_valid := False, b_dirty := False, refcnt := 1\<rparr>)\<rparr>))"
proof -
  obtain xs where xs: "lru xs (bufs s)" and q: "quiet s" and one: "one_each s" and my: "myproc s \<noteq> None"
    using assms(1) by (auto simp: bc_inv_def)
  obtain b where b: "bfree_one s = Some (Some b)" "b < NBUF" "refcnt (bufs s b) = 0" "\<not> b_dirty (bufs s b)"
    using free_buffer[OF assms(1,3)] bfree_one_found[OF xs] by blast
  have unlocked: "\<not> b_locked s b"
    using assms(1) b(2,3) by (auto simp: bc_inv_def buf_ok_def split: if_splits)
  let ?u = "taken BcacheLock s"
  let ?x = "(bufs s b)\<lparr>b_dev := 1, b_no := n, b_valid := False, b_dirty := False, refcnt := 1\<rparr>"
  let ?v = "s\<lparr>bufs := (bufs s)(b := ?x)\<rparr>"
  have free: "irq_ok s" "lock_free BcacheLock s" using q by (simp_all add: quiet_def)
  have u: "bufs ?u = bufs s" by (simp add: taken_def)
  then have find: "bfind 1 n ?u = Some None" "bfree_one ?u = Some (Some b)"
    using bfind_lookup[OF xs one, of n] assms(2) b(1) by (simp_all add: bfind_def bfree_one_def)
  have rel: "release BcacheLock (?u\<lparr>bufs := (bufs s)(b := ?x)\<rparr>) = Ok () ?v"
    using free release_taken[OF free, of "?u\<lparr>bufs := (bufs s)(b := ?x)\<rparr>"]
    by (simp add: same_locks_def restore_locks_def taken_def)
  have "quiet ?v" using q by (rule quiet_cong) (simp add: same_locks_def)
  then have "acquiresleep (BufSleep b) ?v = Ok () (sl_taken (BufSleep b) ?v)"
    using unlocked my by (intro acquiresleep_free[where p = "the (myproc s)"]) (auto simp: myproc_def)
  then have "bget 1 n s = Ok b (sl_taken (BufSleep b) ?v)"
    using free(2) find by (simp add: bget_def k_simps acquire_free buf_ops u rel)
  then show ?thesis using b unlocked by blast
qed

lemma iderw_read:
  assumes "quiet s" and "b_locked s b" and "\<not> b_valid (bufs s b)" and "\<not> b_dirty (bufs s b)"
    and "b_dev (bufs s b) = 1" and "b_no (bufs s b) < disksize s"
  shows "iderw b s = Ok () (s\<lparr>bufs := (bufs s)(b := (bufs s b)\<lparr>b_data := dblock (memdisk s) (b_no (bufs s b)),
    b_valid := True\<rparr>)\<rparr>)"
  using assms by (simp add: iderw_def k_simps holdingsleep_quiet buf_ops)

lemma iderw_write:
  assumes "quiet s" and "b_locked s b" and "b_dirty (bufs s b)"
    and "b_dev (bufs s b) = 1" and "b_no (bufs s b) < disksize s"
  shows "iderw b s = Ok () (s\<lparr>bufs := (bufs s)(b := (bufs s b)\<lparr>b_dirty := False, b_valid := True\<rparr>),
    memdisk := dput (b_no (bufs s b)) (b_data (bufs s b)) (memdisk s),
    disk_writes := disk_writes s @ [(b_no (bufs s b), b_data (bufs s b))]\<rparr>)"
  using assms by (simp add: iderw_def k_simps holdingsleep_quiet buf_ops)

section \<open>Refinement of the abstract cache\<close>

text \<open>What no cache operation changes, except that it may wake sleeping processes.\<close>

definition woken_only :: "(nat \<Rightarrow> proc) \<Rightarrow> (nat \<Rightarrow> proc) \<Rightarrow> bool" where
  "woken_only f g \<longleftrightarrow> (\<forall>p. g p = f p \<or> p_state (f p) = SLEEPING \<and> g p = (f p)\<lparr>p_state := RUNNABLE\<rparr>)"

definition bio_frame :: "'x bio_state_scheme \<Rightarrow> 'x bio_state_scheme \<Rightarrow> bool" where
  "bio_frame s t \<longleftrightarrow> same_locks t s \<and> mem t = mem s \<and> kend t = kend s \<and> use_lock t = use_lock s \<and>
     freelist t = freelist s \<and> woken_only (ptable s) (ptable t) \<and> initproc t = initproc s \<and>
     nextpid t = nextpid s \<and> cpu_proc t = cpu_proc s \<and> disksize t = disksize s \<and>
     (\<forall>i. slocks t (InodeSleep i) = slocks s (InodeSleep i)) \<and> bio_state.more t = bio_state.more s"

lemma woken_only_refl: "woken_only f f"
  by (simp add: woken_only_def)

lemma woken_only_trans:
  assumes "woken_only f g" and "woken_only g h"
  shows "woken_only f h"
  unfolding woken_only_def
proof
  fix p
  show "h p = f p \<or> p_state (f p) = SLEEPING \<and> h p = (f p)\<lparr>p_state := RUNNABLE\<rparr>"
    using assms unfolding woken_only_def by (cases "g p = f p") (auto dest!: spec[of _ p])
qed

lemma woken_only_wake: "woken_only (ptable s) (ptable (wake_all ch s))"
  by (simp add: woken_only_def wake_all_def woken_def)

interpretation bio_frame: kframe bio_frame
  by unfold_locales (auto simp: bio_frame_def same_locks_def woken_only_refl intro: woken_only_trans)

lemma dblock_dput_all:
  assumes "length d = sz * BSIZE" and "n < sz" and "length bs = BSIZE"
  shows "dblock (dput n bs d) = (dblock d)(n := bs)"
proof
  fix k
  have n: "(n + 1) * BSIZE \<le> length d"
    using assms(1,2) by (simp add: Suc_leI mult_le_mono1 flip: mult_Suc)
  show "dblock (dput n bs d) k = ((dblock d)(n := bs)) k"
  proof (cases "k < sz")
    case True
    then have "(k + 1) * BSIZE \<le> length d"
      using assms(1) by (simp add: Suc_leI mult_le_mono1 flip: mult_Suc)
    then show ?thesis using n assms(3) by (simp add: dblock_dput)
  next
    case False
    then have k: "length d \<le> k * BSIZE" using assms(1) by simp
    moreover have "length (dput n bs d) = length d" using n assms(3) by (rule length_dput[rotated])
    ultimately have "dblock (dput n bs d) k = []" "dblock d k = []"
      by (simp_all add: dblock_def chunk_def)
    then show ?thesis using False assms(2) by auto
  qed
qed

text \<open>A cache state is known by its lookups.\<close>

lemma held_SomeD:
  assumes "bc_inv s" and "held s n = Some b"
  shows "b < NBUF \<and> b_dev (bufs s b) = 1 \<and> b_no (bufs s b) = n \<and> b_locked s b \<and> lookup s n = Some b \<and>
    b_valid (bufs s b) \<and> n < disksize s \<and> length (b_data (bufs s b)) = BSIZE \<and> refcnt (bufs s b) = 1 \<and>
    view s n = b_data (bufs s b)"
proof -
  have one: "one_each s" using assms(1) by (simp add: bc_inv_def)
  have l: "lookup s n = Some b" "b_locked s b"
    using assms(2) by (auto simp: held_def split: option.splits if_splits)
  then have b: "b < NBUF" "b_dev (bufs s b) = 1" "b_no (bufs s b) = n"
    using one by (simp_all add: lookup_Some)
  moreover have "buf_ok s b" using assms(1) b(1) by (simp add: bc_inv_def)
  ultimately show ?thesis using l by (auto simp: buf_ok_def view_def)
qed

lemma clean_view:
  assumes "bc_inv s" and "n \<notin> dirty s" and "held s n = None"
  shows "view s n = dblock (memdisk s) n"
proof (cases "lookup s n")
  case None
  then show ?thesis by (simp add: view_def)
next
  case (Some b)
  have one: "one_each s" using assms(1) by (simp add: bc_inv_def)
  then have b: "b < NBUF" "b_dev (bufs s b) = 1" "b_no (bufs s b) = n"
    using Some by (simp_all add: lookup_Some)
  moreover have "buf_ok s b" using assms(1) b(1) by (simp add: bc_inv_def)
  moreover have "\<not> b_locked s b" "\<not> b_dirty (bufs s b)"
    using assms(2,3) Some b by (auto simp: held_def dirty_def split: if_splits)
  ultimately show ?thesis
    using Some by (auto simp: buf_ok_def view_def)
qed

lemma lookup_cong:
  "(\<And>i. i < NBUF \<Longrightarrow> b_dev (bufs t i) = b_dev (bufs s i)) \<Longrightarrow> (\<And>i. i < NBUF \<Longrightarrow> b_no (bufs t i) = b_no (bufs s i)) \<Longrightarrow>
   lookup t = lookup s"
  unfolding lookup_def by (intro ext find_cong) auto

lemma one_each_cong:
  "one_each s \<Longrightarrow> (\<And>i. i < NBUF \<Longrightarrow> b_dev (bufs t i) = b_dev (bufs s i)) \<Longrightarrow> (\<And>i. i < NBUF \<Longrightarrow> b_no (bufs t i) = b_no (bufs s i)) \<Longrightarrow>
   one_each t"
  by (simp add: one_each_def)

lemma sl_taken_sel [simp]:
  "bufs (sl_taken sl s) = bufs s" "memdisk (sl_taken sl s) = memdisk s" "disksize (sl_taken sl s) = disksize s"
  "disk_writes (sl_taken sl s) = disk_writes s" "myproc (sl_taken sl s) = myproc s"
  "sl_locked (slocks (sl_taken sl s) k) = (if k = sl then 1 else sl_locked (slocks s k))"
  "same_locks (sl_taken sl s) u \<longleftrightarrow> same_locks s u" "ptable (sl_taken sl s) = ptable s"
  "cpuid (sl_taken sl s) = cpuid s" "cpus (sl_taken sl s) = cpus s" "locks (sl_taken sl s) = locks s"
  by (simp_all add: sl_taken_def same_locks_def myproc_def)

lemma sl_freed_sel [simp]:
  "bufs (sl_freed sl s) = bufs s" "memdisk (sl_freed sl s) = memdisk s" "disksize (sl_freed sl s) = disksize s"
  "disk_writes (sl_freed sl s) = disk_writes s" "myproc (sl_freed sl s) = myproc s"
  "sl_locked (slocks (sl_freed sl s) k) = (if k = sl then 0 else sl_locked (slocks s k))"
  "same_locks (sl_freed sl s) u \<longleftrightarrow> same_locks s u"
  "cpuid (sl_freed sl s) = cpuid s" "cpus (sl_freed sl s) = cpus s" "locks (sl_freed sl s) = locks s"
  by (simp_all add: sl_freed_def wake_all_def same_locks_def myproc_def)

lemma myproc_bufs [simp]: "myproc (s\<lparr>bufs := x\<rparr>) = myproc s"
  by (simp add: myproc_def)

lemma quiet_taken: "quiet s \<Longrightarrow> quiet (sl_taken sl (s\<lparr>bufs := x\<rparr>))"
  by (rule quiet_cong[of s]) (simp_all add: same_locks_def sl_taken_def)

lemma sl_taken_bufs: "(sl_taken sl s)\<lparr>bufs := x\<rparr> = sl_taken sl (s\<lparr>bufs := x\<rparr>)"
  by (cases s) (simp add: sl_taken_def myproc_def)

lemma lru_upd: "lru xs bs \<Longrightarrow> b_next x = b_next (bs b) \<Longrightarrow> b_prev x = b_prev (bs b) \<Longrightarrow> lru xs (bs(b := x))"
  by (erule lru_cong) auto

lemma lru_ex_upd:
  "\<exists>xs. lru xs bs \<Longrightarrow> b_next x = b_next (bs b) \<Longrightarrow> b_prev x = b_prev (bs b) \<Longrightarrow> \<exists>xs. lru xs (bs(b := x))"
  using lru_upd by blast

lemma bio_frame_taken: "bio_frame s (sl_taken (BufSleep b) (s\<lparr>bufs := x\<rparr>))"
  by (simp add: bio_frame_def sl_taken_def same_locks_def woken_only_refl)

text \<open>\<open>bread\<close>: the block is in use afterwards, and nothing else changed.\<close>

lemma bread_cached:
  assumes inv: "bc_inv s" and b: "lookup s n = Some b" and free: "held s n = None"
  shows "\<exists>t. bread 1 n s = Ok b t \<and> bc_inv t \<and> babs t = (babs s)\<lparr>bc_held := (held s)(n \<mapsto> b)\<rparr> \<and> bio_frame s t"
proof -
  have one: "one_each s" using inv by (simp add: bc_inv_def)
  have bb: "b < NBUF" "b_dev (bufs s b) = 1" "b_no (bufs s b) = n" "\<not> b_locked s b"
    using b free one lookup_Some[OF one, of n b] by (auto simp: held_def split: if_splits)
  let ?v = "s\<lparr>bufs := (bufs s)(b := (bufs s b)\<lparr>refcnt := 1\<rparr>)\<rparr>"
  let ?t = "sl_taken (BufSleep b) ?v"
  have ok: "buf_ok s b" using inv bb(1) by (simp add: bc_inv_def)
  have look: "lookup ?t = lookup s" by (rule lookup_cong) auto
  have "bread 1 n s = Ok b ?t"
    using ok bb by (simp add: bread_def k_simps bget_cached[OF inv b bb(4)] buf_ops buf_ok_def)
  moreover have "bc_inv ?t"
  proof -
    have "quiet ?t" using inv by (simp add: bc_inv_def quiet_taken)
    moreover have "\<exists>xs. lru xs (bufs ?t)"
      using inv lru_ex_upd[of "bufs s" "(bufs s b)\<lparr>refcnt := 1\<rparr>" b] by (simp add: bc_inv_def)
    moreover have "one_each ?t" using one by (rule one_each_cong) auto
    moreover have "buf_ok ?t i" if "i < NBUF" for i
      using inv that bb by (auto simp: bc_inv_def buf_ok_def)
    ultimately show ?thesis using inv by (simp add: bc_inv_def)
  qed
  moreover have "view ?t = view s"
    by (rule ext) (auto simp: view_def look split: option.splits)
  moreover have "dirty ?t = dirty s"
    by (auto simp: dirty_def)
  moreover have "held ?t = (held s)(n \<mapsto> b)"
  proof
    fix m
    show "held ?t m = ((held s)(n \<mapsto> b)) m"
      using b lookup_SomeD[OF b] lookup_SomeD[of s m] by (cases "lookup s m") (auto simp: held_def look)
  qed
  ultimately show ?thesis
    using bio_frame_taken[of s b] by (intro exI[of _ ?t]) (simp add: babs_def)
qed

lemma bread_recycled:
  assumes inv: "bc_inv s" and new: "lookup s n = None" and n: "n < disksize s"
    and room: "card (dirty s \<union> dom (held s)) < NBUF"
  shows "\<exists>b t. bread 1 n s = Ok b t \<and> bc_inv t \<and> babs t = (babs s)\<lparr>bc_held := (held s)(n \<mapsto> b)\<rparr> \<and> bio_frame s t"
proof -
  have one: "one_each s" and len: "length (memdisk s) = disksize s * BSIZE" using inv by (simp_all add: bc_inv_def)
  obtain b where b: "b < NBUF" "refcnt (bufs s b) = 0" "\<not> b_dirty (bufs s b)" "\<not> b_locked s b" and
    get: "bget 1 n s = Ok b (sl_taken (BufSleep b) (s\<lparr>bufs := (bufs s)(b := (bufs s b)\<lparr>b_dev := 1, b_no := n,
       b_valid := False, b_dirty := False, refcnt := 1\<rparr>)\<rparr>))"
    using bget_recycle[OF inv new room] by blast
  let ?x = "(bufs s b)\<lparr>b_dev := 1, b_no := n, b_dirty := False, refcnt := 1, b_data := dblock (memdisk s) n, b_valid := True\<rparr>"
  let ?t = "sl_taken (BufSleep b) (s\<lparr>bufs := (bufs s)(b := ?x)\<rparr>)"
  let ?u = "sl_taken (BufSleep b) (s\<lparr>bufs := (bufs s)(b := (bufs s b)\<lparr>b_dev := 1, b_no := n,
       b_valid := False, b_dirty := False, refcnt := 1\<rparr>)\<rparr>)"
  have "quiet ?u" using inv by (simp add: bc_inv_def quiet_taken)
  then have "iderw b ?u = Ok () ?t"
    using n iderw_read[of ?u b] by (simp add: sl_taken_bufs)
  then have rd: "bread 1 n s = Ok b ?t"
    by (simp add: bread_def k_simps get buf_ops)
  have bsize: "length (dblock (memdisk s) n) = BSIZE"
    using n len by (intro length_dblock) (simp add: Suc_leI mult_le_mono1 flip: mult_Suc)
  have one': "one_each ?t"
    using one new unfolding one_each_def lookup_None by auto
  have look: "lookup ?t m = (if m = n then Some b else if lookup s m = Some b then None else lookup s m)" for m
  proof -
    have "lookup ?t n = Some b" using one' b(1) by (simp add: lookup_Some)
    moreover have "lookup ?t m = None" if "m \<noteq> n" "lookup s m = Some b"
      using that one unfolding lookup_None lookup_Some[OF one] by (auto simp: one_each_def)
    moreover have "lookup ?t m = lookup s m" if "m \<noteq> n" "lookup s m \<noteq> Some b"
    proof (cases "lookup s m")
      case None
      then have "lookup ?t m = None"
        using that(1) unfolding lookup_None by auto
      with None show ?thesis by simp
    next
      case (Some c)
      then have "lookup ?t m = Some c"
        using that one' lookup_SomeD[OF Some] by (simp add: lookup_Some)
      with Some show ?thesis by simp
    qed
    ultimately show ?thesis by auto
  qed
  have victim: "view s m = dblock (memdisk s) m" if "lookup s m = Some b" for m
    using that b inv by (intro clean_view) (auto simp: dirty_iff[OF one] held_def)
  have "bc_inv ?t"
  proof -
    have "quiet ?t" using inv by (simp add: bc_inv_def quiet_taken)
    moreover have "\<exists>xs. lru xs (bufs ?t)"
      using inv lru_ex_upd[of "bufs s" ?x b] by (simp add: bc_inv_def)
    moreover have "buf_ok ?t i" if "i < NBUF" for i
      using inv that bsize n by (auto simp: bc_inv_def buf_ok_def)
    ultimately show ?thesis using inv one' by (simp add: bc_inv_def)
  qed
  moreover have "view ?t = view s"
  proof
    fix m
    have "view s n = dblock (memdisk s) n" using new by (simp add: view_def)
    then show "view ?t m = view s m"
      using victim[of m] by (cases "lookup s m") (auto simp: view_def look)
  qed
  moreover have "dirty ?t = dirty s"
    using b by (auto simp: dirty_def) 
  moreover have "held ?t = (held s)(n \<mapsto> b)"
  proof
    fix m
    show "held ?t m = ((held s)(n \<mapsto> b)) m"
      using b(4) by (cases "lookup s m") (auto simp: held_def look)
  qed
  ultimately show ?thesis
    using bio_frame_taken[of s b] rd by (intro exI[of _ b] exI[of _ ?t]) (simp add: babs_def)
qed

lemma bread_spec:
  assumes "bc_inv s" and "n < disksize s" and "held s n = None"
    and "n \<in> dirty s \<or> card (dirty s \<union> dom (held s)) < NBUF"
  shows "\<exists>b t. bread 1 n s = Ok b t \<and> bc_inv t \<and> babs t = (babs s)\<lparr>bc_held := (held s)(n \<mapsto> b)\<rparr> \<and> bio_frame s t"
proof (cases "lookup s n")
  case None
  then have "n \<notin> dirty s" by (auto simp: dirty_def lookup_None)
  then show ?thesis using bread_recycled[OF assms(1) None assms(2)] assms(4) by blast
next
  case (Some b)
  then show ?thesis using bread_cached[OF assms(1) Some assms(3)] by blast
qed

text \<open>Changes to a buffer in use that keep its identity.\<close>

lemma held_update:
  assumes inv: "bc_inv s" and h: "held s n = Some b"
    and x: "b_dev x = 1" "b_no x = n" "b_valid x" "length (b_data x) = BSIZE" "refcnt x = 1"
      "b_next x = b_next (bufs s b)" "b_prev x = b_prev (bufs s b)"
  defines "t \<equiv> s\<lparr>bufs := (bufs s)(b := x)\<rparr>"
  shows "bc_inv t \<and> babs t = (babs s)\<lparr>bc_view := (view s)(n := b_data x),
    bc_dirty := (if b_dirty x then insert n (dirty s) else dirty s - {n})\<rparr>"
proof -
  note b = held_SomeD[OF inv h]
  have one: "one_each s" using inv by (simp add: bc_inv_def)
  have look: "lookup t = lookup s" unfolding t_def using b x by (intro lookup_cong) auto
  have one': "one_each t" unfolding t_def using b x by (intro one_each_cong[OF one]) auto
  have "bc_inv t"
  proof -
    have "quiet t" using inv unfolding t_def by (auto simp: bc_inv_def same_locks_def intro: quiet_cong[of s])
    moreover have "\<exists>xs. lru xs (bufs t)"
      using inv lru_ex_upd[of "bufs s" x b] x unfolding t_def by (simp add: bc_inv_def)
    moreover have "buf_ok t i" if "i < NBUF" for i
      using inv that b x unfolding t_def by (auto simp: bc_inv_def buf_ok_def)
    ultimately show ?thesis using inv one' unfolding t_def by (simp add: bc_inv_def)
  qed
  have at_n: "lookup s n = Some b" using b by simp
  have same: "c = b \<longleftrightarrow> m = n" if "lookup s m = Some c" for c m
    using at_n that lookup_SomeD[OF at_n] lookup_SomeD[OF that] by (metis option.inject)
  have bufs: "bufs t c = (if c = b then x else bufs s c)" for c
    by (simp add: t_def)
  have "view t = (view s)(n := b_data x)"
  proof
    fix m
    show "view t m = ((view s)(n := b_data x)) m"
      using at_n same[of m] by (cases "lookup s m") (auto simp: view_def look bufs, simp add: t_def)
  qed
  moreover have "dirty t = (if b_dirty x then insert n (dirty s) else dirty s - {n})"
  proof (rule set_eqI)
    fix m
    show "m \<in> dirty t \<longleftrightarrow> m \<in> (if b_dirty x then insert n (dirty s) else dirty s - {n})"
      using at_n same[of m] by (cases "lookup s m") (auto simp: dirty_iff[OF one] dirty_iff[OF one'] look bufs)
  qed
  moreover have "slocks t = slocks s" by (simp add: t_def)
  then have "held t = held s"
    by (intro ext) (simp add: held_def look split: option.split)
  ultimately show ?thesis
    using \<open>bc_inv t\<close> by (simp add: babs_def) (simp add: t_def)
qed

lemma bput_spec:
  assumes "bc_inv s" and "held s n = Some b" and "length d = BSIZE"
  shows "\<exists>t. bput b d s = Ok () t \<and> bc_inv t \<and> babs t = (babs s)\<lparr>bc_view := (view s)(n := d)\<rparr> \<and> bio_frame s t"
proof -
  note b = held_SomeD[OF assms(1,2)]
  let ?x = "(bufs s b)\<lparr>b_data := d\<rparr>"
  have "n \<in> dirty s \<longleftrightarrow> b_dirty (bufs s b)"
    using b assms(1) by (auto simp: dirty_iff bc_inv_def)
  then have "(if b_dirty (bufs s b) then insert n (dirty s) else dirty s - {n}) = dirty s"
    by auto
  then have "babs (s\<lparr>bufs := (bufs s)(b := ?x)\<rparr>) = (babs s)\<lparr>bc_view := (view s)(n := d)\<rparr>"
    and "bc_inv (s\<lparr>bufs := (bufs s)(b := ?x)\<rparr>)"
    using held_update[OF assms(1,2), of ?x] b assms(3) by (simp_all add: babs_def)
  then show ?thesis
    by (simp add: buf_ops k_simps bio_frame_def same_locks_def woken_only_refl)
qed

lemma pin_spec:
  assumes "bc_inv s" and "held s n = Some b"
  shows "\<exists>t. set_buf b (\<lambda>x. x\<lparr>b_dirty := True\<rparr>) s = Ok () t \<and> bc_inv t \<and>
    babs t = (babs s)\<lparr>bc_dirty := insert n (dirty s)\<rparr> \<and> bio_frame s t"
proof -
  note b = held_SomeD[OF assms(1,2)]
  let ?x = "(bufs s b)\<lparr>b_dirty := True\<rparr>"
  have "(view s)(n := b_data (bufs s b)) = view s" using b by (intro ext) auto
  then have "babs (s\<lparr>bufs := (bufs s)(b := ?x)\<rparr>) = (babs s)\<lparr>bc_dirty := insert n (dirty s)\<rparr>"
    and "bc_inv (s\<lparr>bufs := (bufs s)(b := ?x)\<rparr>)"
    using held_update[OF assms(1,2), of ?x] b by (simp_all add: babs_def)
  then show ?thesis
    by (simp add: buf_ops k_simps bio_frame_def same_locks_def woken_only_refl)
qed

lemma disk_update:
  assumes inv: "bc_inv s" and h: "held s n = Some b"
  defines "t \<equiv> s\<lparr>memdisk := dput n (view s n) (memdisk s), disk_writes := disk_writes s @ [(n, view s n)]\<rparr>"
  shows "bc_inv t \<and> babs t = (babs s)\<lparr>bc_disk := (dblock (memdisk s))(n := view s n),
    bc_writes := disk_writes s @ [(n, view s n)]\<rparr>"
proof -
  note b = held_SomeD[OF inv h]
  have one: "one_each s" and len: "length (memdisk s) = disksize s * BSIZE"
    using inv by (simp_all add: bc_inv_def)
  have n: "n < disksize s" and v: "length (view s n) = BSIZE" using b by auto
  have disk: "dblock (memdisk t) = (dblock (memdisk s))(n := view s n)"
    unfolding t_def using dblock_dput_all[OF len n v] by simp
  have sel: "bufs t = bufs s" "slocks t = slocks s" "disksize t = disksize s" "lookup t = lookup s" "one_each t = one_each s"
    "myproc t = myproc s" "disk_writes t = disk_writes s @ [(n, view s n)]"
    by (simp_all add: t_def lookup_def one_each_def myproc_def fun_eq_iff)
  have "n * BSIZE + BSIZE \<le> disksize s * BSIZE"
    using mult_le_mono1[of "Suc n" "disksize s" BSIZE] n by simp
  then have "length (memdisk t) = disksize s * BSIZE"
    unfolding t_def using len v by (simp add: length_dput)
  moreover have "quiet t"
    using inv by (auto simp: bc_inv_def same_locks_def t_def intro: quiet_cong[of s])
  moreover have "buf_ok t i" if i: "i < NBUF" for i
  proof -
    have ok: "buf_ok s i" using inv i by (simp add: bc_inv_def)
    have "i = b" if "b_dev (bufs s i) = 1" "b_no (bufs s i) = n"
      using one i b that by (auto simp: one_each_def)
    then show ?thesis
      using ok b by (auto simp: buf_ok_def sel disk)
  qed
  ultimately have "bc_inv t"
    using inv by (simp add: bc_inv_def sel)
  moreover have "view t = view s"
    using b by (intro ext) (auto simp: view_def sel disk split: option.splits)
  moreover have "dirty t = dirty s" "held t = held s"
    by (simp_all add: dirty_def held_def sel fun_eq_iff split: option.split)
  ultimately show ?thesis
    by (simp add: babs_def disk sel)
qed

lemma bwrite_spec:
  assumes "bc_inv s" and "held s n = Some b"
  shows "\<exists>t. bwrite b s = Ok () t \<and> bc_inv t \<and>
    babs t = (babs s)\<lparr>bc_disk := (dblock (memdisk s))(n := view s n), bc_dirty := dirty s - {n},
      bc_writes := disk_writes s @ [(n, view s n)]\<rparr> \<and> bio_frame s t"
proof -
  note b = held_SomeD[OF assms]
  have q: "quiet s" using assms(1) by (simp add: bc_inv_def)
  let ?x = "(bufs s b)\<lparr>b_dirty := False, b_valid := True\<rparr>"
  let ?u = "s\<lparr>bufs := (bufs s)(b := ?x)\<rparr>"
  let ?t = "?u\<lparr>memdisk := dput n (view s n) (memdisk s), disk_writes := disk_writes s @ [(n, view s n)]\<rparr>"
  have "quiet (s\<lparr>bufs := y\<rparr>)" for y
    by (rule quiet_cong[OF q]) (simp add: same_locks_def)
  then have run: "bwrite b s = Ok () ?t"
    using b q by (simp add: bwrite_def k_simps holdingsleep_quiet buf_ops iderw_write)
  have "(view s)(n := b_data (bufs s b)) = view s" using b by (intro ext) auto
  then have u: "bc_inv ?u" "babs ?u = (babs s)\<lparr>bc_dirty := dirty s - {n}\<rparr>"
    using held_update[OF assms, of ?x] b by (simp_all add: babs_def)
  then have v: "view ?u = view s" "held ?u = held s" "dirty ?u = dirty s - {n}"
    by (simp_all add: babs_def)
  have "held ?u n = Some b" using assms(2) by (simp add: v)
  note d = disk_update[OF u(1) this]
  have "bc_inv ?t \<and> babs ?t = (babs ?u)\<lparr>bc_disk := (dblock (memdisk s))(n := view s n),
      bc_writes := disk_writes s @ [(n, view s n)]\<rparr>"
    using d by (simp add: v)
  then show ?thesis
    using run u(2) by (simp add: bio_frame_def same_locks_def woken_only_refl babs_def)
qed

lemma brelse_eq:
  assumes "bc_inv s" and "held s n = Some b"
  shows "brelse b s = Ok () ((sl_freed (BufSleep b) s)\<lparr>bufs := front b ((bufs s)(b := (bufs s b)\<lparr>refcnt := 0\<rparr>))\<rparr>)"
proof -
  note b = held_SomeD[OF assms]
  have q: "quiet s" using assms(1) by (simp add: bc_inv_def)
  let ?f = "sl_freed (BufSleep b) s"
  have "same_locks ?f s" by (simp add: same_locks_def)
  then have qf: "quiet ?f" using q by (rule quiet_cong[rotated])
  then have free: "irq_ok ?f" "lock_free BcacheLock ?f" by (simp_all add: quiet_def)
  let ?bs = "front b ((bufs s)(b := (bufs s b)\<lparr>refcnt := 0\<rparr>))"
  have u: "bufs (taken BcacheLock ?f) = bufs s" by (simp add: taken_def)
  have "release BcacheLock ((taken BcacheLock ?f)\<lparr>bufs := ?bs\<rparr>) = Ok () (?f\<lparr>bufs := ?bs\<rparr>)"
    using release_taken[OF free, of "(taken BcacheLock ?f)\<lparr>bufs := ?bs\<rparr>"]
    by (simp add: same_locks_def) (simp add: restore_locks_def taken_def)
  then show ?thesis
    using b q free by (simp add: brelse_def k_simps holdingsleep_quiet releasesleep_quiet acquire_free buf_ops
        u to_front_eq)
qed

lemma brelse_spec:
  assumes inv: "bc_inv s" and h: "held s n = Some b" and settled: "n \<in> dirty s \<or> view s n = dblock (memdisk s) n"
  shows "\<exists>t. brelse b s = Ok () t \<and> bc_inv t \<and> babs t = (babs s)\<lparr>bc_held := (held s)(n := None)\<rparr> \<and> bio_frame s t"
proof -
  note b = held_SomeD[OF inv h]
  have one: "one_each s" using inv by (simp add: bc_inv_def)
  let ?bs = "front b ((bufs s)(b := (bufs s b)\<lparr>refcnt := 0\<rparr>))"
  let ?t = "(sl_freed (BufSleep b) s)\<lparr>bufs := ?bs\<rparr>"
  have "unlinked (?bs i) = unlinked (((bufs s)(b := (bufs s b)\<lparr>refcnt := 0\<rparr>)) i)" for i
    by (rule unlinked_front)
  note f = unlinked_eqD[OF this]
  have sel: "b_dev (?bs i) = b_dev (bufs s i)" "b_no (?bs i) = b_no (bufs s i)" "b_data (?bs i) = b_data (bufs s i)"
    "b_valid (?bs i) = b_valid (bufs s i)" "b_dirty (?bs i) = b_dirty (bufs s i)"
    "refcnt (?bs i) = (if i = b then 0 else refcnt (bufs s i))" for i
    using f[of i] by auto
  have look: "lookup ?t = lookup s" by (rule lookup_cong) (simp_all add: sel)
  have one': "one_each ?t" by (rule one_each_cong[OF one]) (simp_all add: sel)
  have lk: "sl_locked (slocks ?t (BufSleep i)) = (if i = b then 0 else sl_locked (slocks s (BufSleep i)))" for i
    by simp
  have d: "n \<in> dirty s \<longleftrightarrow> b_dirty (bufs s b)"
    using b by (auto simp: dirty_iff[OF one])
  have "bc_inv ?t"
  proof -
    have "same_locks ?t s" by (simp add: same_locks_def sl_freed_def)
    then have "quiet ?t" using inv by (auto simp: bc_inv_def intro: quiet_cong)
    moreover have "\<exists>xs. lru xs (bufs ?t)"
    proof -
      have "\<exists>xs. lru xs ((bufs s)(b := (bufs s b)\<lparr>refcnt := 0\<rparr>))"
        using inv by (intro lru_ex_upd) (simp_all add: bc_inv_def)
      then show ?thesis using lru_to_front b by auto
    qed
    moreover have "buf_ok ?t i" if "i < NBUF" for i
      using inv that b settled d by (auto simp: bc_inv_def buf_ok_def sel lk)
    ultimately show ?thesis using inv one' by (simp add: bc_inv_def)
  qed
  moreover have "view ?t = view s"
    by (intro ext) (simp add: view_def look sel split: option.split)
  moreover have "dirty ?t = dirty s"
    by (simp add: dirty_def sel)
  moreover have "held ?t = (held s)(n := None)"
  proof
    fix m
    have "c = b \<longleftrightarrow> m = n" if "lookup s m = Some c" for c
      using b lookup_SomeD[OF that] that by (metis option.inject)
    then show "held ?t m = ((held s)(n := None)) m"
      by (cases "lookup s m") (auto simp: held_def look lk)
  qed
  moreover have "bio_frame s ?t"
    using woken_only_wake[of "s\<lparr>slocks := (slocks s)(BufSleep b := (slocks s (BufSleep b))\<lparr>sl_locked := 0, sl_pid := 0\<rparr>)\<rparr>"]
    by (simp add: bio_frame_def sl_freed_def same_locks_def) (simp add: wake_all_def)
  ultimately show ?thesis
    using brelse_eq[OF inv h] by (simp add: babs_def)
qed

section \<open>The cache contract\<close>

text \<open>
  What the log and the file system rely on, stated over the abstract cache. \<open>room\<close> says that
  another block can be brought in.
\<close>

definition room :: "bcache \<Rightarrow> nat \<Rightarrow> bool" where
  "room c k \<longleftrightarrow> card (bc_dirty c \<union> dom (bc_held c)) + k \<le> NBUF"

locale block_cache =
  fixes rd :: "nat \<Rightarrow> ('s, 'b) km" and dat :: "'b \<Rightarrow> 's \<Rightarrow> uchar list" and put :: "'b \<Rightarrow> uchar list \<Rightarrow> ('s, unit) km"
    and wr :: "'b \<Rightarrow> ('s, unit) km" and pin :: "'b \<Rightarrow> ('s, unit) km" and rel :: "'b \<Rightarrow> ('s, unit) km"
    and inv :: "'s \<Rightarrow> bool" and cabs :: "'s \<Rightarrow> bcache" and idx :: "'b \<Rightarrow> nat" and sz :: "'s \<Rightarrow> nat"
    and fr :: "'s \<Rightarrow> 's \<Rightarrow> bool"
  assumes rd_ok: "inv s \<Longrightarrow> n < sz s \<Longrightarrow> bc_held (cabs s) n = None \<Longrightarrow>
      n \<in> bc_dirty (cabs s) \<or> room (cabs s) 1 \<Longrightarrow>
      \<exists>b t. rd n s = Ok b t \<and> inv t \<and> cabs t = (cabs s)\<lparr>bc_held := (bc_held (cabs s))(n \<mapsto> idx b)\<rparr> \<and> fr s t"
    and dat_ok: "inv s \<Longrightarrow> bc_held (cabs s) n = Some (idx b) \<Longrightarrow> dat b s = bc_view (cabs s) n"
    and dat_len: "inv s \<Longrightarrow> bc_held (cabs s) n = Some (idx b) \<Longrightarrow> length (bc_view (cabs s) n) = BSIZE"
    and put_ok: "inv s \<Longrightarrow> bc_held (cabs s) n = Some (idx b) \<Longrightarrow> length d = BSIZE \<Longrightarrow>
      \<exists>t. put b d s = Ok () t \<and> inv t \<and> cabs t = (cabs s)\<lparr>bc_view := (bc_view (cabs s))(n := d)\<rparr> \<and> fr s t"
    and wr_ok: "inv s \<Longrightarrow> bc_held (cabs s) n = Some (idx b) \<Longrightarrow>
      \<exists>t. wr b s = Ok () t \<and> inv t \<and> fr s t \<and>
        cabs t = (cabs s)\<lparr>bc_disk := (bc_disk (cabs s))(n := bc_view (cabs s) n), bc_dirty := bc_dirty (cabs s) - {n},
          bc_writes := bc_writes (cabs s) @ [(n, bc_view (cabs s) n)]\<rparr>"
    and pin_ok: "inv s \<Longrightarrow> bc_held (cabs s) n = Some (idx b) \<Longrightarrow>
      \<exists>t. pin b s = Ok () t \<and> inv t \<and> cabs t = (cabs s)\<lparr>bc_dirty := insert n (bc_dirty (cabs s))\<rparr> \<and> fr s t"
    and rel_ok: "inv s \<Longrightarrow> bc_held (cabs s) n = Some (idx b) \<Longrightarrow>
      n \<in> bc_dirty (cabs s) \<or> bc_view (cabs s) n = bc_disk (cabs s) n \<Longrightarrow>
      \<exists>t. rel b s = Ok () t \<and> inv t \<and> cabs t = (cabs s)\<lparr>bc_held := (bc_held (cabs s))(n := None)\<rparr> \<and> fr s t"
    and clean_ok: "inv s \<Longrightarrow> n \<notin> bc_dirty (cabs s) \<Longrightarrow> bc_held (cabs s) n = None \<Longrightarrow>
      bc_view (cabs s) n = bc_disk (cabs s) n"
    and fr_refl: "fr s s" and fr_trans: "fr s t \<Longrightarrow> fr t u \<Longrightarrow> fr s u" and fr_sz: "fr s t \<Longrightarrow> sz t = sz s"
begin

lemma settled:
  "inv s \<Longrightarrow> bc_held (cabs s) n = None \<Longrightarrow> n \<in> bc_dirty (cabs s) \<or> bc_view (cabs s) n = bc_disk (cabs s) n"
  using clean_ok by blast

text \<open>Reading a block and letting go of it changes nothing.\<close>

lemma read_block:
  assumes "inv s" and "n < sz s" and "bc_held (cabs s) n = None" and "n \<in> bc_dirty (cabs s) \<or> room (cabs s) 1"
  shows "\<exists>t. kbind (rd n) (\<lambda>b. kbind (kget (dat b)) (\<lambda>d. kseq (rel b) (kret (f d)))) s = Ok (f (bc_view (cabs s) n)) t \<and>
    inv t \<and> cabs t = cabs s \<and> fr s t"
proof -
  obtain b t where t: "rd n s = Ok b t" "inv t" "cabs t = (cabs s)\<lparr>bc_held := (bc_held (cabs s))(n \<mapsto> idx b)\<rparr>" "fr s t"
    using rd_ok[OF assms] by blast
  have h: "bc_held (cabs t) n = Some (idx b)" by (simp add: t(3))
  obtain u where u: "rel b t = Ok () u" "inv u" "cabs u = (cabs t)\<lparr>bc_held := (bc_held (cabs t))(n := None)\<rparr>" "fr t u"
    using rel_ok[OF t(2) h] settled[OF assms(1,3)] by (auto simp: t(3))
  have "(bc_held (cabs s))(n := None) = bc_held (cabs s)" using assms(3) by auto
  then have "cabs u = cabs s" by (simp add: u(3) t(3))
  then show ?thesis
    using u t fr_trans dat_ok[OF t(2) h] by (auto simp: k_simps)
qed

text \<open>Writing a block through to the disk.\<close>

lemma write_block:
  assumes "inv s" and "n < sz s" and "bc_held (cabs s) n = None" and "n \<in> bc_dirty (cabs s) \<or> room (cabs s) 1"
    and "length (f (bc_view (cabs s) n)) = BSIZE"
  shows "\<exists>t. kbind (rd n) (\<lambda>b. kbind (kget (dat b)) (\<lambda>d. kseq (put b (f d)) (kseq (wr b) (rel b)))) s = Ok () t \<and>
    inv t \<and> fr s t \<and>
    cabs t = (cabs s)\<lparr>bc_view := (bc_view (cabs s))(n := f (bc_view (cabs s) n)),
      bc_disk := (bc_disk (cabs s))(n := f (bc_view (cabs s) n)), bc_dirty := bc_dirty (cabs s) - {n},
      bc_writes := bc_writes (cabs s) @ [(n, f (bc_view (cabs s) n))]\<rparr>"
proof -
  let ?d = "f (bc_view (cabs s) n)"
  obtain b t where t: "rd n s = Ok b t" "inv t" "cabs t = (cabs s)\<lparr>bc_held := (bc_held (cabs s))(n \<mapsto> idx b)\<rparr>" "fr s t"
    using rd_ok[OF assms(1-4)] by blast
  have h: "bc_held (cabs t) n = Some (idx b)" by (simp add: t(3))
  have d: "dat b t = bc_view (cabs s) n" using dat_ok[OF t(2) h] by (simp add: t(3))
  obtain u where u: "put b ?d t = Ok () u" "inv u" "cabs u = (cabs t)\<lparr>bc_view := (bc_view (cabs t))(n := ?d)\<rparr>" "fr t u"
    using put_ok[OF t(2) h assms(5)] by blast
  have h: "bc_held (cabs u) n = Some (idx b)" by (simp add: u(3) h)
  obtain v where v: "wr b u = Ok () v" "inv v" "fr u v" "cabs v = (cabs u)\<lparr>bc_disk := (bc_disk (cabs u))(n := ?d),
      bc_dirty := bc_dirty (cabs u) - {n}, bc_writes := bc_writes (cabs u) @ [(n, ?d)]\<rparr>"
    using wr_ok[OF u(2) h] by (auto simp: u(3))
  have h: "bc_held (cabs v) n = Some (idx b)" by (simp add: v(4) h)
  obtain w where w: "rel b v = Ok () w" "inv w" "cabs w = (cabs v)\<lparr>bc_held := (bc_held (cabs v))(n := None)\<rparr>" "fr v w"
    using rel_ok[OF v(2) h] by (auto simp: v(4) u(3))
  have "(bc_held (cabs s))(n := None) = bc_held (cabs s)" using assms(3) by auto
  then have "cabs w = (cabs s)\<lparr>bc_view := (bc_view (cabs s))(n := ?d), bc_disk := (bc_disk (cabs s))(n := ?d),
      bc_dirty := bc_dirty (cabs s) - {n}, bc_writes := bc_writes (cabs s) @ [(n, ?d)]\<rparr>"
    by (simp add: w(3) v(4) u(3) t(3))
  moreover have "fr s w"
    using t(4) u(4) v(3) w(4) by (blast intro: fr_trans)
  moreover have "kbind (rd n) (\<lambda>b. kbind (kget (dat b)) (\<lambda>d. kseq (put b (f d)) (kseq (wr b) (rel b)))) s = Ok () w"
    by (simp add: k_simps t(1) u(1) v(1) w(1) d)
  ultimately show ?thesis
    using w(2) by blast
qed

end

interpretation bc: block_cache "bread 1" "\<lambda>b s. b_data (bufs s b)" bput bwrite
  "\<lambda>b. set_buf b (\<lambda>x. x\<lparr>b_dirty := True\<rparr>)" brelse bc_inv babs "\<lambda>b. b" disksize bio_frame
proof unfold_locales
  fix s t u :: "'x bio_state_scheme" and n b d
  show "bc_inv s \<Longrightarrow> n < disksize s \<Longrightarrow> bc_held (babs s) n = None \<Longrightarrow> n \<in> bc_dirty (babs s) \<or> room (babs s) 1 \<Longrightarrow>
      \<exists>b t. bread 1 n s = Ok b t \<and> bc_inv t \<and> babs t = (babs s)\<lparr>bc_held := (bc_held (babs s))(n \<mapsto> b)\<rparr> \<and> bio_frame s t"
    using bread_spec[of s n] by (auto simp: room_def)
  assume inv: "bc_inv s"
  show "n \<notin> bc_dirty (babs s) \<Longrightarrow> bc_held (babs s) n = None \<Longrightarrow> bc_view (babs s) n = bc_disk (babs s) n"
    using clean_view[OF inv] by simp
  assume h: "bc_held (babs s) n = Some b"
  then have h': "held s n = Some b" by simp
  show "b_data (bufs s b) = bc_view (babs s) n" "length (bc_view (babs s) n) = BSIZE"
    using held_SomeD[OF inv h'] by simp_all
  show "length d = BSIZE \<Longrightarrow> \<exists>t. bput b d s = Ok () t \<and> bc_inv t \<and>
      babs t = (babs s)\<lparr>bc_view := (bc_view (babs s))(n := d)\<rparr> \<and> bio_frame s t"
    using bput_spec[OF inv h'] by simp
  show "\<exists>t. bwrite b s = Ok () t \<and> bc_inv t \<and> bio_frame s t \<and>
      babs t = (babs s)\<lparr>bc_disk := (bc_disk (babs s))(n := bc_view (babs s) n), bc_dirty := bc_dirty (babs s) - {n},
        bc_writes := bc_writes (babs s) @ [(n, bc_view (babs s) n)]\<rparr>"
    using bwrite_spec[OF inv h'] by auto
  show "\<exists>t. set_buf b (\<lambda>x. x\<lparr>b_dirty := True\<rparr>) s = Ok () t \<and> bc_inv t \<and>
      babs t = (babs s)\<lparr>bc_dirty := insert n (bc_dirty (babs s))\<rparr> \<and> bio_frame s t"
    using pin_spec[OF inv h'] by simp
  show "n \<in> bc_dirty (babs s) \<or> bc_view (babs s) n = bc_disk (babs s) n \<Longrightarrow>
      \<exists>t. brelse b s = Ok () t \<and> bc_inv t \<and> babs t = (babs s)\<lparr>bc_held := (bc_held (babs s))(n := None)\<rparr> \<and> bio_frame s t"
    using brelse_spec[OF inv h'] by simp
qed (auto intro: bio_frame.frame_trans simp: bio_frame.frame_refl, auto simp: bio_frame_def)

section \<open>Initialisation\<close>

text \<open>A chain of the buffers below \<open>k\<close>, last one first.\<close>

definition chain :: "nat \<Rightarrow> (nat \<Rightarrow> buf) \<Rightarrow> bool" where
  "chain k bs \<longleftrightarrow> path (nexts bs) HEAD (rev [0..<k]) HEAD \<and> path (prevs bs) HEAD [0..<k] HEAD"

lemma initsleeplock_eq:
  "initsleeplock sl nm s = Ok () (s\<lparr>locks := (locks s)(lk_of sl := (locks s (lk_of sl))\<lparr>lk_name := ''sleep lock'',
       locked := 0, lk_cpu := None\<rparr>),
     slocks := (slocks s)(sl := (slocks s sl)\<lparr>sl_name := nm, sl_locked := 0, sl_pid := 0\<rparr>)\<rparr>)"
  by (simp add: initsleeplock_def initlock_def set_lock_def set_slock_def k_simps)

lemma binit_link_chain:
  assumes "chain k (bufs s)" and "k < NBUF"
  shows "\<exists>t. binit_link k s = Ok () t \<and> chain (Suc k) (bufs t) \<and> (\<forall>i. unlinked (bufs t i) = unlinked (bufs s i)) \<and>
    \<not> b_locked t k \<and> (\<forall>i. i \<noteq> k \<longrightarrow> sl_locked (slocks t (BufSleep i)) = sl_locked (slocks s (BufSleep i))) \<and>
    (\<forall>lk. lock_free lk s \<longrightarrow> lock_free lk t) \<and> lock_free (BufLock k) t \<and>
    cpuid t = cpuid s \<and> cpus t = cpus s \<and> cpu_proc t = cpu_proc s \<and> memdisk t = memdisk s \<and> disksize t = disksize s"
proof -
  let ?first = "nexts (bufs s) HEAD"
  let ?bs = "next_upd HEAD k (prev_upd ?first k (prev_upd k HEAD (next_upd k ?first (bufs s))))"
  have k: "k \<noteq> HEAD" "HEAD \<notin> set [0..<k]" using assms(2) by (auto simp: HEAD_def)
  have nx: "path (nexts (bufs s)) HEAD (rev [0..<k]) HEAD" and pv: "path (prevs (bufs s)) HEAD [0..<k] HEAD"
    using assms(1) by (simp_all add: chain_def)
  have first: "?first = last (HEAD # [0..<k])"
    using nx by (cases k) auto
  have "path ((nexts (bufs s))(k := ?first, HEAD := k)) HEAD (k # rev [0..<k]) HEAD"
    using nx k by (intro path_insert_front) auto
  moreover have "path ((prevs (bufs s))(k := HEAD, last (HEAD # [0..<k]) := k)) HEAD ([0..<k] @ [k]) HEAD"
    using pv k by (intro path_insert_back) auto
  ultimately have "chain (Suc k) ?bs"
    by (simp add: chain_def first)
  moreover have "binit_link k s = Ok () (s\<lparr>locks := (locks s)(BufLock k := (locks s (BufLock k))\<lparr>lk_name := ''sleep lock'',
       locked := 0, lk_cpu := None\<rparr>),
     slocks := (slocks s)(BufSleep k := (slocks s (BufSleep k))\<lparr>sl_name := ''buffer'', sl_locked := 0, sl_pid := 0\<rparr>),
     bufs := ?bs\<rparr>)"
    by (simp add: binit_link_def k_simps buf_ops initsleeplock_eq next_upd_def prev_upd_def nexts_def)
  ultimately show ?thesis
    by (simp add: lock_free_def)
qed

text \<open>The memory a kernel starts with: the buffers zeroed, the disk image in place.\<close>

definition bio_boot :: "'x bio_state_scheme \<Rightarrow> bool" where
  "bio_boot s \<longleftrightarrow> quiet s \<and> myproc s \<noteq> None \<and> length (memdisk s) = disksize s * BSIZE \<and>
     (\<forall>b<NBUF. b_dev (bufs s b) = 0 \<and> refcnt (bufs s b) = 0 \<and> \<not> b_dirty (bufs s b) \<and>
       length (b_data (bufs s b)) = BSIZE)"

definition binit_inv :: "nat \<Rightarrow> 'x bio_state_scheme \<Rightarrow> bool" where
  "binit_inv k t \<longleftrightarrow> chain k (bufs t) \<and> bio_boot t \<and> (\<forall>i<k. \<not> b_locked t i)"

lemma bio_boot_cong:
  assumes "bio_boot s" and "\<forall>i. unlinked (bufs t i) = unlinked (bufs s i)" and "\<forall>lk. lock_free lk s \<longrightarrow> lock_free lk t"
    and "cpuid t = cpuid s" "cpus t = cpus s" "cpu_proc t = cpu_proc s" "memdisk t = memdisk s" "disksize t = disksize s"
  shows "bio_boot t"
proof -
  have "b_dev (bufs t b) = b_dev (bufs s b) \<and> refcnt (bufs t b) = refcnt (bufs s b) \<and>
      b_dirty (bufs t b) = b_dirty (bufs s b) \<and> b_data (bufs t b) = b_data (bufs s b)" for b
    using unlinked_eqD assms(2) by metis
  then show ?thesis
    using assms by (simp add: bio_boot_def quiet_def irq_ok_def myproc_def)
qed

lemma binit_inv_bc: "binit_inv NBUF t \<Longrightarrow> bc_inv t \<and> lru (rev [0..<NBUF]) (bufs t)"
proof -
  assume "binit_inv NBUF t"
  then have lru: "lru (rev [0..<NBUF]) (bufs t)" and ok: "bio_boot t" "\<forall>i<NBUF. \<not> b_locked t i"
    by (auto simp: binit_inv_def lru_def chain_def)
  moreover have "one_each t" "\<forall>b<NBUF. buf_ok t b"
    using ok by (auto simp: one_each_def buf_ok_def bio_boot_def)
  ultimately show "bc_inv t \<and> lru (rev [0..<NBUF]) (bufs t)"
    by (auto simp: bc_inv_def bio_boot_def)
qed

lemma binit_reaches:
  fixes s :: "'x bio_state_scheme"
  assumes "bio_boot s"
  shows "kwp binit (\<lambda>_ t. binit_inv NBUF t \<and> disksize t = disksize s \<and> memdisk t = memdisk s) s"
proof -
  let ?P = "\<lambda>k t. binit_inv k t \<and> disksize t = disksize s \<and> memdisk t = memdisk s"
  let ?u = "s\<lparr>locks := (locks s)(BcacheLock := (locks s BcacheLock)\<lparr>lk_name := ''bcache'', locked := 0, lk_cpu := None\<rparr>),
    bufs := next_upd HEAD HEAD (prev_upd HEAD HEAD (bufs s))\<rparr>"
  have "bio_boot ?u"
    using assms by (rule bio_boot_cong) (auto simp: lock_free_def)
  then have base: "?P 0 ?u"
    by (simp add: binit_inv_def chain_def)
  have step: "kwp (binit_link ([0..<NBUF] ! k)) (\<lambda>_. ?P (Suc k)) t"
    if k: "k < length [0..<NBUF]" and inv: "?P k t" for k and t :: "'x bio_state_scheme"
  proof -
    have c: "chain k (bufs t)" and kN: "k < NBUF" using k inv by (simp_all add: binit_inv_def)
    obtain v where v: "binit_link k t = Ok () v" "chain (Suc k) (bufs v)" "\<forall>i. unlinked (bufs v i) = unlinked (bufs t i)"
      "\<not> b_locked v k" "\<forall>i. i \<noteq> k \<longrightarrow> sl_locked (slocks v (BufSleep i)) = sl_locked (slocks t (BufSleep i))"
      "\<forall>lk. lock_free lk t \<longrightarrow> lock_free lk v" "cpuid v = cpuid t" "cpus v = cpus t" "cpu_proc v = cpu_proc t"
      "memdisk v = memdisk t" "disksize v = disksize t"
      using binit_link_chain[OF c kN] by blast
    have "bio_boot v"
      using inv v by (intro bio_boot_cong[of t v]) (simp_all add: binit_inv_def)
    then show ?thesis
      using v inv kN by (auto simp: kwp_iff binit_inv_def less_Suc_eq)
  qed
  have "kwp (kfor binit_link [0..<NBUF]) (\<lambda>_. ?P (length [0..<NBUF])) ?u"
    using base step by (rule kwp_for)
  moreover have "binit s = kfor binit_link [0..<NBUF] ?u"
    by (simp add: binit_def initlock_def set_lock_def k_simps buf_ops next_upd_def prev_upd_def)
  ultimately show ?thesis
    by (simp add: kwp_def)
qed

section \<open>Properties\<close>

text \<open>
  Claim C3. The buffer cache refines a disk with an exact cached view. \<open>bread\<close> returns the
  locked buffer that holds the current contents of the block, whether it was cached or had
  to be read into a recycled buffer; neither the contents seen of any block, nor the disk,
  nor the set of pinned blocks changes, and the LRU chain, the reference counts and the
  one-buffer-per-block rule are kept.
\<close>

theorem bread_refines:
  assumes "bc_inv s" and "n < disksize s" and "held s n = None"
    and "n \<in> dirty s \<or> card (dirty s \<union> dom (held s)) < NBUF"
  shows "\<exists>b t. bread 1 n s = Ok b t \<and> b_locked t b \<and> b_data (bufs t b) = view s n \<and> bc_inv t \<and>
    babs t = (babs s)\<lparr>bc_held := (held s)(n \<mapsto> b)\<rparr>"
proof -
  obtain b t where t: "bread 1 n s = Ok b t" "bc_inv t" "babs t = (babs s)\<lparr>bc_held := (held s)(n \<mapsto> b)\<rparr>"
    using bread_spec[OF assms] by blast
  have "held t = (held s)(n \<mapsto> b)" and "view t = view s"
    using t(3) by (simp_all add: babs_def)
  then show ?thesis
    using t held_SomeD[OF t(2), of n b] by auto
qed

definition boot_buf :: buf where
  "boot_buf = \<lparr>b_valid = False, b_dirty = False, b_dev = 0, b_no = 0, refcnt = 0, b_prev = 0, b_next = 0,
     b_data = replicate BSIZE 0\<rparr>"

definition boot_bio :: "nat \<Rightarrow> bio_state" where
  "boot_bio sz = sleep_state.extend boot_sleep \<lparr>bufs = (\<lambda>_. boot_buf), memdisk = replicate (sz * BSIZE) 0,
     disksize = sz, disk_writes = [], \<dots> = ()\<rparr>"

lemmas boot_bio_simps = boot_bio_def sleep_state.defs boot_sleep_simps boot_buf_def

lemma boot_bio_ok: "bio_boot (boot_bio sz)"
  by (simp add: bio_boot_def quiet_def irq_ok_def lock_free_def myproc_def boot_bio_simps)

text \<open>After \<open>binit\<close> no buffer has a block, so nothing is pinned or in use.\<close>

lemma binit_empty:
  assumes "bio_boot s"
  shows "\<exists>t. binit s = Ok () t \<and> bc_inv t \<and> dirty t = {} \<and> held t = Map.empty \<and> disksize t = disksize s \<and>
    memdisk t = memdisk s \<and> lru (rev [0..<NBUF]) (bufs t)"
proof -
  obtain t where t: "binit s = Ok () t" "binit_inv NBUF t" "disksize t = disksize s" "memdisk t = memdisk s"
    using binit_reaches[OF assms] by (auto simp: kwp_iff)
  then have inv: "bc_inv t" and lru: "lru (rev [0..<NBUF]) (bufs t)"
    using binit_inv_bc by blast+
  have "lookup t n = None" for n
    using t(2) by (simp add: binit_inv_def bio_boot_def lookup_None)
  then have "held t = Map.empty"
    by (simp add: held_def fun_eq_iff)
  moreover have "dirty t = {}"
    using t(2) by (auto simp: binit_inv_def bio_boot_def dirty_def)
  ultimately show ?thesis
    using t inv lru by auto
qed

theorem bread_refines_witness:
  "\<exists>s b t. binit (boot_bio 1000) = Ok () s \<and> bread 1 7 s = Ok b t \<and> b_data (bufs t b) = view s 7 \<and> bc_inv t"
proof -
  obtain s where s: "binit (boot_bio 1000) = Ok () s" "bc_inv s" "dirty s = {}" "held s = Map.empty"
      "disksize s = disksize (boot_bio 1000)"
    using binit_empty[OF boot_bio_ok[of 1000]] by blast
  have "disksize s = 1000"
    using s(5) by (simp add: boot_bio_def sleep_state.defs)
  then show ?thesis
    using s bread_refines[of s 7] by (auto simp: NBUF_def)
qed

text \<open>
  Claim C28. Writing a block (\<open>bread\<close>, change the data, \<open>bwrite\<close>, \<open>brelse\<close>) puts exactly
  these bytes into exactly this block of the disk, in one disk write, and every later read
  of a block sees the new bytes there and the old ones elsewhere.
\<close>

theorem bwrite_roundtrip:
  assumes "bc_inv s" and "n < disksize s" and "held s n = None" and "card (dirty s \<union> dom (held s)) < NBUF"
    and "length d = BSIZE"
  shows "\<exists>t. kbind (bread 1 n) (\<lambda>b. kseq (bput b d) (kseq (bwrite b) (brelse b))) s = Ok () t \<and> bc_inv t \<and>
    dblock (memdisk t) = (dblock (memdisk s))(n := d) \<and> disk_writes t = disk_writes s @ [(n, d)] \<and>
    view t = (view s)(n := d) \<and> held t = held s \<and> dirty t = dirty s - {n}"
proof -
  have "bc_held (babs s) n = None" "n \<in> bc_dirty (babs s) \<or> room (babs s) 1"
    using assms(3,4) by (simp_all add: room_def)
  from bc.write_block[OF assms(1,2) this, of "\<lambda>_. d"] assms(5)
  obtain t where t: "kbind (bread 1 n) (\<lambda>b. kbind (kget (\<lambda>s. b_data (bufs s b))) (\<lambda>_. kseq (bput b d) (kseq (bwrite b) (brelse b)))) s = Ok () t"
    and inv: "bc_inv t" and a: "babs t = (babs s)\<lparr>bc_view := (view s)(n := d), bc_disk := (dblock (memdisk s))(n := d),
      bc_dirty := dirty s - {n}, bc_writes := disk_writes s @ [(n, d)]\<rparr>"
    by auto
  have "kbind (bread 1 n) (\<lambda>b. kseq (bput b d) (kseq (bwrite b) (brelse b))) s = Ok () t"
    using t by (simp add: kbind_eq_Ok kget_apply)
  then show ?thesis
    using inv a by (auto simp: babs_def)
qed

theorem bwrite_roundtrip_witness:
  "\<exists>s t. binit (boot_bio 1000) = Ok () s \<and>
     kbind (bread 1 9) (\<lambda>b. kseq (bput b (replicate BSIZE 5)) (kseq (bwrite b) (brelse b))) s = Ok () t \<and>
     dblock (memdisk t) 9 = replicate BSIZE 5 \<and> view t 9 = replicate BSIZE 5"
proof -
  obtain s where s: "binit (boot_bio 1000) = Ok () s" "bc_inv s" "dirty s = {}" "held s = Map.empty"
      "disksize s = disksize (boot_bio 1000)"
    using binit_empty[OF boot_bio_ok[of 1000]] by blast
  have "disksize s = 1000"
    using s(5) by (simp add: boot_bio_def sleep_state.defs)
  then show ?thesis
    using s bwrite_roundtrip[of s 9 "replicate BSIZE 5"] by (auto simp: NBUF_def)
qed


definition full_bio :: bio_state where
  "full_bio = (boot_bio 1000)\<lparr>bufs := \<lambda>i. boot_buf\<lparr>b_valid := True, b_dirty := i < NBUF, b_dev := 1, b_no := i,
     b_next := (if i = 0 then HEAD else i - 1), b_prev := (if i = HEAD then 0 else Suc i)\<rparr>\<rparr>"


end
