(* ===== verification/Logging.thy ===== *)
theory Logging
  imports Bio
begin

text \<open>
  \<^verbatim>\<open>log.c\<close>: the redo log that makes the disk writes of a system call atomic. The in-memory
  header \<open>log.lh\<close> is \<open>lh_n\<close>, \<open>lh_block\<close>; the on-disk one is decoded from the bytes of its
  block. \<open>readsb\<close> of \<^verbatim>\<open>fs.c\<close> is here because \<open>initlog\<close> calls it.

  \<open>commit_writes\<close> and \<open>recovered\<close> describe, on plain block maps, the disk writes of a commit
  and the effect of recovery; the kernel's \<open>commit\<close> and \<open>recover_from_log\<close> are shown to do
  exactly that, and crash safety is a property of the two.
\<close>

section \<open>State (log.c, fs.h)\<close>

definition LOGSIZE :: nat where
  "LOGSIZE = 30"

definition MAXOPBLOCKS :: nat where
  "MAXOPBLOCKS = 10"

record superblock =
  sb_size :: nat
  sb_nblocks :: nat
  sb_ninodes :: nat
  sb_nlog :: nat
  sb_logstart :: nat
  sb_inodestart :: nat
  sb_bmapstart :: nat

record log_state = bio_state +
  lg_start :: nat
  lg_size :: nat
  lg_outstanding :: int
  lg_committing :: bool
  lg_dev :: uint
  lh_n :: int
  lh_block :: "nat \<Rightarrow> nat"

text \<open>A 32-bit field of a struct kept in a block's bytes.\<close>

definition get32 :: "nat \<Rightarrow> uchar list \<Rightarrow> uint" where
  "get32 off d = le_get (chunk off 4 d)"

definition put32 :: "nat \<Rightarrow> uint \<Rightarrow> uchar list \<Rightarrow> uchar list" where
  "put32 off w d = patch off (le_put 4 w) d"

text \<open>\<open>struct logheader\<close>: \<open>n\<close>, then the block numbers.\<close>

definition hd_n :: "uchar list \<Rightarrow> int" where
  "hd_n d = sint (get32 0 d)"

definition hd_block :: "uchar list \<Rightarrow> nat \<Rightarrow> nat" where
  "hd_block d i = unat (get32 (4 + 4 * i) d)"

primrec hd_put :: "(nat \<Rightarrow> nat) \<Rightarrow> nat \<Rightarrow> uchar list \<Rightarrow> uchar list" where
  "hd_put f 0 d = d"
| "hd_put f (Suc k) d = put32 (4 + 4 * k) (of_nat (f k)) (hd_put f k d)"

definition head_image :: "int \<Rightarrow> (nat \<Rightarrow> nat) \<Rightarrow> uchar list \<Rightarrow> uchar list" where
  "head_image n f d = hd_put f (nat n) (put32 0 (of_int n) d)"

section \<open>Operations (log.c, fs.c)\<close>

definition sb_decode :: "uchar list \<Rightarrow> superblock" where
  "sb_decode d = \<lparr>sb_size = unat (get32 0 d), sb_nblocks = unat (get32 4 d), sb_ninodes = unat (get32 8 d),
     sb_nlog = unat (get32 12 d), sb_logstart = unat (get32 16 d), sb_inodestart = unat (get32 20 d),
     sb_bmapstart = unat (get32 24 d)\<rparr>"

definition readsb :: "uint \<Rightarrow> ('x bio_state_scheme, superblock) km" where
  "readsb dev =
     kbind (bread dev 1) (\<lambda>b.
     kbind (get_buf b_data b) (\<lambda>d.
     kseq (brelse b) (kret (sb_decode d))))"

definition install_one :: "nat \<Rightarrow> ('x log_state_scheme, unit) km" where
  "install_one tail =
     kbind (kget (\<lambda>s. s)) (\<lambda>s.
     kbind (bread (lg_dev s) (lg_start s + tail + 1)) (\<lambda>lbuf.
     kbind (bread (lg_dev s) (lh_block s tail)) (\<lambda>dbuf.
     kbind (get_buf b_data lbuf) (\<lambda>d.
     kseq (bput dbuf d)
     (kseq (bwrite dbuf)
     (kseq (brelse lbuf)
           (brelse dbuf)))))))"

definition install_trans :: "('x log_state_scheme, unit) km" where
  "install_trans = kbind (kget lh_n) (\<lambda>n. kfor install_one [0..<nat n])"

text \<open>
  \<open>read_head\<close> copies as many entries as the header on disk says; more than the array
  \<open>block[LOGSIZE]\<close> holds would be written past its end.
\<close>

definition read_head :: "('x log_state_scheme, unit) km" where
  "read_head =
     kbind (kget (\<lambda>s. s)) (\<lambda>s.
     kbind (bread (lg_dev s) (lg_start s)) (\<lambda>b.
     kbind (get_buf b_data b) (\<lambda>d.
     kseq (kmod (\<lambda>s. s\<lparr>lh_n := hd_n d\<rparr>))
     (kseq (if int LOGSIZE < hd_n d then kfault ''read_head''
            else kmod (\<lambda>s. s\<lparr>lh_block := (\<lambda>i. if i < nat (hd_n d) then hd_block d i else lh_block s i)\<rparr>))
           (brelse b)))))"

definition write_head :: "('x log_state_scheme, unit) km" where
  "write_head =
     kbind (kget (\<lambda>s. s)) (\<lambda>s.
     kbind (bread (lg_dev s) (lg_start s)) (\<lambda>b.
     kbind (get_buf b_data b) (\<lambda>d.
     kseq (bput b (head_image (lh_n s) (lh_block s) d))
     (kseq (bwrite b)
           (brelse b)))))"

definition recover_from_log :: "('x log_state_scheme, unit) km" where
  "recover_from_log =
     kseq read_head
     (kseq install_trans
     (kseq (kmod (\<lambda>s. s\<lparr>lh_n := 0\<rparr>))
           write_head))"

definition initlog :: "uint \<Rightarrow> ('x log_state_scheme, unit) km" where
  "initlog dev =
     kseq (kwhen (4 + 4 * LOGSIZE \<ge> BSIZE) (kpanic ''initlog: too big logheader''))
     (kseq (initlock LogLock ''log'')
     (kbind (readsb dev) (\<lambda>sb.
      kseq (kmod (\<lambda>s. s\<lparr>lg_start := sb_logstart sb\<rparr>))
     (kseq (kmod (\<lambda>s. s\<lparr>lg_size := sb_nlog sb\<rparr>))
     (kseq (kmod (\<lambda>s. s\<lparr>lg_dev := dev\<rparr>))
           recover_from_log)))))"

text \<open>The loop of \<open>begin_op\<close>, entered again each time the process is woken.\<close>

definition begin_op_loop :: "('x log_state_scheme, unit) km" where
  "begin_op_loop =
     kbind (kget (\<lambda>s. s)) (\<lambda>s.
     if lg_committing s then sleep LogChan (Some LogLock)
     else if lh_n s + (lg_outstanding s + 1) * int MAXOPBLOCKS > int LOGSIZE then sleep LogChan (Some LogLock)
     else kseq (kmod (\<lambda>s. s\<lparr>lg_outstanding := lg_outstanding s + 1\<rparr>)) (release LogLock))"

definition begin_op :: "('x log_state_scheme, unit) km" where
  "begin_op = kseq (acquire LogLock) begin_op_loop"

definition begin_op_return :: "('x log_state_scheme, unit) km" where
  "begin_op_return = kseq (sleep_return LogLock) begin_op_loop"

definition write_one :: "nat \<Rightarrow> ('x log_state_scheme, unit) km" where
  "write_one tail =
     kbind (kget (\<lambda>s. s)) (\<lambda>s.
     kbind (bread (lg_dev s) (lg_start s + tail + 1)) (\<lambda>to.
     kbind (bread (lg_dev s) (lh_block s tail)) (\<lambda>frm.
     kbind (get_buf b_data frm) (\<lambda>d.
     kseq (bput to d)
     (kseq (bwrite to)
     (kseq (brelse frm)
           (brelse to)))))))"

definition write_log :: "('x log_state_scheme, unit) km" where
  "write_log = kbind (kget lh_n) (\<lambda>n. kfor write_one [0..<nat n])"

definition commit :: "('x log_state_scheme, unit) km" where
  "commit =
     kbind (kget lh_n) (\<lambda>n.
     kwhen (n > 0)
       (kseq write_log
       (kseq write_head
       (kseq install_trans
       (kseq (kmod (\<lambda>s. s\<lparr>lh_n := 0\<rparr>))
             write_head)))))"

definition end_op :: "('x log_state_scheme, unit) km" where
  "end_op =
     kseq (acquire LogLock)
     (kseq (kmod (\<lambda>s. s\<lparr>lg_outstanding := lg_outstanding s - 1\<rparr>))
     (kbind (kget (\<lambda>s. s)) (\<lambda>s.
      if lg_committing s then kpanic ''log.committing''
      else if lg_outstanding s = 0 then
        kseq (kmod (\<lambda>s. s\<lparr>lg_committing := True\<rparr>))
        (kseq (release LogLock)
        (kseq commit
        (kseq (acquire LogLock)
        (kseq (kmod (\<lambda>s. s\<lparr>lg_committing := False\<rparr>))
        (kseq (wakeup LogChan)
              (release LogLock))))))
      else kseq (wakeup LogChan) (release LogLock))))"

definition log_slot :: "nat \<Rightarrow> 'x log_state_scheme \<Rightarrow> nat" where
  "log_slot n s = (case find (\<lambda>i. lh_block s i = n) [0..<nat (lh_n s)] of Some i \<Rightarrow> i | None \<Rightarrow> nat (lh_n s))"

definition log_write :: "nat \<Rightarrow> ('x log_state_scheme, unit) km" where
  "log_write b =
     kbind (kget (\<lambda>s. s)) (\<lambda>s.
     if lh_n s \<ge> int LOGSIZE \<or> lh_n s \<ge> int (lg_size s) - 1 then kpanic ''too big a transaction''
     else if lg_outstanding s < 1 then kpanic ''log_write outside of trans''
     else kseq (acquire LogLock)
       (kbind (get_buf b_no b) (\<lambda>n.
        kbind (kget (log_slot n)) (\<lambda>i.
        kseq (kmod (\<lambda>s. s\<lparr>lh_block := (lh_block s)(i := n)\<rparr>))
        (kseq (kmod (\<lambda>s. if int i = lh_n s then s\<lparr>lh_n := lh_n s + 1\<rparr> else s))
        (kseq (set_buf b (\<lambda>x. x\<lparr>b_dirty := True\<rparr>))
              (release LogLock)))))))"

section \<open>Fields in bytes\<close>

lemma length_put32 [simp]: "off + 4 \<le> length d \<Longrightarrow> length (put32 off w d) = length d"
  by (simp add: put32_def)

lemma get32_put32_same [simp]: "off + 4 \<le> length d \<Longrightarrow> get32 off (put32 off w d) = w"
  by (simp add: get32_def put32_def le_get_put)

lemma get32_put32_other:
  "off + 4 \<le> length d \<Longrightarrow> k + 4 \<le> length d \<Longrightarrow> k + 4 \<le> off \<or> off + 4 \<le> k \<Longrightarrow>
   get32 k (put32 off w d) = get32 k d"
  by (simp add: get32_def put32_def chunk_patch_other)

lemma length_hd_put [simp]: "4 + 4 * k \<le> length d \<Longrightarrow> length (hd_put f k d) = length d"
  by (induction k) auto

lemma hd_put_n: "4 + 4 * k \<le> length d \<Longrightarrow> get32 0 (hd_put f k d) = get32 0 d"
  by (induction k) (auto simp: get32_put32_other)

lemma hd_put_block:
  "4 + 4 * k \<le> length d \<Longrightarrow> i < k \<Longrightarrow> get32 (4 + 4 * i) (hd_put f k d) = of_nat (f i)"
proof (induction k)
  case 0
  then show ?case by simp
next
  case (Suc k)
  then show ?case
    by (cases "i = k") (auto simp: get32_put32_other)
qed

lemma head_image:
  assumes "0 \<le> n" and "n \<le> int LOGSIZE" and "length d = BSIZE" and "\<And>i. i < nat n \<Longrightarrow> f i < 2 ^ 32"
  shows "length (head_image n f d) = BSIZE" and "hd_n (head_image n f d) = n"
    and "\<And>i. i < nat n \<Longrightarrow> hd_block (head_image n f d) i = f i"
proof -
  have len: "4 + 4 * nat n \<le> length d"
    using assms by (simp add: LOGSIZE_def BSIZE_def)
  then show "length (head_image n f d) = BSIZE"
    using assms(3) by (simp add: head_image_def)
  have "sint (of_int n :: uint) = n"
    using assms(1,2) by (simp add: sint_sbintrunc' signed_take_bit_int_eq_self LOGSIZE_def)
  then show "hd_n (head_image n f d) = n"
    using len by (simp add: hd_n_def head_image_def hd_put_n)
  show "hd_block (head_image n f d) i = f i" if "i < nat n" for i
    using len that assms(4)[OF that] by (simp add: hd_block_def head_image_def hd_put_block unsigned_of_nat take_bit_nat_eq_self)
qed

section \<open>Copying a block\<close>

text \<open>The step \<open>write_log\<close> and \<open>install_trans\<close> repeat, in terms of the cache contract.\<close>

lemma card_insert_bound: "card (insert x A) \<le> Suc (card A)"
  by (cases "finite A") (auto simp: card_insert_if)

context block_cache
begin

lemma copy_held:
  assumes "inv s" and src: "bc_held (cabs s) m = Some (idx a)" and dst: "bc_held (cabs s) n = Some (idx b)" and "m \<noteq> n"
    and "m \<in> bc_dirty (cabs s) \<or> bc_view (cabs s) m = bc_disk (cabs s) m"
  shows "\<exists>t. kbind (kget (dat a)) (\<lambda>d. kseq (put b d) (kseq (wr b) (kseq (rel a) (rel b)))) s = Ok () t \<and> inv t \<and> fr s t \<and>
    cabs t = (cabs s)\<lparr>bc_view := (bc_view (cabs s))(n := bc_view (cabs s) m),
      bc_disk := (bc_disk (cabs s))(n := bc_view (cabs s) m), bc_dirty := bc_dirty (cabs s) - {n},
      bc_held := (bc_held (cabs s))(m := None, n := None), bc_writes := bc_writes (cabs s) @ [(n, bc_view (cabs s) m)]\<rparr>"
proof -
  let ?d = "bc_view (cabs s) m"
  have d: "dat a s = ?d" "length ?d = BSIZE" using dat_ok dat_len assms(1) src by blast+
  obtain u where u: "put b ?d s = Ok () u" "inv u" "cabs u = (cabs s)\<lparr>bc_view := (bc_view (cabs s))(n := ?d)\<rparr>" "fr s u"
    using put_ok[OF assms(1) dst d(2)] by blast
  have h: "bc_held (cabs u) n = Some (idx b)" by (simp add: u(3) dst)
  obtain v where v: "wr b u = Ok () v" "inv v" "fr u v" "cabs v = (cabs u)\<lparr>bc_disk := (bc_disk (cabs u))(n := ?d),
      bc_dirty := bc_dirty (cabs u) - {n}, bc_writes := bc_writes (cabs u) @ [(n, ?d)]\<rparr>"
    using wr_ok[OF u(2) h] by (auto simp: u(3))
  have h: "bc_held (cabs v) m = Some (idx a)" by (simp add: v(4) u(3) src)
  obtain w where w: "rel a v = Ok () w" "inv w" "cabs w = (cabs v)\<lparr>bc_held := (bc_held (cabs v))(m := None)\<rparr>" "fr v w"
    using rel_ok[OF v(2) h] assms(4,5) by (auto simp: v(4) u(3))
  have h: "bc_held (cabs w) n = Some (idx b)" using assms(4) by (simp add: w(3) v(4) u(3) dst)
  obtain x where x: "rel b w = Ok () x" "inv x" "cabs x = (cabs w)\<lparr>bc_held := (bc_held (cabs w))(n := None)\<rparr>" "fr w x"
    using rel_ok[OF w(2) h] by (auto simp: w(3) v(4) u(3))
  have "kbind (kget (dat a)) (\<lambda>d. kseq (put b d) (kseq (wr b) (kseq (rel a) (rel b)))) s = Ok () x"
    by (simp add: k_simps d(1) u(1) v(1) w(1) x(1))
  moreover have "fr s x"
    using u(4) v(3) w(4) x(4) by (blast intro: fr_trans)
  ultimately show ?thesis
    using x(2) by (intro exI[of _ x]) (simp add: x(3) w(3) v(4) u(3))
qed

lemma two_held:
  assumes "inv s" and "bc_held (cabs s) m = None" and "bc_held (cabs s) n = None" and "m \<noteq> n" and "m < sz s" and "n < sz s"
    and "m \<in> bc_dirty (cabs s) \<or> room (cabs s) 1"
    and "n \<in> bc_dirty (cabs s) \<or> (if m \<in> bc_dirty (cabs s) then room (cabs s) 1 else room (cabs s) 2)"
  shows "\<exists>a t b u. rd m s = Ok a t \<and> rd n t = Ok b u \<and> inv u \<and> fr s t \<and> fr s u \<and>
    cabs u = (cabs s)\<lparr>bc_held := (bc_held (cabs s))(m \<mapsto> idx a, n \<mapsto> idx b)\<rparr>"
proof -
  obtain a t where t: "rd m s = Ok a t" "inv t" "cabs t = (cabs s)\<lparr>bc_held := (bc_held (cabs s))(m \<mapsto> idx a)\<rparr>" "fr s t"
    using rd_ok[OF assms(1,5,2,7)] by blast
  have "bc_dirty (cabs s) \<union> insert m (dom (bc_held (cabs s))) = insert m (bc_dirty (cabs s) \<union> dom (bc_held (cabs s)))"
    by auto
  then have "card (bc_dirty (cabs s) \<union> insert m (dom (bc_held (cabs s)))) \<le>
      (if m \<in> bc_dirty (cabs s) then card (bc_dirty (cabs s) \<union> dom (bc_held (cabs s)))
       else Suc (card (bc_dirty (cabs s) \<union> dom (bc_held (cabs s)))))"
    using card_insert_bound[of m "bc_dirty (cabs s) \<union> dom (bc_held (cabs s))"] by (auto simp: insert_absorb)
  then have r: "n \<in> bc_dirty (cabs t) \<or> room (cabs t) 1"
    using assms(8) by (auto simp: room_def t(3) split: if_splits)
  have "n < sz t" "bc_held (cabs t) n = None"
    using assms(3,4,6) fr_sz[OF t(4)] by (simp_all add: t(3))
  then obtain b u where u: "rd n t = Ok b u" "inv u" "cabs u = (cabs t)\<lparr>bc_held := (bc_held (cabs t))(n \<mapsto> idx b)\<rparr>" "fr t u"
    using rd_ok[OF t(2) _ _ r] by blast
  then show ?thesis
    using t fr_trans[OF t(4) u(4)] by (intro exI[of _ a] exI[of _ t] exI[of _ b] exI[of _ u]) simp
qed

end

section \<open>The log over the abstract cache\<close>

definition logged :: "'x log_state_scheme \<Rightarrow> nat list" where
  "logged s = map (lh_block s) [0..<nat (lh_n s)]"

text \<open>Blocks outside the log area.\<close>

definition home :: "nat \<Rightarrow> nat \<Rightarrow> nat \<Rightarrow> bool" where
  "home start len m \<longleftrightarrow> m < start \<or> start + len \<le> m"

text \<open>What the log code itself reads, unchanged by every cache operation.\<close>

lemma more_log:
  assumes "bio_state.more t = bio_state.more s"
  shows "lg_start t = lg_start s" "lg_size t = lg_size s" "lg_outstanding t = lg_outstanding s"
    "lg_committing t = lg_committing s" "lg_dev t = lg_dev s" "lh_n t = lh_n s" "lh_block t = lh_block s"
    "log_state.more t = log_state.more s"
  using assms by (cases s; cases t; simp)+

lemma bio_frame_log: "bio_frame s t \<Longrightarrow> bio_state.more t = bio_state.more s"
  by (simp add: bio_frame_def)

lemmas log_frame = more_log[OF bio_frame_log]

text \<open>Applying a list of block writes to a block map.\<close>

definition apply_writes :: "(nat \<times> uchar list) list \<Rightarrow> (nat \<Rightarrow> uchar list) \<Rightarrow> nat \<Rightarrow> uchar list" where
  "apply_writes ws D = fold (\<lambda>(n, d) D. D(n := d)) ws D"

lemma apply_writes_simps [simp]:
  "apply_writes [] D = D" "apply_writes ((n, d) # ws) D = apply_writes ws (D(n := d))"
  "apply_writes (ws @ vs) D = apply_writes vs (apply_writes ws D)"
  by (simp_all add: apply_writes_def)

lemma apply_writes_other: "n \<notin> fst ` set ws \<Longrightarrow> apply_writes ws D n = D n"
  by (induction ws arbitrary: D) auto

lemma apply_writes_at:
  "distinct (map fst ws) \<Longrightarrow> (n, d) \<in> set ws \<Longrightarrow> apply_writes ws D n = d"
proof (induction ws arbitrary: D)
  case Nil
  then show ?case by simp
next
  case (Cons w ws)
  obtain k e where w: "w = (k, e)" by (cases w)
  show ?case
  proof (cases "(n, d) \<in> set ws")
    case True
    then show ?thesis using Cons w by simp
  next
    case False
    then have "w = (n, d)" using Cons.prems(2) by simp
    then show ?thesis using Cons.prems(1) by (auto simp: apply_writes_other)
  qed
qed

text \<open>
  A copy loop: \<open>k\<close> turns, turn \<open>i\<close> copying block \<open>src i\<close> to block \<open>dst i\<close> on the disk. No
  destination is a source.
\<close>

definition copies :: "(nat \<Rightarrow> nat) \<Rightarrow> (nat \<Rightarrow> nat) \<Rightarrow> (nat \<Rightarrow> uchar list) \<Rightarrow> nat \<Rightarrow> (nat \<times> uchar list) list" where
  "copies src dst D k = map (\<lambda>i. (dst i, D (src i))) [0..<k]"

definition copied :: "(nat \<Rightarrow> nat) \<Rightarrow> (nat \<Rightarrow> nat) \<Rightarrow> nat \<Rightarrow> bcache \<Rightarrow> bcache" where
  "copied src dst k c = c\<lparr>bc_view := apply_writes (copies src dst (bc_view c) k) (bc_view c),
     bc_disk := apply_writes (copies src dst (bc_view c) k) (bc_disk c),
     bc_dirty := bc_dirty c - dst ` {..<k}, bc_writes := bc_writes c @ copies src dst (bc_view c) k\<rparr>"

lemma copies_Suc: "copies src dst D (Suc k) = copies src dst D k @ [(dst k, D (src k))]"
  by (simp add: copies_def)

lemma fst_copies: "fst ` set (copies src dst D k) = dst ` {..<k}"
  by (simp add: copies_def image_image atLeast0LessThan)

definition copy_done :: "nat \<Rightarrow> nat \<Rightarrow> bcache \<Rightarrow> bcache" where
  "copy_done m n c = c\<lparr>bc_view := (bc_view c)(n := bc_view c m), bc_disk := (bc_disk c)(n := bc_view c m),
     bc_dirty := bc_dirty c - {n}, bc_writes := bc_writes c @ [(n, bc_view c m)]\<rparr>"

lemma copied_0 [simp]: "copied src dst 0 c = c"
  by (simp add: copied_def copies_def)

lemma copied_Suc:
  assumes "src k \<notin> dst ` {..<k}"
  shows "copied src dst (Suc k) c = copy_done (src k) (dst k) (copied src dst k c)"
proof -
  have "bc_view (copied src dst k c) (src k) = bc_view c (src k)"
    using assms by (simp add: copied_def apply_writes_other fst_copies)
  then show ?thesis
    by (simp add: copied_def copies_Suc copy_done_def lessThan_Suc Diff_insert[of _ _ "dst ` {..<k}"])
qed

text \<open>One turn of the two loops.\<close>

lemma install_one_spec:
  assumes "bc_inv s" and "lg_dev s = 1" and "held s = Map.empty" and "m = lg_start s + i + 1" and "n = lh_block s i"
    and "m \<noteq> n" and "m < disksize s" and "n < disksize s" and "m \<notin> dirty s" and "room (babs s) 1"
    and "n \<in> dirty s \<or> room (babs s) 2"
  shows "\<exists>t. install_one i s = Ok () t \<and> bc_inv t \<and> bio_frame s t \<and> babs t = copy_done m n (babs s)"
proof -
  have none: "bc_held (babs s) m = None" "bc_held (babs s) n = None" using assms(3) by simp_all
  have "n \<in> bc_dirty (babs s) \<or> (if m \<in> bc_dirty (babs s) then room (babs s) 1 else room (babs s) 2)"
    using assms(9,11) by simp
  then obtain a t b u where u: "bread 1 m s = Ok a t" "bread 1 n t = Ok b u" "bc_inv u" "bio_frame s t" "bio_frame s u"
      "babs u = (babs s)\<lparr>bc_held := (held s)(m \<mapsto> a, n \<mapsto> b)\<rparr>"
    using bc.two_held[OF assms(1) none assms(6,7,8)] assms(10) by auto
  have "bc_held (babs u) m = Some a" "bc_held (babs u) n = Some b" "m \<in> bc_dirty (babs u) \<or> bc_view (babs u) m = bc_disk (babs u) m"
    using assms(6) clean_view[OF assms(1,9)] none unfolding u(6) by auto
  from bc.copy_held[OF u(3) this(1,2) assms(6) this(3)]
  obtain v where v: "kbind (get_buf b_data a) (\<lambda>d. kseq (bput b d) (kseq (bwrite b) (kseq (brelse a) (brelse b)))) u = Ok () v"
    "bc_inv v" "bio_frame u v" "babs v = copy_done m n (babs s)"
    unfolding u(6) using none assms(3) by (auto simp: get_buf_def copy_done_def fun_upd_idem_iff babs_def)
  have "install_one i s = Ok () v"
    using assms(2,4,5) u v(1) by (simp add: install_one_def k_simps log_frame[OF u(4)])
  then show ?thesis
    using v bio_frame.frame_trans[OF u(5) v(3)] by blast
qed

lemma write_one_spec:
  assumes "bc_inv s" and "lg_dev s = 1" and "held s = Map.empty" and "n = lg_start s + i + 1" and "m = lh_block s i"
    and "m \<noteq> n" and "m < disksize s" and "n < disksize s" and "n \<notin> dirty s" and "room (babs s) 1" and "m \<in> dirty s"
  shows "\<exists>t. write_one i s = Ok () t \<and> bc_inv t \<and> bio_frame s t \<and> babs t = copy_done m n (babs s)"
proof -
  have none: "bc_held (babs s) n = None" "bc_held (babs s) m = None" using assms(3) by simp_all
  obtain b t a u where u: "bread 1 n s = Ok b t" "bread 1 m t = Ok a u" "bc_inv u" "bio_frame s t" "bio_frame s u"
      "babs u = (babs s)\<lparr>bc_held := (held s)(n \<mapsto> b, m \<mapsto> a)\<rparr>"
    using bc.two_held[OF assms(1) none assms(6)[symmetric] assms(8,7)] assms(10,11) by auto
  have "bc_held (babs u) m = Some a" "bc_held (babs u) n = Some b" "m \<in> bc_dirty (babs u) \<or> bc_view (babs u) m = bc_disk (babs u) m"
    using assms(6,11) unfolding u(6) by auto
  from bc.copy_held[OF u(3) this(1,2) assms(6) this(3)]
  obtain v where v: "kbind (get_buf b_data a) (\<lambda>d. kseq (bput b d) (kseq (bwrite b) (kseq (brelse a) (brelse b)))) u = Ok () v"
    "bc_inv v" "bio_frame u v" "babs v = copy_done m n (babs s)"
    unfolding u(6) using none assms(3) by (auto simp: get_buf_def copy_done_def fun_upd_idem_iff babs_def)
  have "write_one i s = Ok () v"
    using assms(2,4,5) u v(1) by (simp add: write_one_def k_simps log_frame[OF u(4)])
  then show ?thesis
    using v bio_frame.frame_trans[OF u(5) v(3)] by blast
qed

text \<open>The loops: \<open>k\<close> turns copy \<open>k\<close> blocks.\<close>

lemma write_log_loop:
  assumes "bc_inv s" and "lg_dev s = 1" and "held s = Map.empty" and "room (babs s) 1"
    and blocks: "\<And>i. i < k \<Longrightarrow> lh_block s i \<in> dirty s \<and> lh_block s i < disksize s"
    and area: "\<And>i. i < k \<Longrightarrow> lg_start s + i + 1 \<notin> dirty s \<and> lg_start s + i + 1 < disksize s"
  shows "\<exists>t. kfor write_one [0..<k] s = Ok () t \<and> bc_inv t \<and> bio_frame s t \<and>
    babs t = copied (lh_block s) (\<lambda>i. lg_start s + i + 1) k (babs s)"
  using blocks area
proof (induction k)
  case 0
  then show ?case using assms(1) by (auto simp: k_simps bio_frame.frame_refl)
next
  case (Suc k)
  let ?dst = "\<lambda>i. lg_start s + i + 1"
  obtain t where t: "kfor write_one [0..<k] s = Ok () t" "bc_inv t" "bio_frame s t" "babs t = copied (lh_block s) ?dst k (babs s)"
    using Suc.IH Suc.prems by force
  note f = log_frame[OF t(3)]
  have clean: "dirty s - ?dst ` {..<k} = dirty s"
    using Suc.prems(2) by fastforce
  then have d: "dirty t = dirty s" and h: "held t = Map.empty" and r: "room (babs t) 1"
    using t(4) assms(3,4) by (simp_all add: babs_def copied_def room_def)
  have sz: "disksize t = disksize s" using t(3) by (simp add: bio_frame_def)
  have ne: "lh_block s k \<noteq> lg_start s + i + 1" if "i < Suc k" for i
    using Suc.prems(1)[of k] Suc.prems(2)[OF that] by auto
  have "lh_block s k \<noteq> ?dst k" using ne by blast
  then obtain u where u: "write_one k t = Ok () u" "bc_inv u" "bio_frame t u" "babs u = copy_done (lh_block s k) (?dst k) (babs t)"
    using write_one_spec[OF t(2), of "?dst k" k "lh_block s k"] assms(2) h r d sz Suc.prems by (auto simp: f)
  have "lh_block s k \<notin> ?dst ` {..<k}" using ne less_SucI by blast
  then have "babs u = copied (lh_block s) ?dst (Suc k) (babs s)"
    by (simp add: u(4) t(4) copied_Suc)
  then show ?case
    using t u bio_frame.frame_trans[OF t(3) u(3)] by (auto simp: kfor_append k_simps)
qed

lemma install_loop:
  assumes "bc_inv s" and "lg_dev s = 1" and "held s = Map.empty" and "room (babs s) 1"
    and blocks: "\<And>i. i < k \<Longrightarrow> lh_block s i < disksize s"
    and area: "\<And>i. i < k \<Longrightarrow> lg_start s + i + 1 \<notin> dirty s \<and> lg_start s + i + 1 < disksize s"
    and apart: "\<And>i j. i < k \<Longrightarrow> j < k \<Longrightarrow> lg_start s + i + 1 \<noteq> lh_block s j"
    and space: "(\<forall>i<k. lh_block s i \<in> dirty s) \<and> inj_on (lh_block s) {..<k} \<or> room (babs s) 2"
  shows "\<exists>t. kfor install_one [0..<k] s = Ok () t \<and> bc_inv t \<and> bio_frame s t \<and>
    babs t = copied (\<lambda>i. lg_start s + i + 1) (lh_block s) k (babs s)"
  using blocks area apart space
proof (induction k)
  case 0
  then show ?case using assms(1) by (auto simp: k_simps bio_frame.frame_refl)
next
  case (Suc k)
  let ?src = "\<lambda>i. lg_start s + i + 1"
  have "(\<forall>i<k. lh_block s i \<in> dirty s) \<and> inj_on (lh_block s) {..<k} \<or> room (babs s) 2"
    using Suc.prems(4) by (auto simp: lessThan_Suc inj_on_insert)
  then obtain t where t: "kfor install_one [0..<k] s = Ok () t" "bc_inv t" "bio_frame s t"
      "babs t = copied ?src (lh_block s) k (babs s)"
    using Suc.IH Suc.prems(1-3) by force
  note f = log_frame[OF t(3)]
  have d: "dirty t = dirty s - lh_block s ` {..<k}" and h: "held t = Map.empty"
    using t(4) assms(3) by (simp_all add: babs_def copied_def)
  have fin: "finite (dirty s)" by (simp add: dirty_def)
  have le: "card (dirty t) \<le> card (dirty s)" unfolding d by (rule card_mono[OF fin]) auto
  then have r: "room (babs t) 1" and r2: "room (babs s) 2 \<Longrightarrow> room (babs t) 2"
    using assms(3,4) h by (simp_all add: room_def)
  have sz: "disksize t = disksize s" using t(3) by (simp add: bio_frame_def)
  have ne: "?src k \<noteq> lh_block s k" using Suc.prems(3) by blast
  have sp: "lh_block s k \<in> dirty t \<or> room (babs t) 2"
    using Suc.prems(4) r2 inj_onD[of "lh_block s" "{..<Suc k}" k] unfolding d by fastforce
  obtain u where u: "install_one k t = Ok () u" "bc_inv u" "bio_frame t u" "babs u = copy_done (?src k) (lh_block s k) (babs t)"
    using install_one_spec[OF t(2), of "?src k" k "lh_block s k"] assms(2) h r d sz ne sp Suc.prems(1,2)[of k] by (auto simp: f)
  have "?src k \<notin> lh_block s ` {..<k}"
    using Suc.prems(3)[OF lessI] less_SucI by fastforce
  then have "babs u = copied ?src (lh_block s) (Suc k) (babs s)"
    by (simp add: u(4) t(4) copied_Suc)
  then show ?case
    using t u bio_frame.frame_trans[OF t(3) u(3)] by (auto simp: kfor_append k_simps)
qed

section \<open>Commit and recovery\<close>

text \<open>A state between operations: what is pinned is what the header lists.\<close>

definition log_area :: "'x log_state_scheme \<Rightarrow> bool" where
  "log_area s \<longleftrightarrow> bc_inv s \<and> lg_dev s = 1 \<and> 0 < lg_size s \<and> lg_size s \<le> NBUF \<and> lg_start s + lg_size s \<le> disksize s"

definition log_geom :: "'x log_state_scheme \<Rightarrow> bool" where
  "log_geom s \<longleftrightarrow> log_area s \<and> held s = Map.empty"

definition log_core :: "'x log_state_scheme \<Rightarrow> bool" where
  "log_core s \<longleftrightarrow> log_area s \<and> 0 \<le> lh_n s \<and> lh_n s < int (lg_size s) \<and> inj_on (lh_block s) {..<nat (lh_n s)} \<and>
     dirty s = lh_block s ` {..<nat (lh_n s)} \<and> hd_n (dblock (memdisk s) (lg_start s)) = 0 \<and>
     (\<forall>i<nat (lh_n s). home (lg_start s) (lg_size s) (lh_block s i) \<and> lh_block s i < disksize s \<and> lh_block s i < 2 ^ 32)"

definition log_ok :: "'x log_state_scheme \<Rightarrow> bool" where
  "log_ok s \<longleftrightarrow> log_core s \<and> held s = Map.empty"

lemma log_geom_cong:
  assumes "log_geom s" and "bc_inv t" and "held t = Map.empty" and "bio_frame s t"
  shows "log_geom t"
  using assms log_frame[OF assms(4)] by (simp add: log_geom_def log_area_def bio_frame_def)

lemma log_room:
  assumes "log_ok s"
  shows "room (babs s) 1" and "card (dirty s) = nat (lh_n s)"
proof -
  show c: "card (dirty s) = nat (lh_n s)"
    using assms by (simp add: log_ok_def log_core_def card_image)
  show "room (babs s) 1"
    using assms c by (auto simp: log_ok_def log_core_def log_geom_def log_area_def room_def)
qed

lemma view_len:
  assumes "bc_inv s" and "n < disksize s"
  shows "length (view s n) = BSIZE"
proof (cases "lookup s n")
  case None
  have "(n + 1) * BSIZE \<le> disksize s * BSIZE" using assms(2) by (simp only: mult_le_mono1 Suc_leI Suc_eq_plus1[symmetric])
  then show ?thesis using None assms(1) by (simp add: view_def dblock_def bc_inv_def)
next
  case (Some b)
  then show ?thesis using assms(1) lookup_SomeD[OF Some] by (simp add: view_def bc_inv_def buf_ok_def)
qed

lemma write_head_spec:
  assumes "log_geom s" and "room (babs s) 1" and "0 \<le> lh_n s" and "lh_n s \<le> int LOGSIZE"
  defines "h \<equiv> head_image (lh_n s) (lh_block s) (view s (lg_start s))"
  shows "\<exists>t. write_head s = Ok () t \<and> bc_inv t \<and> bio_frame s t \<and>
    babs t = (babs s)\<lparr>bc_view := (view s)(lg_start s := h), bc_disk := (dblock (memdisk s))(lg_start s := h),
      bc_dirty := dirty s - {lg_start s}, bc_writes := disk_writes s @ [(lg_start s, h)]\<rparr>"
proof -
  have g: "bc_inv s" "lg_start s < disksize s" "bc_held (babs s) (lg_start s) = None" "lg_dev s = 1"
    using assms(1) by (auto simp: log_geom_def log_area_def)
  have "4 + 4 * nat (lh_n s) \<le> BSIZE" using assms(3,4) by (simp add: LOGSIZE_def BSIZE_def)
  then have "length h = BSIZE" using view_len[OF g(1,2)] by (simp add: h_def head_image_def)
  then show ?thesis
    using bc.write_block[OF g(1-3), of "head_image (lh_n s) (lh_block s)"] assms(2) g(4)
    by (auto simp: write_head_def k_simps get_buf_def h_def)
qed

text \<open>
  The writes of a commit, on the map \<open>V\<close> of block contents: the blocks into the log, the
  header, the blocks into place, the cleared header.
\<close>

definition commit_writes :: "nat \<Rightarrow> nat \<Rightarrow> (nat \<Rightarrow> nat) \<Rightarrow> (nat \<Rightarrow> uchar list) \<Rightarrow> (nat \<times> uchar list) list" where
  "commit_writes start n f V =
     (let h = head_image (int n) f (V start) in
      map (\<lambda>i. (start + i + 1, V (f i))) [0..<n] @ [(start, h)] @
      map (\<lambda>i. (f i, V (f i))) [0..<n] @ [(start, head_image 0 f h)])"

lemma apply_writes_map:
  "inj_on g {..<n} \<Longrightarrow> i < n \<Longrightarrow> apply_writes (map (\<lambda>i. (g i, d i)) [0..<n]) D (g i) = d i"
  by (rule apply_writes_at) (auto simp: distinct_map comp_def atLeast0LessThan)

lemma apply_writes_map_other:
  "m \<notin> g ` {..<n} \<Longrightarrow> apply_writes (map (\<lambda>i. (g i, d i)) [0..<n]) D m = D m"
  by (rule apply_writes_other) (auto simp: atLeast0LessThan)

text \<open>The log's own fields are no part of the cache.\<close>

lemma cache_cong:
  fixes s t :: "'x bio_state_scheme"
  assumes "bufs t = bufs s" "memdisk t = memdisk s" "disksize t = disksize s" "slocks t = slocks s"
    "disk_writes t = disk_writes s" "cpuid t = cpuid s" "cpus t = cpus s" "locks t = locks s" "cpu_proc t = cpu_proc s"
  shows "babs t = babs s \<and> bc_inv t = bc_inv s \<and> view t = view s \<and> dirty t = dirty s \<and> held t = held s"
proof -
  have l: "lookup t = lookup s" using assms by (simp add: lookup_def fun_eq_iff)
  have v: "view t = view s" "dirty t = dirty s" "held t = held s"
    using assms by (simp_all add: view_def dirty_def held_def l fun_eq_iff cong: option.case_cong)
  have "quiet t = quiet s" using assms by (simp add: quiet_def irq_ok_def lock_free_def)
  then show ?thesis
    using assms v by (simp add: babs_def bc_inv_def myproc_def one_each_def buf_ok_def)
qed

lemma lh_n_cache [simp]:
  fixes s :: "'x log_state_scheme"
  shows "babs (s\<lparr>lh_n := v\<rparr>) = babs s" "bc_inv (s\<lparr>lh_n := v\<rparr>) = bc_inv s" "view (s\<lparr>lh_n := v\<rparr>) = view s"
    "dirty (s\<lparr>lh_n := v\<rparr>) = dirty s" "held (s\<lparr>lh_n := v\<rparr>) = held s"
  using cache_cong[of "s\<lparr>lh_n := v\<rparr>" s] by simp_all

lemma lh_block_cache [simp]:
  fixes s :: "'x log_state_scheme"
  shows "babs (s\<lparr>lh_block := v\<rparr>) = babs s" "bc_inv (s\<lparr>lh_block := v\<rparr>) = bc_inv s" "view (s\<lparr>lh_block := v\<rparr>) = view s"
    "dirty (s\<lparr>lh_block := v\<rparr>) = dirty s" "held (s\<lparr>lh_block := v\<rparr>) = held s"
  using cache_cong[of "s\<lparr>lh_block := v\<rparr>" s] by simp_all

lemma lg_outstanding_cache [simp]:
  fixes s :: "'x log_state_scheme"
  shows "babs (s\<lparr>lg_outstanding := v\<rparr>) = babs s" "bc_inv (s\<lparr>lg_outstanding := v\<rparr>) = bc_inv s" "view (s\<lparr>lg_outstanding := v\<rparr>) = view s"
    "dirty (s\<lparr>lg_outstanding := v\<rparr>) = dirty s" "held (s\<lparr>lg_outstanding := v\<rparr>) = held s"
  using cache_cong[of "s\<lparr>lg_outstanding := v\<rparr>" s] by simp_all

lemma lg_committing_cache [simp]:
  fixes s :: "'x log_state_scheme"
  shows "babs (s\<lparr>lg_committing := v\<rparr>) = babs s" "bc_inv (s\<lparr>lg_committing := v\<rparr>) = bc_inv s" "view (s\<lparr>lg_committing := v\<rparr>) = view s"
    "dirty (s\<lparr>lg_committing := v\<rparr>) = dirty s" "held (s\<lparr>lg_committing := v\<rparr>) = held s"
  using cache_cong[of "s\<lparr>lg_committing := v\<rparr>" s] by simp_all

lemma lg_start_cache [simp]:
  fixes s :: "'x log_state_scheme"
  shows "babs (s\<lparr>lg_start := v\<rparr>) = babs s" "bc_inv (s\<lparr>lg_start := v\<rparr>) = bc_inv s" "view (s\<lparr>lg_start := v\<rparr>) = view s"
    "dirty (s\<lparr>lg_start := v\<rparr>) = dirty s" "held (s\<lparr>lg_start := v\<rparr>) = held s"
  using cache_cong[of "s\<lparr>lg_start := v\<rparr>" s] by simp_all

lemma lg_size_cache [simp]:
  fixes s :: "'x log_state_scheme"
  shows "babs (s\<lparr>lg_size := v\<rparr>) = babs s" "bc_inv (s\<lparr>lg_size := v\<rparr>) = bc_inv s" "view (s\<lparr>lg_size := v\<rparr>) = view s"
    "dirty (s\<lparr>lg_size := v\<rparr>) = dirty s" "held (s\<lparr>lg_size := v\<rparr>) = held s"
  using cache_cong[of "s\<lparr>lg_size := v\<rparr>" s] by simp_all

lemma lg_dev_cache [simp]:
  fixes s :: "'x log_state_scheme"
  shows "babs (s\<lparr>lg_dev := v\<rparr>) = babs s" "bc_inv (s\<lparr>lg_dev := v\<rparr>) = bc_inv s" "view (s\<lparr>lg_dev := v\<rparr>) = view s"
    "dirty (s\<lparr>lg_dev := v\<rparr>) = dirty s" "held (s\<lparr>lg_dev := v\<rparr>) = held s"
  using cache_cong[of "s\<lparr>lg_dev := v\<rparr>" s] by simp_all

lemma more_lh_n:
  fixes u t :: "'x log_state_scheme"
  assumes "bio_state.more u = bio_state.more (t\<lparr>lh_n := v\<rparr>)"
  shows "bio_state.more (u\<lparr>lh_n := lh_n t\<rparr>) = bio_state.more t"
  using assms by (cases u; cases t; simp)

lemma more_head:
  fixes u t :: "'x log_state_scheme"
  assumes "bio_state.more u = bio_state.more (t\<lparr>lh_n := v, lh_block := w\<rparr>)"
  shows "bio_state.more (u\<lparr>lh_n := lh_n t, lh_block := lh_block t\<rparr>) = bio_state.more t"
  using assms by (cases u; cases t; simp)

text \<open>The four phases of a commit.\<close>

lemma log_okD:
  assumes "log_ok s"
  shows "log_geom s" "bc_inv s" "lg_dev s = 1" "held s = Map.empty" "lg_start s + lg_size s \<le> disksize s"
    "0 \<le> lh_n s" "lh_n s < int (lg_size s)" "inj_on (lh_block s) {..<nat (lh_n s)}" "dirty s = lh_block s ` {..<nat (lh_n s)}"
  using assms by (auto simp: log_ok_def log_core_def log_geom_def log_area_def)

lemma log_apart:
  assumes "log_ok s"
  shows "i < nat (lh_n s) \<Longrightarrow> lh_block s i < disksize s"
    and "i < nat (lh_n s) \<Longrightarrow> lg_start s + i + 1 \<notin> dirty s \<and> lg_start s + i + 1 < disksize s"
    and "lg_start s \<notin> dirty s"
proof -
  have h: "home (lg_start s) (lg_size s) (lh_block s j)" "lh_block s j < disksize s" if "j < nat (lh_n s)" for j
    using assms that by (auto simp: log_ok_def log_core_def)
  show "lh_block s i < disksize s" if "i < nat (lh_n s)" using h that by blast
  show "lg_start s + i + 1 \<notin> dirty s \<and> lg_start s + i + 1 < disksize s" if "i < nat (lh_n s)"
    using h(1) that log_okD(5,7,9)[OF assms] by (fastforce simp: home_def)
  show "lg_start s \<notin> dirty s" using h(1) log_okD(7,9)[OF assms] by (fastforce simp: home_def)
qed

lemma write_log_spec:
  assumes "log_ok s"
  defines "l \<equiv> map (\<lambda>i. (lg_start s + i + 1, view s (lh_block s i))) [0..<nat (lh_n s)]"
  shows "\<exists>t. write_log s = Ok () t \<and> bc_inv t \<and> bio_frame s t \<and>
    babs t = (babs s)\<lparr>bc_view := apply_writes l (view s), bc_disk := apply_writes l (dblock (memdisk s)),
      bc_writes := disk_writes s @ l\<rparr>"
proof -
  let ?n = "nat (lh_n s)" and ?dst = "\<lambda>i. lg_start s + i + 1"
  note g = log_okD[OF assms(1)]
  have "lh_block s i \<in> dirty s \<and> lh_block s i < disksize s" if "i < ?n" for i
    using that log_apart(1)[OF assms(1)] g(9) by blast
  then obtain t where t: "kfor write_one [0..<?n] s = Ok () t" "bc_inv t" "bio_frame s t"
      "babs t = copied (lh_block s) ?dst ?n (babs s)"
    using write_log_loop[OF g(2-4) log_room(1)[OF assms(1)], of ?n] log_apart(2)[OF assms(1)] by blast
  have "dirty s - ?dst ` {..<?n} = dirty s"
    using log_apart(2)[OF assms(1)] by blast
  then show ?thesis
    using t by (auto simp: write_log_def k_simps copied_def copies_def l_def)
qed

lemma install_trans_spec:
  assumes g: "log_geom s" and room: "room (babs s) 1" and n: "lh_n s < int (lg_size s)"
    and blk: "\<And>i. i < nat (lh_n s) \<Longrightarrow> home (lg_start s) (lg_size s) (lh_block s i) \<and> lh_block s i < disksize s"
    and clean: "\<And>i. i < nat (lh_n s) \<Longrightarrow> lg_start s + i + 1 \<notin> dirty s"
    and space: "(\<forall>i<nat (lh_n s). lh_block s i \<in> dirty s) \<and> inj_on (lh_block s) {..<nat (lh_n s)} \<or> room (babs s) 2"
  defines "p \<equiv> map (\<lambda>i. (lh_block s i, view s (lg_start s + i + 1))) [0..<nat (lh_n s)]"
  shows "\<exists>t. install_trans s = Ok () t \<and> bc_inv t \<and> bio_frame s t \<and>
    babs t = (babs s)\<lparr>bc_view := apply_writes p (view s), bc_disk := apply_writes p (dblock (memdisk s)),
      bc_dirty := dirty s - lh_block s ` {..<nat (lh_n s)}, bc_writes := disk_writes s @ p\<rparr>"
proof -
  let ?n = "nat (lh_n s)"
  have g': "bc_inv s" "lg_dev s = 1" "held s = Map.empty" "lg_start s + lg_size s \<le> disksize s"
    using g by (auto simp: log_geom_def log_area_def)
  have apart: "lg_start s + i + 1 \<noteq> lh_block s j" if "i < ?n" "j < ?n" for i j
    using blk[OF that(2)] that(1) n by (auto simp: home_def)
  have "lg_start s + i + 1 \<notin> dirty s \<and> lg_start s + i + 1 < disksize s" if "i < ?n" for i
    using clean[OF that] that n g'(4) by auto
  then obtain t where "kfor install_one [0..<?n] s = Ok () t" "bc_inv t" "bio_frame s t"
      "babs t = copied (\<lambda>i. lg_start s + i + 1) (lh_block s) ?n (babs s)"
    using install_loop[OF g'(1-3) room, of ?n] blk apart space by blast
  then show ?thesis
    by (auto simp: install_trans_def k_simps copied_def copies_def p_def)
qed

lemma log_view:
  "apply_writes (map (\<lambda>i. (start + i + 1, d i)) [0..<n]) V start = V start"
  "i < n \<Longrightarrow> apply_writes (map (\<lambda>i. (start + i + 1, d i)) [0..<n]) V (start + i + 1) = d i"
proof -
  show "apply_writes (map (\<lambda>i. (start + i + 1, d i)) [0..<n]) V start = V start"
    by (rule apply_writes_map_other) auto
  show "i < n \<Longrightarrow> apply_writes (map (\<lambda>i. (start + i + 1, d i)) [0..<n]) V (start + i + 1) = d i"
    using apply_writes_map[of "\<lambda>i. start + i + 1" n i d V] by (simp add: inj_on_def)
qed

lemma commit_front:
  assumes ok: "log_ok s" and small: "lh_n s \<le> int LOGSIZE"
  defines "ws \<equiv> map (\<lambda>i. (lg_start s + i + 1, view s (lh_block s i))) [0..<nat (lh_n s)] @
     [(lg_start s, head_image (lh_n s) (lh_block s) (view s (lg_start s)))]"
  shows "\<exists>t. kseq write_log write_head s = Ok () t \<and> bc_inv t \<and> bio_frame s t \<and>
    babs t = (babs s)\<lparr>bc_view := apply_writes ws (view s), bc_disk := apply_writes ws (dblock (memdisk s)),
      bc_writes := disk_writes s @ ws\<rparr>"
proof -
  note g = log_okD[OF ok]
  obtain t where t: "write_log s = Ok () t" "bc_inv t" "bio_frame s t"
    "babs t = (babs s)\<lparr>bc_view := apply_writes (butlast ws) (view s), bc_disk := apply_writes (butlast ws) (dblock (memdisk s)),
      bc_writes := disk_writes s @ butlast ws\<rparr>"
    using write_log_spec[OF ok] by (auto simp: ws_def)
  note ft = log_frame[OF t(3)]
  have bt: "view t = apply_writes (butlast ws) (view s)" "dblock (memdisk t) = apply_writes (butlast ws) (dblock (memdisk s))"
      "dirty t = dirty s" "held t = Map.empty" "disk_writes t = disk_writes s @ butlast ws"
    using t(4) g(4) by (simp_all add: babs_def)
  have "room (babs t) 1" using log_room(1)[OF ok] g(4) by (simp add: room_def bt)
  moreover have "view t (lg_start s) = view s (lg_start s)" by (simp add: bt(1) ws_def log_view(1)[simplified])
  ultimately obtain u where u: "write_head t = Ok () u" "bc_inv u" "bio_frame t u"
      "babs u = (babs t)\<lparr>bc_view := (view t)(lg_start s := snd (last ws)), bc_disk := (dblock (memdisk t))(lg_start s := snd (last ws)),
        bc_dirty := dirty s, bc_writes := disk_writes t @ [(lg_start s, snd (last ws))]\<rparr>"
    using write_head_spec[OF log_geom_cong[OF g(1) t(2) bt(4) t(3)]] g(6) small log_apart(3)[OF ok]
    by (auto simp: ft bt(3) ws_def)
  have "babs u = (babs s)\<lparr>bc_view := apply_writes ws (view s), bc_disk := apply_writes ws (dblock (memdisk s)),
      bc_writes := disk_writes s @ ws\<rparr>"
    unfolding u(4) using bt g(4) by (simp add: babs_def ws_def)
  then show ?thesis
    using t(1) u(1,2) bio_frame.frame_trans[OF t(3) u(3)] by (auto simp: k_simps)
qed

lemma commit_back:
  assumes g: "log_geom s" and room: "room (babs s) 1" and n: "lh_n s < int (lg_size s)" 
    and blk: "\<And>i. i < nat (lh_n s) \<Longrightarrow> home (lg_start s) (lg_size s) (lh_block s i) \<and> lh_block s i < disksize s"
    and clean: "\<And>i. i < nat (lh_n s) \<Longrightarrow> lg_start s + i + 1 \<notin> dirty s" and st: "lg_start s \<notin> dirty s"
    and space: "(\<forall>i<nat (lh_n s). lh_block s i \<in> dirty s) \<and> inj_on (lh_block s) {..<nat (lh_n s)} \<or> room (babs s) 2"
  defines "ws \<equiv> map (\<lambda>i. (lh_block s i, view s (lg_start s + i + 1))) [0..<nat (lh_n s)] @
     [(lg_start s, head_image 0 (lh_block s) (view s (lg_start s)))]"
  shows "\<exists>t. kseq install_trans (kseq (kmod (\<lambda>s. s\<lparr>lh_n := 0\<rparr>)) write_head) s = Ok () t \<and> bc_inv t \<and>
    bio_frame s (t\<lparr>lh_n := lh_n s\<rparr>) \<and> lh_n t = 0 \<and>
    babs t = (babs s)\<lparr>bc_view := apply_writes ws (view s), bc_disk := apply_writes ws (dblock (memdisk s)),
      bc_dirty := dirty s - lh_block s ` {..<nat (lh_n s)}, bc_writes := disk_writes s @ ws\<rparr>"
proof -
  obtain t where t: "install_trans s = Ok () t" "bc_inv t" "bio_frame s t"
    "babs t = (babs s)\<lparr>bc_view := apply_writes (butlast ws) (view s), bc_disk := apply_writes (butlast ws) (dblock (memdisk s)),
      bc_dirty := dirty s - lh_block s ` {..<nat (lh_n s)}, bc_writes := disk_writes s @ butlast ws\<rparr>"
    using install_trans_spec[OF g room n blk clean space] by (auto simp: ws_def)
  note ft = log_frame[OF t(3)]
  have bt: "view t = apply_writes (butlast ws) (view s)" "dblock (memdisk t) = apply_writes (butlast ws) (dblock (memdisk s))"
      "dirty t = dirty s - lh_block s ` {..<nat (lh_n s)}" "held t = Map.empty" "disk_writes t = disk_writes s @ butlast ws"
    using t(4) g by (simp_all add: babs_def log_geom_def log_area_def)
  let ?t = "t\<lparr>lh_n := 0\<rparr>"
  have "log_geom ?t"
    using log_geom_cong[OF g t(2) bt(4) t(3)] by (simp add: log_geom_def log_area_def)
  moreover have "card (dirty t) \<le> card (dirty s)"
    unfolding bt(3) by (rule card_mono) (auto simp: dirty_def)
  then have "room (babs ?t) 1" using room g by (simp add: room_def bt log_geom_def log_area_def)
  moreover have "lg_start s \<noteq> lh_block s i" if "i < nat (lh_n s)" for i
    using blk[OF that] that n by (auto simp: home_def)
  then have "view t (lg_start s) = view s (lg_start s)"
    unfolding bt(1) ws_def by (auto intro!: apply_writes_map_other)
  ultimately obtain u where u: "write_head ?t = Ok () u" "bc_inv u" "bio_frame ?t u"
      "babs u = (babs t)\<lparr>bc_view := (view t)(lg_start s := snd (last ws)), bc_disk := (dblock (memdisk t))(lg_start s := snd (last ws)),
        bc_dirty := dirty t, bc_writes := disk_writes t @ [(lg_start s, snd (last ws))]\<rparr>"
    using write_head_spec[of ?t] st by (auto simp: ft bt(3) ws_def)
  have "babs u = (babs s)\<lparr>bc_view := apply_writes ws (view s), bc_disk := apply_writes ws (dblock (memdisk s)),
      bc_dirty := dirty s - lh_block s ` {..<nat (lh_n s)}, bc_writes := disk_writes s @ ws\<rparr>"
    unfolding u(4) using bt g by (simp add: babs_def ws_def log_geom_def log_area_def)
  moreover have "bio_frame t (u\<lparr>lh_n := lh_n t\<rparr>)"
    using u(3) more_lh_n[of u _ t] by (simp add: bio_frame_def same_locks_def)
  then have "bio_frame s (u\<lparr>lh_n := lh_n s\<rparr>)"
    using bio_frame.frame_trans[OF t(3)] by (simp add: ft)
  moreover have "lh_n u = 0" using log_frame(6)[OF u(3)] by simp
  ultimately show ?thesis
    using t(1) u(1,2) by (auto simp: k_simps)
qed

lemma commit_spec:
  assumes ok: "log_ok s" and pos: "0 < lh_n s" and small: "lh_n s \<le> int LOGSIZE"
  defines "ws \<equiv> commit_writes (lg_start s) (nat (lh_n s)) (lh_block s) (view s)"
  shows "\<exists>t. commit s = Ok () t \<and> bc_inv t \<and> bio_frame s (t\<lparr>lh_n := lh_n s\<rparr>) \<and> lh_n t = 0 \<and>
    babs t = (babs s)\<lparr>bc_view := apply_writes ws (view s), bc_disk := apply_writes ws (dblock (memdisk s)),
      bc_dirty := {}, bc_writes := disk_writes s @ ws\<rparr>"
proof -
  let ?n = "nat (lh_n s)" and ?h = "head_image (lh_n s) (lh_block s) (view s (lg_start s))"
  let ?l = "map (\<lambda>i. (lg_start s + i + 1, view s (lh_block s i))) [0..<?n] @ [(lg_start s, ?h)]"
  note g = log_okD[OF ok]
  obtain t where t: "kseq write_log write_head s = Ok () t" "bc_inv t" "bio_frame s t"
    "babs t = (babs s)\<lparr>bc_view := apply_writes ?l (view s), bc_disk := apply_writes ?l (dblock (memdisk s)),
      bc_writes := disk_writes s @ ?l\<rparr>"
    using commit_front[OF ok small] by blast
  note ft = log_frame[OF t(3)]
  have bt: "view t = apply_writes ?l (view s)" "dblock (memdisk t) = apply_writes ?l (dblock (memdisk s))"
      "dirty t = dirty s" "held t = Map.empty" "disk_writes t = disk_writes s @ ?l" "disksize t = disksize s"
    using t(3,4) g(4) by (simp_all add: babs_def bio_frame_def)
  have vt: "view t (lg_start s + i + 1) = view s (lh_block s i)" if "i < ?n" for i
    using that log_view(2) by (simp add: bt(1))
  let ?q = "map (\<lambda>i. (lh_block s i, view t (lg_start s + i + 1))) [0..<?n] @ [(lg_start s, head_image 0 (lh_block s) (view t (lg_start s)))]"
  have "map (\<lambda>i. (lh_block s i, view t (lg_start s + i + 1))) [0..<?n] = map (\<lambda>i. (lh_block s i, view s (lh_block s i))) [0..<?n]"
    by (rule map_cong) (auto simp: vt[simplified])
  moreover have "view t (lg_start s) = ?h" by (simp add: bt(1))
  ultimately have ws: "ws = ?l @ ?q"
    using pos by (simp add: ws_def commit_writes_def Let_def)
  have geom: "log_geom t" by (rule log_geom_cong[OF g(1) t(2) bt(4) t(3)])
  have room: "room (babs t) 1" using log_room(1)[OF ok] g(4) by (simp add: room_def bt)
  have none: "dirty s - lh_block s ` {..<?n} = {}" using g(9) by simp
  have "\<exists>u. kseq install_trans (kseq (kmod (\<lambda>s. s\<lparr>lh_n := 0\<rparr>)) write_head) t = Ok () u \<and> bc_inv u \<and>
      bio_frame t (u\<lparr>lh_n := lh_n t\<rparr>) \<and> lh_n u = 0 \<and> babs u = (babs t)\<lparr>
        bc_view := apply_writes ?q (view t), bc_disk := apply_writes ?q (dblock (memdisk t)),
        bc_dirty := dirty s - lh_block s ` {..<?n}, bc_writes := disk_writes t @ ?q\<rparr>"
    using commit_back[OF geom room] ok g(7,8,9) log_apart[OF ok] unfolding ft bt(3,6) log_ok_def log_core_def by auto
  then obtain u where u: "kseq install_trans (kseq (kmod (\<lambda>s. s\<lparr>lh_n := 0\<rparr>)) write_head) t = Ok () u" "bc_inv u"
      "bio_frame t (u\<lparr>lh_n := lh_n t\<rparr>)" "lh_n u = 0" "babs u = (babs t)\<lparr>
        bc_view := apply_writes ?q (view t), bc_disk := apply_writes ?q (dblock (memdisk t)),
        bc_dirty := {}, bc_writes := disk_writes t @ ?q\<rparr>"
    unfolding none by blast
  obtain x where "write_log s = Ok () x" "write_head x = Ok () t"
    using t(1) by (auto simp: kseq_eq_Ok)
  then have "commit s = Ok () u"
    using pos u(1) by (simp add: commit_def k_simps)
  moreover have "bio_frame s (u\<lparr>lh_n := lh_n s\<rparr>)"
    using bio_frame.frame_trans[OF t(3) u(3)] by (simp add: ft)
  moreover have "babs u = (babs s)\<lparr>bc_view := apply_writes ws (view s), bc_disk := apply_writes ws (dblock (memdisk s)),
      bc_dirty := {}, bc_writes := disk_writes s @ ws\<rparr>"
    unfolding u(5) ws apply_writes_simps(3) bt(1,2,5) using bt(4) g(4) by (simp add: babs_def)
  ultimately show ?thesis using u(2,4) by blast
qed

text \<open>
  Recovery on a block map: install what the header lists, then clear it. The header must be
  one that a commit writes.
\<close>

definition head_ok :: "nat \<Rightarrow> nat \<Rightarrow> nat \<Rightarrow> uchar list \<Rightarrow> bool" where
  "head_ok start len sz h \<longleftrightarrow> 0 \<le> hd_n h \<and> hd_n h \<le> int LOGSIZE \<and> hd_n h < int len \<and>
     (\<forall>i<nat (hd_n h). home start len (hd_block h i) \<and> hd_block h i < sz)"

definition recover_writes :: "nat \<Rightarrow> (nat \<Rightarrow> uchar list) \<Rightarrow> (nat \<times> uchar list) list" where
  "recover_writes start D = map (\<lambda>i. (hd_block (D start) i, D (start + i + 1))) [0..<nat (hd_n (D start))] @
     [(start, put32 0 0 (D start))]"

lemma read_head_spec:
  assumes g: "log_geom s" and room: "room (babs s) 1" and clean: "lg_start s \<notin> dirty s"
  defines "h \<equiv> dblock (memdisk s) (lg_start s)"
  assumes ok: "hd_n h \<le> int LOGSIZE"
  shows "\<exists>t. read_head s = Ok () t \<and> bc_inv t \<and> babs t = babs s \<and> lh_n t = hd_n h \<and>
    (\<forall>i<nat (hd_n h). lh_block t i = hd_block h i) \<and> bio_frame s (t\<lparr>lh_n := lh_n s, lh_block := lh_block s\<rparr>)"
proof -
  have g': "bc_inv s" "held s = Map.empty" "lg_dev s = 1" "lg_start s < disksize s"
    using g by (auto simp: log_geom_def log_area_def)
  have vs: "view s (lg_start s) = h" using clean_view[OF g'(1)] clean g'(2) by (simp add: h_def)
  obtain b t where t: "bread 1 (lg_start s) s = Ok b t" "bc_inv t" "bio_frame s t" "babs t = (babs s)\<lparr>bc_held := (held s)(lg_start s \<mapsto> b)\<rparr>"
    using bread_spec[OF g'(1,4)] g'(2) room by (auto simp: room_def)
  note ft = log_frame[OF t(3)]
  have ht: "held t (lg_start s) = Some b" and "view t = view s" and mt: "dblock (memdisk t) = dblock (memdisk s)"
    using t(4) by (simp_all add: babs_def)
  then have d: "b_data (bufs t b) = h"
    using held_SomeD[OF t(2) ht] vs by simp
  define f where "f = (\<lambda>i. if i < nat (hd_n h) then hd_block h i else lh_block s i)"
  let ?u = "t\<lparr>lh_n := hd_n h, lh_block := f\<rparr>"
  have u: "bc_inv ?u" "babs ?u = babs t" using t(2) by simp_all
  have "bc_held (babs ?u) (lg_start s) = Some b" "bc_view (babs ?u) (lg_start s) = bc_disk (babs ?u) (lg_start s)"
    unfolding u(2) using ht vs \<open>view t = view s\<close> mt by (simp_all add: h_def)
  then obtain v where v: "brelse b ?u = Ok () v" "bc_inv v" "babs v = (babs t)\<lparr>bc_held := (held t)(lg_start s := None)\<rparr>" "bio_frame ?u v"
    using bc.rel_ok[OF u(1), of "lg_start s" b] unfolding u(2) by auto
  have "babs v = babs s"
    unfolding v(3) using t(4) g'(2) by (auto simp: babs_def)
  moreover have "read_head s = Ok () v"
    using g'(3) t(1) ok v(1) by (simp add: read_head_def k_simps get_buf_def d f_def ft cong: if_cong)
  moreover have "bio_frame t (v\<lparr>lh_n := lh_n t, lh_block := lh_block t\<rparr>)"
    using v(4) more_head[of v _ _ t] by (simp add: bio_frame_def same_locks_def)
  then have "bio_frame s (v\<lparr>lh_n := lh_n s, lh_block := lh_block s\<rparr>)"
    using bio_frame.frame_trans[OF t(3)] by (simp add: ft)
  moreover have "lh_n v = hd_n h" "lh_block v = f"
    using log_frame(6,7)[OF v(4)] by simp_all
  ultimately show ?thesis using v(2) by (auto simp: f_def)
qed

lemma recover_spec:
  assumes g: "log_geom s" and clean: "dirty s = {}" and ok: "head_ok (lg_start s) (lg_size s) (disksize s) (dblock (memdisk s) (lg_start s))"
  defines "ws \<equiv> recover_writes (lg_start s) (dblock (memdisk s))"
  shows "\<exists>t. recover_from_log s = Ok () t \<and> log_geom t \<and> lh_n t = 0 \<and> dirty t = {} \<and> lg_start t = lg_start s \<and>
    lg_size t = lg_size s \<and> disksize t = disksize s \<and>
    dblock (memdisk t) = apply_writes ws (dblock (memdisk s)) \<and> disk_writes t = disk_writes s @ ws \<and>
    log_state.more t = log_state.more s"
proof -
  let ?h = "dblock (memdisk s) (lg_start s)"
  have r: "room (babs s) 1" "room (babs s) 2" using g clean by (simp_all add: room_def log_geom_def log_area_def NBUF_def)
  obtain t where t: "read_head s = Ok () t" "bc_inv t" "babs t = babs s" "lh_n t = hd_n ?h"
      "\<forall>i<nat (hd_n ?h). lh_block t i = hd_block ?h i" "bio_frame s (t\<lparr>lh_n := lh_n s, lh_block := lh_block s\<rparr>)"
    using read_head_spec[OF g r(1)] clean ok by (auto simp: head_ok_def)
  note ft = log_frame(1-5,8)[OF t(6), simplified]
  have bt: "view t = dblock (memdisk s)" "dblock (memdisk t) = dblock (memdisk s)" "dirty t = {}" "disk_writes t = disk_writes s"
      "held t = Map.empty" "disksize t = disksize s"
    using t(3,6) g clean clean_view[of s] by (auto simp: babs_def bio_frame_def log_geom_def log_area_def)
  have gt: "log_geom t" using g t(2) bt by (simp add: log_geom_def log_area_def ft)
  have rt: "room (babs t) 1" "room (babs t) 2" using r t(3) by simp_all
  let ?q = "map (\<lambda>i. (lh_block t i, view t (lg_start t + i + 1))) [0..<nat (lh_n t)] @ [(lg_start t, head_image 0 (lh_block t) (view t (lg_start t)))]"
  have q: "?q = ws"
    using t(4,5) by (auto simp: ws_def recover_writes_def ft bt(1) head_image_def)
  have blk: "home (lg_start t) (lg_size t) (lh_block t i) \<and> lh_block t i < disksize t" if "i < nat (lh_n t)" for i
    using ok that t(4,5) by (simp add: head_ok_def ft bt(6))
  have n: "lh_n t < int (lg_size t)" using ok t(4) by (simp add: head_ok_def ft)
  from commit_back[OF gt rt(1) n blk]
  obtain u where u: "kseq install_trans (kseq (kmod (\<lambda>s. s\<lparr>lh_n := 0\<rparr>)) write_head) t = Ok () u" "bc_inv u"
      "bio_frame t (u\<lparr>lh_n := lh_n t\<rparr>)" "lh_n u = 0" "babs u = (babs t)\<lparr>
        bc_view := apply_writes ws (view t), bc_disk := apply_writes ws (dblock (memdisk t)),
        bc_dirty := {}, bc_writes := disk_writes t @ ws\<rparr>"
    using rt(2) bt(3) unfolding q by auto
  note fu = log_frame(1-5,8)[OF u(3), simplified]
  have bu: "dblock (memdisk u) = apply_writes ws (dblock (memdisk s))" "dirty u = {}" "held u = Map.empty"
      "disk_writes u = disk_writes s @ ws" "disksize u = disksize s"
    using u(3,5) bt by (simp_all add: babs_def bio_frame_def)
  have "recover_from_log s = Ok () u"
    using t(1) u(1) by (simp add: recover_from_log_def k_simps)
  moreover have "log_geom u" using gt u(2) bu bt(6) by (simp add: log_geom_def log_area_def fu)
  ultimately show ?thesis using u(4) bu fu ft by auto
qed

text \<open>
  A crash after the first \<open>k\<close> writes of a commit: recovery then gives all the old blocks or all
  the new ones.
\<close>

definition put_blocks :: "nat \<Rightarrow> (nat \<Rightarrow> nat) \<Rightarrow> (nat \<Rightarrow> uchar list) \<Rightarrow> (nat \<Rightarrow> uchar list) \<Rightarrow> nat \<Rightarrow> uchar list" where
  "put_blocks n f V D m = (if m \<in> f ` {..<n} then V m else D m)"

definition log_layout :: "nat \<Rightarrow> nat \<Rightarrow> nat \<Rightarrow> nat \<Rightarrow> (nat \<Rightarrow> nat) \<Rightarrow> bool" where
  "log_layout start len sz n f \<longleftrightarrow> inj_on f {..<n} \<and> n < len \<and> n \<le> LOGSIZE \<and>
     (\<forall>i<n. home start len (f i) \<and> f i < sz \<and> f i < 2 ^ 32)"

lemma layout_away:
  assumes "log_layout start len sz n f"
  shows "start \<notin> f ` {..<n}" "i < n \<Longrightarrow> start + i + 1 \<notin> f ` {..<n}"
    "home start len m \<Longrightarrow> m \<noteq> start" "home start len m \<Longrightarrow> k \<le> n \<Longrightarrow> m \<notin> (\<lambda>i. start + i + 1) ` {..<k}"
  using assms by (fastforce simp: log_layout_def home_def)+

lemma put_blocks_writes:
  assumes "inj_on f {..<n}"
  shows "apply_writes (map (\<lambda>i. (f i, V (f i))) [0..<n]) E m = put_blocks n f V E m"
  unfolding put_blocks_def using assms apply_writes_map[of f n _ "\<lambda>i. V (f i)" E] by (auto intro: apply_writes_map_other)

lemma put_blocks_again: "put_blocks n f V (apply_writes (take j (map (\<lambda>i. (f i, V (f i))) [0..<n])) E) m = put_blocks n f V E m"
  by (auto simp: put_blocks_def intro!: apply_writes_other dest!: in_set_takeD)

lemma head_layout:
  assumes "log_layout start len sz n f" and "length d = BSIZE"
  shows "hd_n (head_image (int n) f d) = int n" "head_ok start len sz (head_image (int n) f d)"
    "i < n \<Longrightarrow> hd_block (head_image (int n) f d) i = f i" "length (head_image (int n) f d) = BSIZE"
    "hd_n (head_image 0 f d) = 0"
proof -
  have b: "\<And>i. i < nat (int n) \<Longrightarrow> f i < 2 ^ 32" "int n \<le> int LOGSIZE" using assms(1) by (auto simp: log_layout_def)
  note h = head_image[OF _ b(2) assms(2), of f]
  show "hd_n (head_image (int n) f d) = int n" "length (head_image (int n) f d) = BSIZE"
    "i < n \<Longrightarrow> hd_block (head_image (int n) f d) i = f i" using h b(1) by simp_all
  then show "head_ok start len sz (head_image (int n) f d)"
    using assms(1) h(3) b(1) by (simp add: head_ok_def log_layout_def)
  show "hd_n (head_image 0 f d) = 0" using head_image(2)[of 0 d f] assms(2) by simp
qed

text \<open>The three stages a crash can leave the disk in.\<close>

lemma crash_early:
  fixes V D :: "nat \<Rightarrow> uchar list"
  assumes lay: "log_layout start len sz n f" and k: "k \<le> n" 
  defines "E \<equiv> apply_writes (take k (commit_writes start n f V)) D"
  shows "E start = D start" and "home start len m \<Longrightarrow> E m = D m"
proof -
  have e: "E = apply_writes (map (\<lambda>i. (start + i + 1, V (f i))) [0..<k]) D"
    using k by (simp add: E_def commit_writes_def Let_def take_map)
  show "E start = D start" unfolding e by (rule log_view(1))
  show "home start len m \<Longrightarrow> E m = D m" unfolding e
    using layout_away(4)[OF lay _ k] by (intro apply_writes_map_other)
qed

lemma crash_late:
  fixes V D :: "nat \<Rightarrow> uchar list"
  assumes lay: "log_layout start len sz n f" and len: "length (V start) = BSIZE" and k: "n < k" "k \<le> 2 * n + 1"
  defines "E \<equiv> apply_writes (take k (commit_writes start n f V)) D"
  shows "E start = head_image (int n) f (V start)" and "i < n \<Longrightarrow> E (start + i + 1) = V (f i)"
    and "home start len m \<Longrightarrow> put_blocks n f V E m = put_blocks n f V D m"
proof -
  let ?l = "map (\<lambda>i. (start + i + 1, V (f i))) [0..<n]" and ?h = "head_image (int n) f (V start)"
  let ?p = "map (\<lambda>i. (f i, V (f i))) [0..<n]"
  have "take k (commit_writes start n f V) = ?l @ (start, ?h) # take (k - Suc n) ?p"
    using k by (cases "k - n") (auto simp: commit_writes_def Let_def diff_Suc)
  then have e: "E = apply_writes (take (k - Suc n) ?p) ((apply_writes ?l D)(start := ?h))"
    by (simp add: E_def)
  have out: "E x = ((apply_writes ?l D)(start := ?h)) x" if "x \<notin> f ` {..<n}" for x
    unfolding e by (rule apply_writes_other) (use that in \<open>auto dest!: in_set_takeD\<close>)
  show "E start = ?h" using out[OF layout_away(1)[OF lay]] by simp
  show "i < n \<Longrightarrow> E (start + i + 1) = V (f i)"
    using out[OF layout_away(2)[OF lay]] log_view(2)[of i n start] by simp
  assume h: "home start len m"
  show "put_blocks n f V E m = put_blocks n f V D m"
    unfolding e put_blocks_again using layout_away(3,4)[OF lay h] apply_writes_map_other[of m "\<lambda>i. start + i + 1" n]
    by (simp add: put_blocks_def)
qed

lemma crash_end:
  fixes V D :: "nat \<Rightarrow> uchar list"
  assumes lay: "log_layout start len sz n f" and len: "length (V start) = BSIZE"
  defines "E \<equiv> apply_writes (commit_writes start n f V) D"
  shows "hd_n (E start) = 0" and "home start len m \<Longrightarrow> E m = put_blocks n f V D m"
proof -
  have e: "E = (apply_writes (take (2 * n + 1) (commit_writes start n f V)) D)(start := head_image 0 f (head_image (int n) f (V start)))"
    by (simp add: E_def commit_writes_def Let_def)
  show "hd_n (E start) = 0" unfolding e using head_layout(4,5)[OF lay] len by simp
  assume h: "home start len m"
  let ?l = "map (\<lambda>i. (start + i + 1, V (f i))) [0..<n]"
  have "E m = put_blocks n f V (apply_writes ?l D) m"
    using layout_away(1,3)[OF lay] h lay put_blocks_writes[of f n V]
    by (auto simp: E_def commit_writes_def Let_def put_blocks_def log_layout_def)
  then show "E m = put_blocks n f V D m"
    using layout_away(4)[OF lay h, of n] apply_writes_map_other[of m "\<lambda>i. start + i + 1" n] by (simp add: put_blocks_def)
qed

lemma crash_recovery:
  fixes V D :: "nat \<Rightarrow> uchar list" and k :: nat
  assumes lay: "log_layout start len sz n f" and len: "length (V start) = BSIZE" and zero: "hd_n (D start) = 0"
  defines "E \<equiv> apply_writes (take k (commit_writes start n f V)) D"
  defines "R \<equiv> apply_writes (recover_writes start E) E"
  shows "head_ok start len sz (E start)"
    and "(\<forall>m. home start len m \<longrightarrow> R m = D m) \<or> (\<forall>m. home start len m \<longrightarrow> R m = put_blocks n f V D m)"
proof -
  have z: "head_ok start len sz h" if "hd_n h = 0" for h
    using that lay by (simp add: head_ok_def log_layout_def)
  have r0: "R m = E m" if "hd_n (E start) = 0" "home start len m" for m
    using that layout_away(3)[OF lay] by (simp add: R_def recover_writes_def)
  consider "k \<le> n" | "n < k" "k \<le> 2 * n + 1" | "2 * n + 2 \<le> k" by linarith
  then have "head_ok start len sz (E start) \<and>
    ((\<forall>m. home start len m \<longrightarrow> R m = D m) \<or> (\<forall>m. home start len m \<longrightarrow> R m = put_blocks n f V D m))"
  proof cases
    case 1
    note e = crash_early[OF lay 1, where V = V and D = D, folded E_def]
    then show ?thesis using z r0 zero by simp
  next
    case 2
    note e = crash_late[where V = V and D = D, OF lay len 2, folded E_def]
    note h = head_layout[OF lay len]
    have "recover_writes start E = map (\<lambda>i. (f i, V (f i))) [0..<n] @ [(start, put32 0 0 (E start))]"
      unfolding recover_writes_def e(1) h(1) using h(3) e(2) by auto
    then have "R m = put_blocks n f V E m" if "home start len m" for m
      using that layout_away(3)[OF lay that] lay put_blocks_writes[of f n V E] by (simp add: R_def log_layout_def)
    then show ?thesis using e h(2) by simp
  next
    case 3
    then have "take k (commit_writes start n f V) = commit_writes start n f V"
      by (simp add: commit_writes_def Let_def)
    then have "E = apply_writes (commit_writes start n f V) D" by (simp add: E_def)
    then show ?thesis using crash_end[where V = V and D = D, OF lay len] z r0 by simp
  qed
  then show "head_ok start len sz (E start)"
    and "(\<forall>m. home start len m \<longrightarrow> R m = D m) \<or> (\<forall>m. home start len m \<longrightarrow> R m = put_blocks n f V D m)"
    by blast+
qed

text \<open>Booting: the superblock gives the log area, which is then recovered.\<close>

lemma initlock_cache:
  fixes s :: "'x bio_state_scheme"
  assumes "bc_inv s"
  shows "\<exists>t. initlock lk nm s = Ok () t \<and> bc_inv t \<and> babs t = babs s \<and> disksize t = disksize s \<and> bio_state.more t = bio_state.more s"
proof -
  let ?l = "(locks s)(lk := (locks s lk)\<lparr>lk_name := nm, locked := 0, lk_cpu := None\<rparr>)"
  have "lookup (s\<lparr>locks := ?l\<rparr>) = lookup s" by (simp add: lookup_def fun_eq_iff)
  then have "babs (s\<lparr>locks := ?l\<rparr>) = babs s"
    by (simp add: babs_def view_def dirty_def held_def fun_eq_iff cong: option.case_cong)
  moreover have "bc_inv (s\<lparr>locks := ?l\<rparr>)"
    using assms by (auto simp: bc_inv_def quiet_def irq_ok_def lock_free_def myproc_def one_each_def buf_ok_def)
  ultimately show ?thesis
    by (simp add: initlock_def set_lock_def k_simps)
qed

lemma initlog_spec:
  fixes s :: "'x log_state_scheme"
  assumes inv: "bc_inv s" "dirty s = {}" "held s = Map.empty"
  defines "D \<equiv> dblock (memdisk s)"
  defines "start \<equiv> sb_logstart (sb_decode (D 1))" and "len \<equiv> sb_nlog (sb_decode (D 1))"
  assumes sz: "1 < disksize s" "0 < len" "len \<le> NBUF" "start + len \<le> disksize s"
    and ok: "head_ok start len (disksize s) (D start)"
  shows "\<exists>t. initlog 1 s = Ok () t \<and> log_ok t \<and> lh_n t = 0 \<and> lg_start t = start \<and> lg_size t = len \<and>
    disksize t = disksize s \<and> dblock (memdisk t) = apply_writes (recover_writes start D) D \<and> log_state.more t = log_state.more s"
proof -
  obtain t where t: "initlock LogLock ''log'' s = Ok () t" "bc_inv t" "babs t = babs s" "disksize t = disksize s"
      "bio_state.more t = bio_state.more s"
    using initlock_cache[OF inv(1)] by blast
  have bt: "dirty t = {}" "held t = Map.empty" "dblock (memdisk t) = D" "view t = D"
    using t(3) inv clean_view[OF inv(1)] by (auto simp: babs_def D_def)
  have r: "room (babs t) 1" by (simp add: room_def bt NBUF_def)
  obtain u where u: "readsb 1 t = Ok (sb_decode (D 1)) u" "bc_inv u" "babs u = babs t" "bio_frame t u"
    using bc.read_block[OF t(2), of 1 sb_decode] sz(1) r bt(2,4) by (auto simp: readsb_def get_buf_def t(4))
  let ?u = "u\<lparr>lg_start := start, lg_size := len, lg_dev := 1\<rparr>"
  have bu: "dirty u = {}" "held u = Map.empty" "dblock (memdisk u) = D" "disksize u = disksize s"
    using u(3,4) bt t(4) by (simp_all add: babs_def bio_frame_def)
  have "log_geom ?u" using u(2) bu sz by (simp add: log_geom_def log_area_def)
  then obtain v where v: "recover_from_log ?u = Ok () v" "log_geom v" "lh_n v = 0" "dirty v = {}" "lg_start v = start" "lg_size v = len"
      "disksize v = disksize s" "dblock (memdisk v) = apply_writes (recover_writes start D) D" "log_state.more v = log_state.more u"
    using recover_spec[of ?u] ok bu by (auto simp: D_def)
  have more: "log_state.more u = log_state.more s" using log_frame(8)[OF u(4)] more_log(8)[OF t(5)] by simp
  have "start < disksize t" using sz(2,4) t(4) by simp
  then have "length (D start) = BSIZE" using view_len[OF t(2)] bt(4) by simp
  then have "hd_n (dblock (memdisk v) start) = 0"
    unfolding v(8) by (simp add: recover_writes_def hd_n_def BSIZE_def)
  then have "log_ok v" using v sz by (simp add: log_ok_def log_core_def log_geom_def)
  moreover have "initlog 1 s = Ok () v"
    using t(1) u(1) v(1) by (simp add: initlog_def k_simps LOGSIZE_def BSIZE_def start_def len_def)
  ultimately show ?thesis using v more by auto
qed

section \<open>Operations inside a transaction\<close>

lemma begin_op_eq:
  assumes "quiet s" and "\<not> lg_committing s" and "lh_n s + (lg_outstanding s + 1) * int MAXOPBLOCKS \<le> int LOGSIZE"
  shows "begin_op s = Ok () (s\<lparr>lg_outstanding := lg_outstanding s + 1\<rparr>)"
proof -
  have q: "irq_ok s" "lock_free LogLock s" using assms(1) by (simp_all add: quiet_def)
  let ?u = "(taken LogLock s)\<lparr>lg_outstanding := lg_outstanding s + 1\<rparr>"
  have "begin_op_loop (taken LogLock s) = release LogLock ?u"
    using assms(2,3) by (simp add: begin_op_loop_def k_simps taken_def)
  also have "\<dots> = Ok () (restore_locks s ?u)"
    by (rule release_taken[OF q]) (simp add: same_locks_def)
  finally show ?thesis
    using acquire_free[OF q(2)] by (simp add: begin_op_def k_simps restore_locks_def taken_def)
qed

lemma log_write_eq:
  fixes b :: nat
  assumes "quiet s" and "lh_n s < int LOGSIZE" and "lh_n s < int (lg_size s) - 1" and "1 \<le> lg_outstanding s"
  defines "n \<equiv> b_no (bufs s b)"
  defines "i \<equiv> log_slot n s"
  shows "log_write b s = Ok () (s\<lparr>bufs := (bufs s)(b := (bufs s b)\<lparr>b_dirty := True\<rparr>),
    lh_n := (if int i = lh_n s then lh_n s + 1 else lh_n s), lh_block := (lh_block s)(i := n)\<rparr>)"
proof -
  have q: "irq_ok s" "lock_free LogLock s" using assms(1) by (simp_all add: quiet_def)
  let ?u = "if int i = lh_n s
    then (taken LogLock s)\<lparr>lh_block := (lh_block s)(i := n), lh_n := lh_n s + 1, bufs := (bufs s)(b := (bufs s b)\<lparr>b_dirty := True\<rparr>)\<rparr>
    else (taken LogLock s)\<lparr>lh_block := (lh_block s)(i := n), bufs := (bufs s)(b := (bufs s b)\<lparr>b_dirty := True\<rparr>)\<rparr>"
  have slot: "log_slot n (taken LogLock s) = i" by (simp add: i_def log_slot_def taken_def split: option.split)
  have "log_write b s = release LogLock ?u"
    using assms(2-4) acquire_free[OF q(2)] slot
    by (cases "int i = lh_n s") (simp_all add: log_write_def k_simps buf_ops n_def taken_def)
  also have "\<dots> = Ok () (restore_locks s ?u)"
    by (rule release_taken[OF q]) (simp add: same_locks_def)
  finally show ?thesis
    by (cases s) (simp add: restore_locks_def taken_def)
qed

lemma log_slot:
  assumes "0 \<le> lh_n s"
  shows "log_slot n s \<le> nat (lh_n s)" and "log_slot n s < nat (lh_n s) \<Longrightarrow> lh_block s (log_slot n s) = n"
    and "log_slot n s = nat (lh_n s) \<longleftrightarrow> n \<notin> lh_block s ` {..<nat (lh_n s)}"
proof -
  have "log_slot n s < nat (lh_n s) \<and> lh_block s (log_slot n s) = n \<and> n \<in> lh_block s ` {..<nat (lh_n s)} \<or>
    log_slot n s = nat (lh_n s) \<and> n \<notin> lh_block s ` {..<nat (lh_n s)}"
  proof (cases "find (\<lambda>i. lh_block s i = n) [0..<nat (lh_n s)]")
    case None
    then show ?thesis using find_None_iff[THEN iffD1, OF None] by (auto simp: log_slot_def)
  next
    case (Some i)
    then show ?thesis using find_Some_iff[THEN iffD1, OF Some] by (auto simp: log_slot_def)
  qed
  then show "log_slot n s \<le> nat (lh_n s)" "log_slot n s < nat (lh_n s) \<Longrightarrow> lh_block s (log_slot n s) = n"
    "log_slot n s = nat (lh_n s) \<longleftrightarrow> n \<notin> lh_block s ` {..<nat (lh_n s)}"
    by auto
qed

lemma log_write_spec:
  assumes core: "log_core s" and h: "held s n = Some b" and home: "home (lg_start s) (lg_size s) n" "n < 2 ^ 32"
    and room: "lh_n s < int LOGSIZE" "lh_n s < int (lg_size s) - 1" "1 \<le> lg_outstanding s"
  shows "\<exists>t. log_write b s = Ok () t \<and> log_core t \<and> babs t = (babs s)\<lparr>bc_dirty := insert n (dirty s)\<rparr> \<and>
    lh_n t = (if n \<in> dirty s then lh_n s else lh_n s + 1) \<and> bio_frame s (t\<lparr>lh_n := lh_n s, lh_block := lh_block s\<rparr>)"
proof -
  have inv: "bc_inv s" and q: "quiet s" and n0: "0 \<le> lh_n s" and inj: "inj_on (lh_block s) {..<nat (lh_n s)}"
    and d: "dirty s = lh_block s ` {..<nat (lh_n s)}"
    using core by (auto simp: log_core_def log_area_def bc_inv_def)
  note b = held_SomeD[OF inv h]
  let ?i = "log_slot n s"
  let ?v = "if n \<in> dirty s then lh_n s else lh_n s + 1"
  let ?t = "s\<lparr>bufs := (bufs s)(b := (bufs s b)\<lparr>b_dirty := True\<rparr>), lh_n := ?v, lh_block := (lh_block s)(?i := n)\<rparr>"
  note slot = log_slot[OF n0, of n]
  have "int ?i = lh_n s \<longleftrightarrow> n \<notin> dirty s" unfolding d slot(3)[symmetric] using n0 by auto
  then have run: "log_write b s = Ok () ?t"
    using log_write_eq[OF q room, of b] b by (simp cong: if_cong)
  obtain u where u: "set_buf b (\<lambda>x. x\<lparr>b_dirty := True\<rparr>) s = Ok () u" "bc_inv u" "babs u = (babs s)\<lparr>bc_dirty := insert n (dirty s)\<rparr>" "bio_frame s u"
    using pin_spec[OF inv h] by blast
  then have u': "u = s\<lparr>bufs := (bufs s)(b := (bufs s b)\<lparr>b_dirty := True\<rparr>)\<rparr>"
    by (simp add: buf_ops k_simps)
  have t: "?t = u\<lparr>lh_n := ?v, lh_block := (lh_block s)(?i := n)\<rparr>" by (simp add: u')
  have bt: "babs ?t = babs u" "bc_inv ?t" using u(2) unfolding t by simp_all
  have sel: "dirty ?t = insert n (dirty s)" "dblock (memdisk ?t) = dblock (memdisk s)"
    using bt(1) u(3) by (simp_all add: babs_def)
  have area: "log_area ?t" using core bt(2) by (simp add: log_core_def log_area_def)
  have "log_core ?t"
  proof (cases "n \<in> dirty s")
    case True
    then have "?i < nat (lh_n s)" using slot(1,3) d by simp
    then have "(lh_block s)(?i := n) = lh_block s" using slot(2) by auto
    then show ?thesis
      unfolding log_core_def sel using core area True by (simp add: log_core_def insert_absorb)
  next
    case False
    then have i: "?i = nat (lh_n s)" "nat (lh_n s + 1) = Suc ?i" using slot(1,3) d n0 by simp_all
    have "lh_block s x \<noteq> n" if "x < nat (lh_n s)" for x using False that d by auto
    moreover have "n < disksize s" using b by simp
    ultimately show ?thesis
      unfolding log_core_def sel using core area False i home room n0
      by (auto simp: log_core_def lessThan_Suc less_Suc_eq inj_on_def)
  qed
  moreover have "bio_frame s (?t\<lparr>lh_n := lh_n s, lh_block := lh_block s\<rparr>)"
    using u(4) by (simp add: u')
  ultimately show ?thesis using run u(3) bt by auto
qed

text \<open>
  The step the file system makes again and again: read a block, change it, log the write. The
  disk is not touched.
\<close>

definition log_frame_rel :: "'x log_state_scheme \<Rightarrow> 'x log_state_scheme \<Rightarrow> bool" where
  "log_frame_rel s t \<longleftrightarrow> bio_frame s (t\<lparr>lh_n := lh_n s, lh_block := lh_block s\<rparr>)"

lemma log_frame_relD:
  assumes "log_frame_rel s t"
  shows "lg_start t = lg_start s" "lg_size t = lg_size s" "lg_outstanding t = lg_outstanding s"
    "lg_committing t = lg_committing s" "lg_dev t = lg_dev s" "log_state.more t = log_state.more s" "disksize t = disksize s"
    "cpu_proc t = cpu_proc s" "mem t = mem s" "woken_only (ptable s) (ptable t)" "same_locks t s"
    "slocks t (InodeSleep i) = slocks s (InodeSleep i)" "initproc t = initproc s" "nextpid t = nextpid s"
    "kend t = kend s" "use_lock t = use_lock s" "freelist t = freelist s"
  using assms log_frame[OF assms[unfolded log_frame_rel_def]]
  by (simp_all add: log_frame_rel_def bio_frame_def same_locks_def)

lemma log_frame_bio:
  assumes "bio_frame s t"
  shows "log_frame_rel s t"
proof -
  have "t\<lparr>lh_n := lh_n s, lh_block := lh_block s\<rparr> = t"
    using log_frame(6,7)[OF assms] by simp
  then show ?thesis using assms by (simp add: log_frame_rel_def)
qed

lemma log_frame_trans:
  assumes "log_frame_rel s t" and "log_frame_rel t u"
  shows "log_frame_rel s u"
proof -
  have "bio_frame (t\<lparr>lh_n := lh_n s, lh_block := lh_block s\<rparr>) (u\<lparr>lh_n := lh_n s, lh_block := lh_block s\<rparr>)"
    using assms(2) by (cases t; cases u) (simp add: log_frame_rel_def bio_frame_def same_locks_def)
  then show ?thesis
    using assms(1) bio_frame.frame_trans unfolding log_frame_rel_def by blast
qed

interpretation log_frame: kframe log_frame_rel
  by unfold_locales (auto intro: log_frame_trans log_frame_bio bio_frame.frame_refl)

lemma log_core_cong:
  assumes "log_core s" and "bc_inv t" and "bio_frame s t" and "dirty t = dirty s" and "dblock (memdisk t) = dblock (memdisk s)"
  shows "log_core t"
  using assms log_frame[OF assms(3)] by (simp add: log_core_def log_area_def bio_frame_def)

lemma log_core_view:
  assumes "log_core s" and "held s n = None" and "n \<notin> dirty s"
  shows "view s n = dblock (memdisk s) n"
  using clean_view[of s n] assms by (simp add: log_core_def log_area_def)

definition can_log :: "'x log_state_scheme \<Rightarrow> nat \<Rightarrow> bool" where
  "can_log s k \<longleftrightarrow> lh_n s + int k \<le> int LOGSIZE \<and> lh_n s + int k \<le> int (lg_size s) - 1 \<and> 1 \<le> lg_outstanding s"

definition update_block :: "nat \<Rightarrow> (uchar list \<Rightarrow> uchar list) \<Rightarrow> ('x log_state_scheme, unit) km" where
  "update_block n f = kbind (bread 1 n) (\<lambda>b. kbind (get_buf b_data b) (\<lambda>d. kseq (bput b (f d)) (kseq (log_write b) (brelse b))))"

lemma log_update:
  assumes ok: "log_ok s" and n: "home (lg_start s) (lg_size s) n" "n < 2 ^ 32" "n < disksize s" and can: "can_log s 1"
    and len: "length (f (view s n)) = BSIZE"
  shows "\<exists>t. update_block n f s = Ok () t \<and> log_ok t \<and> log_frame_rel s t \<and>
    babs t = (babs s)\<lparr>bc_view := (view s)(n := f (view s n)), bc_dirty := insert n (dirty s)\<rparr> \<and>
    lh_n t = (if n \<in> dirty s then lh_n s else lh_n s + 1)"
proof -
  note g = log_okD[OF ok]
  obtain b t where t: "bread 1 n s = Ok b t" "bc_inv t" "babs t = (babs s)\<lparr>bc_held := (held s)(n \<mapsto> b)\<rparr>" "bio_frame s t"
    using bc.rd_ok[OF g(2) n(3)] log_room(1)[OF ok] g(4) by auto
  have h: "held t n = Some b" "view t = view s" "dirty t = dirty s" "dblock (memdisk t) = dblock (memdisk s)"
    using t(3) by (simp_all add: babs_def)
  have d: "b_data (bufs t b) = view s n" using held_SomeD[OF t(2) h(1)] h(2) by simp
  obtain u where u: "bput b (f (view s n)) t = Ok () u" "bc_inv u" "babs u = (babs t)\<lparr>bc_view := (view t)(n := f (view s n))\<rparr>" "bio_frame t u"
    using bput_spec[OF t(2) h(1) len] by blast
  have fu: "bio_frame s u" by (rule bio_frame.frame_trans[OF t(4) u(4)])
  note f = log_frame[OF fu]
  have hu: "held u n = Some b" "dirty u = dirty s" "dblock (memdisk u) = dblock (memdisk s)"
    using u(3) h by (simp_all add: babs_def)
  have cu: "log_core u" using ok log_core_cong[OF _ u(2) fu hu(2,3)] by (simp add: log_ok_def)
  obtain v where v: "log_write b u = Ok () v" "log_core v" "babs v = (babs u)\<lparr>bc_dirty := insert n (dirty u)\<rparr>"
      "lh_n v = (if n \<in> dirty u then lh_n u else lh_n u + 1)" "log_frame_rel u v"
    using log_write_spec[OF cu hu(1)] n(1,2) can by (auto simp: f can_log_def log_frame_rel_def)
  have hv: "held v n = Some b" "n \<in> dirty v" using v(3) hu(1) by (simp_all add: babs_def)
  have iv: "bc_inv v" using v(2) by (simp add: log_core_def log_area_def)
  obtain w where w: "brelse b v = Ok () w" "bc_inv w" "babs w = (babs v)\<lparr>bc_held := (held v)(n := None)\<rparr>" "bio_frame v w"
    using bc.rel_ok[OF iv, of n b] hv by auto
  have bw: "babs w = (babs s)\<lparr>bc_view := (view s)(n := f (view s n)), bc_dirty := insert n (dirty s)\<rparr>"
    using w(3) v(3) u(3) t(3) h hu g(4) by (auto simp: babs_def)
  have "dirty w = dirty v" "dblock (memdisk w) = dblock (memdisk v)" using w(3) by (simp_all add: babs_def)
  then have "log_core w" by (rule log_core_cong[OF v(2) w(2,4)])
  moreover have "held w = Map.empty" using bw g(4) by (simp add: babs_def)
  moreover have "log_frame_rel s w"
    using log_frame_bio[OF fu] v(5) log_frame_bio[OF w(4)] by (blast intro: log_frame_trans)
  moreover have "lh_n w = (if n \<in> dirty s then lh_n s else lh_n s + 1)"
    using log_frame(6)[OF w(4)] v(4) hu(2) f(6) by simp
  moreover have "update_block n f s = Ok () w"
    using t(1) u(1) v(1) w(1) by (simp add: update_block_def k_simps get_buf_def d)
  ultimately show ?thesis using bw by (auto simp: log_ok_def)
qed

lemma end_op_commits:
  assumes q: "quiet s" and "\<not> lg_committing s" and "lg_outstanding s = 1"
    and c: "commit (s\<lparr>lg_outstanding := 0, lg_committing := True\<rparr>) = Ok () t" and qt: "quiet t"
  shows "end_op s = Ok () (wake_all (Some LogChan) (t\<lparr>lg_committing := False\<rparr>))"
proof -
  have f: "irq_ok s" "lock_free LogLock s" "irq_ok t" "lock_free LogLock t" "lock_free PtableLock t"
    using q qt by (simp_all add: quiet_def)
  let ?s = "(taken LogLock s)\<lparr>lg_outstanding := 0, lg_committing := True\<rparr>"
  have r: "release LogLock ?s = Ok () (s\<lparr>lg_outstanding := 0, lg_committing := True\<rparr>)"
    using release_taken[OF f(1,2), of ?s] by (simp add: same_locks_def restore_locks_def taken_def)
  let ?t = "(taken LogLock t)\<lparr>lg_committing := False\<rparr>"
  have "irq_ok ?t" "lock_free PtableLock ?t"
    using irq_ok_taken[OF f(3), of LogLock] f(5) same_locks_cong[of ?t "taken LogLock t"]
    by (simp_all add: same_locks_def lock_free_def taken_def)
  then have w: "wakeup LogChan ?t = Ok () (wake_all (Some LogChan) ?t)" by (rule wakeup_eq)
  have r': "release LogLock (wake_all (Some LogChan) ?t) = Ok () (wake_all (Some LogChan) (t\<lparr>lg_committing := False\<rparr>))"
    using release_taken[OF f(3,4), of "wake_all (Some LogChan) ?t"]
    by (simp add: same_locks_def restore_locks_def wake_all_def taken_def cong: if_cong)
  show ?thesis
    unfolding end_op_def using assms(2,3) acquire_free[OF f(2)] acquire_free[OF f(4)] c r w r'
    by (simp add: k_simps taken_def)
qed

section \<open>Properties\<close>

text \<open>
  Claim C1. Crash safety of \<open>commit\<close>: stop the machine after any number \<open>k\<close> of the disk writes
  it makes, start a kernel on that disk, and once \<open>binit\<close> and \<open>initlog\<close> have run every block outside
  the log has its contents from before the transaction, or every one has its contents from
  after it. The log is empty again then.
\<close>

theorem commit_crash_safe:
  fixes s :: "'x log_state_scheme"
  assumes ok: "log_ok s" and pos: "0 < lh_n s"
    and sb: "sb_logstart (sb_decode (view s 1)) = lg_start s" "sb_nlog (sb_decode (view s 1)) = lg_size s"
      "home (lg_start s) (lg_size s) 1" "1 \<notin> dirty s" and sz1: "1 < disksize s"
  shows "\<exists>t ws. commit s = Ok () t \<and> disk_writes t = disk_writes s @ ws \<and>
    (\<forall>k r. bio_boot r \<and> disksize r = disksize s \<and> dblock (memdisk r) = apply_writes (take k ws) (dblock (memdisk s)) \<longrightarrow>
      (\<exists>u v. binit r = Ok () u \<and> initlog 1 u = Ok () (v :: 'x log_state_scheme) \<and> log_ok v \<and> lh_n v = 0 \<and>
        ((\<forall>m. home (lg_start s) (lg_size s) m \<longrightarrow> dblock (memdisk v) m = dblock (memdisk s) m) \<or>
         (\<forall>m. home (lg_start s) (lg_size s) m \<longrightarrow> dblock (memdisk v) m = view s m))))"
proof -
  let ?st = "lg_start s" and ?len = "lg_size s" and ?n = "nat (lh_n s)" and ?f = "lh_block s"
  let ?D = "dblock (memdisk s)" and ?ws = "commit_writes (lg_start s) (nat (lh_n s)) (lh_block s) (view s)"
  note g = log_okD[OF ok]
  have len: "?len \<le> NBUF" "0 < ?len" "?st + ?len \<le> disksize s" using g(1) by (simp_all add: log_geom_def log_area_def)
  have small: "lh_n s \<le> int LOGSIZE" using g(7) len(1) by (simp add: NBUF_def LOGSIZE_def)
  have lay: "log_layout ?st ?len (disksize s) ?n ?f"
    using ok small by (auto simp: log_ok_def log_core_def log_layout_def)
  have clean: "view s m = ?D m" if "m \<notin> dirty s" for m
    using clean_view[OF g(2) that] g(4) by simp
  have view: "put_blocks ?n ?f (view s) ?D = view s"
    using clean g(9) by (auto simp: put_blocks_def)
  have one: "1 \<notin> fst ` set ?ws"
    using sb(3,4) g(7,9) layout_away(3)[OF lay sb(3)] by (auto simp: commit_writes_def Let_def home_def)
  obtain t where t: "commit s = Ok () t" "disk_writes t = disk_writes s @ ?ws"
    using commit_spec[OF ok pos small] by (auto simp: babs_def)
  have "\<exists>u v. binit r = Ok () u \<and> initlog 1 u = Ok () (v :: 'x log_state_scheme) \<and> log_ok v \<and> lh_n v = 0 \<and>
        ((\<forall>m. home ?st ?len m \<longrightarrow> dblock (memdisk v) m = ?D m) \<or> (\<forall>m. home ?st ?len m \<longrightarrow> dblock (memdisk v) m = view s m))"
    if r: "bio_boot r" "disksize r = disksize s" "dblock (memdisk r) = apply_writes (take k ?ws) ?D" for k r
  proof -
    let ?E = "apply_writes (take k ?ws) ?D"
    obtain u where u: "binit r = Ok () u" "bc_inv u" "dirty u = {}" "held u = Map.empty" "disksize u = disksize r" "memdisk u = memdisk r"
      using binit_empty[OF r(1)] by blast
    have "1 \<notin> fst ` set (take k ?ws)" using one by (auto dest: in_set_takeD)
    then have e1: "?E 1 = view s 1" using clean[OF sb(4)] by (simp add: apply_writes_other)
    have vlen: "length (view s ?st) = BSIZE" using view_len[OF g(2)] len by simp
    have zero: "hd_n (?D ?st) = 0" using ok by (simp add: log_ok_def log_core_def)
    note c = crash_recovery[where k = k and V = "view s" and D = ?D, OF lay vlen zero, unfolded view]
    obtain v where v: "initlog 1 u = Ok () v" "log_ok v" "lh_n v = 0" "dblock (memdisk v) = apply_writes (recover_writes ?st ?E) ?E"
      using initlog_spec[OF u(2-4), unfolded u(5,6) r(2,3) e1 sb(1,2), OF sz1 len(2,1,3) c(1)] by (elim exE conjE)
    show ?thesis
      by (intro exI[of _ u] exI[of _ v] conjI u(1) v(1-3)) (rule c(2)[folded v(4)])
  qed
  then show ?thesis using t by blast
qed

text \<open>A disk with a superblock, and a transaction on it.\<close>

definition sb_image :: "uchar list" where
  "sb_image = put32 12 30 (put32 16 2 (replicate BSIZE 0))"

definition boot_log :: log_state where
  "boot_log = bio_state.extend ((boot_bio 1000)\<lparr>memdisk := dput 1 sb_image (memdisk (boot_bio 1000))\<rparr>)
     \<lparr>lg_start = 0, lg_size = 0, lg_outstanding = 0, lg_committing = False, lg_dev = 0, lh_n = 0, lh_block = (\<lambda>_. 0), \<dots> = ()\<rparr>"

lemma sb_image: "length sb_image = BSIZE" "sb_logstart (sb_decode sb_image) = 2" "sb_nlog (sb_decode sb_image) = 30"
  by (simp_all add: sb_image_def sb_decode_def BSIZE_def get32_put32_other)

lemma boot_log_disk:
  "dblock (memdisk boot_log) = (dblock (replicate (1000 * BSIZE) 0))(1 := sb_image)" "disksize boot_log = 1000" "bio_boot boot_log"
proof -
  have m: "memdisk boot_log = dput 1 sb_image (replicate (1000 * BSIZE) 0)"
    by (simp add: boot_log_def bio_state.defs boot_bio_def sleep_state.defs)
  show "dblock (memdisk boot_log) = (dblock (replicate (1000 * BSIZE) 0))(1 := sb_image)"
    unfolding m by (rule dblock_dput_all[of _ 1000]) (simp_all add: sb_image)
  show sz: "disksize boot_log = 1000"
    by (simp add: boot_log_def bio_state.defs boot_bio_def sleep_state.defs)
  have "length (memdisk boot_log) = 1000 * BSIZE"
    unfolding m using length_dput[of sb_image 1 "replicate (1000 * BSIZE) 0"] by (simp add: sb_image)
  then show "bio_boot boot_log"
    using sz by (simp add: bio_boot_def quiet_def irq_ok_def lock_free_def myproc_def boot_log_def bio_state.defs boot_bio_simps)
qed

lemma dblock_zeros: "n < sz \<Longrightarrow> dblock (replicate (sz * BSIZE) 0) n = replicate BSIZE 0"
  unfolding dblock_def using mult_le_mono1[of "Suc n" sz BSIZE] by (intro chunk_replicate) simp

lemma get32_zeros: "off + 4 \<le> m \<Longrightarrow> get32 off (replicate m 0) = 0"
  unfolding get32_def by (simp add: chunk_replicate)

lemma boot_log_ready:
  "\<exists>u v. binit boot_log = Ok () u \<and> initlog 1 u = Ok () v \<and> log_ok v \<and> lh_n v = 0 \<and> lg_start v = 2 \<and> lg_size v = 30 \<and>
    disksize v = 1000 \<and> view v 1 = sb_image"
proof -
  let ?D = "(dblock (replicate (1000 * BSIZE) 0))(1 := sb_image)"
  obtain u where u: "binit boot_log = Ok () u" "bc_inv u" "dirty u = {}" "held u = Map.empty" "disksize u = disksize boot_log"
      "memdisk u = memdisk boot_log"
    using binit_empty[OF boot_log_disk(3)] by blast
  have z: "hd_n (?D 2) = 0" using get32_zeros[of 0 BSIZE] by (simp add: hd_n_def dblock_zeros[of 2 1000] BSIZE_def[THEN arg_cong[where f = "\<lambda>b. 4 \<le> b"]])
  then have "head_ok 2 30 1000 (?D 2)" by (simp add: head_ok_def)
  then obtain v where v: "initlog 1 u = Ok () v" "log_ok v" "lh_n v = 0" "lg_start v = 2" "lg_size v = 30" "disksize v = 1000"
      "dblock (memdisk v) = apply_writes (recover_writes 2 ?D) ?D"
    using initlog_spec[OF u(2-4), unfolded u(5,6) boot_log_disk(1,2)] by (auto simp: sb_image NBUF_def)
  have "dirty v = {}" "held v = Map.empty" "bc_inv v" using log_okD[OF v(2)] v(3) by simp_all
  then have "view v 1 = dblock (memdisk v) 1" using clean_view[of v 1] by simp
  then have "view v 1 = sb_image" unfolding v(7) using z by (simp add: recover_writes_def)
  then show ?thesis using u(1) v by blast
qed

text \<open>A transaction that has changed block 500.\<close>

lemma boot_log_tx:
  "\<exists>s :: log_state. log_ok s \<and> lh_n s = 1 \<and> lg_start s = 2 \<and> lg_size s = 30 \<and> disksize s = 1000 \<and> view s 1 = sb_image \<and>
     dirty s = {500} \<and> lg_outstanding s = 1 \<and> \<not> lg_committing s \<and> view s 500 = replicate BSIZE 7"
proof -
  obtain v :: log_state where v: "log_ok v" "lh_n v = 0" "lg_start v = 2" "lg_size v = 30" "disksize v = 1000" "view v 1 = sb_image"
    using boot_log_ready by blast
  let ?v = "v\<lparr>lg_outstanding := 1, lg_committing := False\<rparr>"
  have ok: "log_ok ?v" using v(1) by (simp add: log_ok_def log_core_def log_area_def)
  have d: "dirty ?v = {}" using log_okD(9)[OF v(1)] v(2) by simp
  from log_update[OF ok, of 500 "\<lambda>_. replicate BSIZE 7"] v d
  obtain t where t: "log_ok t" "log_frame_rel ?v t" "babs t = (babs ?v)\<lparr>bc_view := (view ?v)(500 := replicate BSIZE 7), bc_dirty := {500}\<rparr>"
      "lh_n t = 1"
    by (auto simp: home_def can_log_def LOGSIZE_def)
  have "view t = (view v)(500 := replicate BSIZE 7)" "dirty t = {500}" using t(3) by (simp_all add: babs_def)
  then show ?thesis
    using t(1,4) v log_frame_relD[OF t(2)] by (intro exI[of _ t]) simp
qed

theorem commit_crash_safe_witness:
  "\<exists>(s :: log_state) t ws. view s 500 = replicate BSIZE 7 \<and> commit s = Ok () t \<and> disk_writes t = disk_writes s @ ws"
proof -
  obtain s :: log_state where s: "log_ok s" "lh_n s = 1" "lg_start s = 2" "lg_size s = 30" "disksize s = 1000" "view s 1 = sb_image"
      "dirty s = {500}" "view s 500 = replicate BSIZE 7"
    using boot_log_tx by blast
  then show ?thesis using commit_crash_safe[of s] by (auto simp: sb_image home_def)
qed

text \<open>
  Claim C25. The last \<open>end_op\<close> of a group makes its writes durable: it commits, after which the
  disk holds, in every block outside the log, what the kernel sees; the log is empty, nothing is
  pinned, and a new operation may begin.
\<close>

theorem end_op_durable:
  assumes "log_ok s" and "\<not> lg_committing s" and "lg_outstanding s = 1" and "0 < lh_n s"
  shows "\<exists>t. end_op s = Ok () t \<and> log_ok t \<and> lh_n t = 0 \<and> lg_outstanding t = 0 \<and> \<not> lg_committing t \<and>
    (\<forall>m. home (lg_start s) (lg_size s) m \<longrightarrow> dblock (memdisk t) m = view s m \<and> view t m = view s m)"
proof -
  let ?s = "s\<lparr>lg_outstanding := 0, lg_committing := True\<rparr>" and ?n = "nat (lh_n s)"
  let ?ws = "commit_writes (lg_start s) (nat (lh_n s)) (lh_block s) (view s)"
  note g = log_okD[OF assms(1)]
  have ok: "log_ok ?s" using assms(1) by (simp add: log_ok_def log_core_def log_area_def)
  have small: "lh_n s \<le> int LOGSIZE" and len: "lg_start s < disksize s"
    using g(1,7) by (auto simp: NBUF_def LOGSIZE_def log_geom_def log_area_def)
  obtain t where t: "commit ?s = Ok () t" "bc_inv t" "bio_frame ?s (t\<lparr>lh_n := lh_n ?s\<rparr>)" "lh_n t = 0"
    "babs t = (babs ?s)\<lparr>bc_view := apply_writes ?ws (view s), bc_disk := apply_writes ?ws (dblock (memdisk s)),
      bc_dirty := {}, bc_writes := disk_writes s @ ?ws\<rparr>"
    using commit_spec[OF ok] assms(4) small by auto
  note f = log_frame(1-5)[OF t(3), simplified]
  let ?t = "wake_all (Some LogChan) (t\<lparr>lg_committing := False\<rparr>)"
  have run: "end_op s = Ok () ?t"
    using g(2) t(2) assms(2,3) t(1) by (intro end_op_commits) (simp_all add: bc_inv_def)
  have b: "babs ?t = babs t" "bc_inv ?t"
    using cache_cong[of ?t t] t(2) by (simp_all add: wake_all_def)
  have c: "dblock (memdisk ?t) = apply_writes ?ws (dblock (memdisk s))" "view ?t = apply_writes ?ws (view s)" "dirty ?t = {}"
      "held ?t = Map.empty" "disksize ?t = disksize s"
    using b(1) t(3,5) g(4) by (simp_all add: babs_def wake_all_def bio_frame_def)
  have lay: "log_layout (lg_start s) (lg_size s) (disksize s) ?n (lh_block s)"
    using assms(1) small by (auto simp: log_ok_def log_core_def log_layout_def)
  note e = crash_end[where V = "view s", OF lay view_len[OF g(2) len]]
  have "put_blocks ?n (lh_block s) (view s) (dblock (memdisk s)) = view s"
    using clean_view[OF g(2)] g(4,9) by (auto simp: put_blocks_def)
  moreover have "put_blocks ?n (lh_block s) (view s) (view s) = view s"
    by (auto simp: put_blocks_def)
  ultimately have "dblock (memdisk ?t) m = view s m \<and> view ?t m = view s m" if "home (lg_start s) (lg_size s) m" for m
    using e(2)[OF that] by (simp add: c(1,2))
  moreover have sel: "lg_start ?t = lg_start s" "lg_size ?t = lg_size s" "lg_dev ?t = 1" "lh_n ?t = 0"
      "lg_outstanding ?t = 0" "\<not> lg_committing ?t"
    using f t(4) g(3) by (simp_all add: wake_all_def)
  moreover have "log_ok ?t"
    using g(1) b(2) c e(1)[of "dblock (memdisk s)"] sel by (simp add: log_ok_def log_core_def log_geom_def log_area_def)
  ultimately show ?thesis using run by blast
qed

theorem end_op_durable_witness:
  "\<exists>s t :: log_state. view s 500 = replicate BSIZE 7 \<and> end_op s = Ok () t \<and> dblock (memdisk t) 500 = replicate BSIZE 7"
proof -
  obtain s :: log_state where s: "log_ok s" "lh_n s = 1" "lg_start s = 2" "lg_size s = 30" "lg_outstanding s = 1"
      "\<not> lg_committing s" "view s 500 = replicate BSIZE 7"
    using boot_log_tx by blast
  then show ?thesis using end_op_durable[of s] by (force simp: home_def)
qed

text \<open>
  Claim C30. The reservation of \<open>begin_op\<close> and the capacity \<open>log_write\<close> enforces differ by one
  block when the log area has \<open>LOGSIZE\<close> blocks, header included, as \<open>mkfs\<close> lays it out: three
  operations of \<open>MAXOPBLOCKS\<close> blocks each are admitted together, but once 29 of their 30 blocks are
  logged the next \<open>log_write\<close> panics.
\<close>

theorem log_reservation_short:
  fixes s :: "'x log_state_scheme"
  assumes "quiet s" and "\<not> lg_committing s" and "lg_outstanding s = 0" and "lh_n s = 0" and "lg_size s = LOGSIZE"
  shows "\<exists>t. kseq begin_op (kseq begin_op begin_op) s = Ok () t \<and> lg_outstanding t = 3 \<and> lh_n t = 0 \<and> lg_size t = LOGSIZE \<and>
    (\<forall>b (u :: 'x log_state_scheme). lh_n u = 3 * int MAXOPBLOCKS - 1 \<and> lg_size u = lg_size t \<longrightarrow>
      log_write b u = Fail (EPanic ''too big a transaction''))"
proof -
  have step: "begin_op t = Ok () (t\<lparr>lg_outstanding := lg_outstanding t + 1\<rparr>)"
    if "quiet t" "\<not> lg_committing t" "lh_n t = 0" "lg_outstanding t \<le> 2" for t :: "'x log_state_scheme"
    using that by (intro begin_op_eq) (simp_all add: LOGSIZE_def MAXOPBLOCKS_def)
  have q: "quiet (s\<lparr>lg_outstanding := x\<rparr>)" for x
    by (rule quiet_cong[OF assms(1)]) (simp add: same_locks_def)
  have "kseq begin_op (kseq begin_op begin_op) s = Ok () (s\<lparr>lg_outstanding := 3\<rparr>)"
    using assms q by (simp add: k_simps step)
  then show ?thesis
    using assms by (auto simp: log_write_def k_simps MAXOPBLOCKS_def LOGSIZE_def)
qed

theorem log_reservation_short_witness:
  "\<exists>t. kseq begin_op (kseq begin_op begin_op) (boot_log\<lparr>lg_size := LOGSIZE\<rparr>) = Ok () t \<and> lg_outstanding t = 3 \<and>
     log_write 0 (t\<lparr>lh_n := 29\<rparr>) = Fail (EPanic ''too big a transaction'')"
proof -
  have "quiet (boot_log\<lparr>lg_size := LOGSIZE\<rparr>)"
    by (rule quiet_cong[of boot_log]) (use boot_log_disk(3) in \<open>simp_all add: bio_boot_def same_locks_def\<close>)
  then obtain t where "kseq begin_op (kseq begin_op begin_op) (boot_log\<lparr>lg_size := LOGSIZE\<rparr>) = Ok () t" "lg_outstanding t = 3"
      "\<forall>b (u :: log_state). lh_n u = 3 * int MAXOPBLOCKS - 1 \<and> lg_size u = lg_size t \<longrightarrow> log_write b u = Fail (EPanic ''too big a transaction'')"
    using log_reservation_short[of "boot_log\<lparr>lg_size := LOGSIZE\<rparr>"] by (auto simp: boot_log_def bio_state.defs)
  then show ?thesis by (simp add: MAXOPBLOCKS_def)
qed

end
