(* ===== verification/Inode.thy ===== *)
theory Inode
  imports Logging
begin

text \<open>
  \<^verbatim>\<open>fs.c\<close>, the lower half: the bitmap of free blocks, the inode cache, and the map from a
  file's block numbers to disk blocks. Block numbers and inode numbers are naturals; the size and
  offset arithmetic that can wrap keeps its 32 bits. A \<open>struct inode *\<close> is an index into \<open>icache\<close>.

  An on-disk inode is 64 bytes of a block; \<open>dip_get\<close> and \<open>dip_put\<close> are the copies between it and
  the in-memory inode that \<open>ilock\<close> and \<open>iupdate\<close> make field by field.
\<close>

section \<open>State (fs.h, file.h, fs.c)\<close>

definition NINODE :: nat where "NINODE = 50"
definition FSSIZE :: nat where "FSSIZE = 1000"
definition NDEV :: nat where "NDEV = 10"
definition NDIRECT :: nat where "NDIRECT = 12"
definition NINDIRECT :: nat where "NINDIRECT = BSIZE div 4"
definition MAXFILE :: nat where "MAXFILE = NDIRECT + NINDIRECT"
definition IPB :: nat where "IPB = BSIZE div 64"
definition BPB :: nat where "BPB = BSIZE * 8"
definition ROOTDEV :: uint where "ROOTDEV = 1"
definition ROOTINO :: nat where "ROOTINO = 1"

definition T_DIR :: ushort where "T_DIR = 1"
definition T_FILE :: ushort where "T_FILE = 2"
definition T_DEV :: ushort where "T_DEV = 3"

record inode =
  i_dev :: uint
  i_inum :: nat
  i_ref :: int
  i_valid :: bool
  i_type :: ushort
  i_major :: ushort
  i_minor :: ushort
  i_nlink :: ushort
  i_size :: uint
  i_addrs :: "nat \<Rightarrow> nat"

record stat =
  st_type :: ushort
  st_dev :: uint
  st_ino :: nat
  st_nlink :: ushort
  st_size :: uint

datatype device = ConsoleDev

record fs_state = log_state +
  fs_sb :: superblock
  icache :: "nat \<Rightarrow> inode"
  devsw :: "nat \<Rightarrow> device option"

definition get_inode :: "(inode \<Rightarrow> 'a) \<Rightarrow> nat \<Rightarrow> ('x fs_state_scheme, 'a) km" where
  "get_inode f ip = kget (\<lambda>s. f (icache s ip))"

definition set_inode :: "nat \<Rightarrow> (inode \<Rightarrow> inode) \<Rightarrow> ('x fs_state_scheme, unit) km" where
  "set_inode ip f = kmod (\<lambda>s. s\<lparr>icache := (icache s)(ip := f (icache s ip))\<rparr>)"

text \<open>\<open>IBLOCK\<close> and \<open>BBLOCK\<close>.\<close>

definition IBLOCK :: "nat \<Rightarrow> superblock \<Rightarrow> nat" where
  "IBLOCK i sb = i div IPB + sb_inodestart sb"

definition BBLOCK :: "nat \<Rightarrow> superblock \<Rightarrow> nat" where
  "BBLOCK b sb = b div BPB + sb_bmapstart sb"

section \<open>Structures in a block\<close>

definition get16 :: "nat \<Rightarrow> uchar list \<Rightarrow> ushort" where
  "get16 off d = le_get (chunk off 2 d)"

definition put16 :: "nat \<Rightarrow> ushort \<Rightarrow> uchar list \<Rightarrow> uchar list" where
  "put16 off w d = patch off (le_put 2 w) d"

text \<open>The bit of block \<open>bi\<close> in a bitmap block.\<close>

definition bm_bit :: "uchar list \<Rightarrow> nat \<Rightarrow> bool" where
  "bm_bit d bi \<longleftrightarrow> d ! (bi div 8) AND push_bit (bi mod 8) 1 \<noteq> 0"

definition bm_set :: "uchar list \<Rightarrow> nat \<Rightarrow> uchar list" where
  "bm_set d bi = d[bi div 8 := d ! (bi div 8) OR push_bit (bi mod 8) 1]"

definition bm_clear :: "uchar list \<Rightarrow> nat \<Rightarrow> uchar list" where
  "bm_clear d bi = d[bi div 8 := d ! (bi div 8) AND NOT (push_bit (bi mod 8) 1)]"

text \<open>\<open>struct dinode\<close> number \<open>inum % IPB\<close> of its block.\<close>

definition dip_off :: "nat \<Rightarrow> nat" where
  "dip_off inum = (inum mod IPB) * 64"

definition dip_get :: "uchar list \<Rightarrow> inode \<Rightarrow> inode" where
  "dip_get d ip = (let k0 = dip_off (i_inum ip) in
     ip\<lparr>i_type := get16 k0 d, i_major := get16 (k0 + 2) d, i_minor := get16 (k0 + 4) d, i_nlink := get16 (k0 + 6) d,
       i_size := get32 (k0 + 8) d, i_addrs := (\<lambda>i. if i \<le> NDIRECT then unat (get32 (k0 + 12 + 4 * i) d) else i_addrs ip i)\<rparr>)"

primrec put_addrs :: "nat \<Rightarrow> (nat \<Rightarrow> nat) \<Rightarrow> nat \<Rightarrow> uchar list \<Rightarrow> uchar list" where
  "put_addrs off f 0 d = d"
| "put_addrs off f (Suc k) d = put32 (off + 4 * k) (of_nat (f k)) (put_addrs off f k d)"

definition dip_put :: "inode \<Rightarrow> uchar list \<Rightarrow> uchar list" where
  "dip_put ip d = (let k0 = dip_off (i_inum ip) in
     put_addrs (k0 + 12) (i_addrs ip) (NDIRECT + 1)
      (put32 (k0 + 8) (i_size ip)
      (put16 (k0 + 6) (i_nlink ip)
      (put16 (k0 + 4) (i_minor ip)
      (put16 (k0 + 2) (i_major ip)
      (put16 k0 (i_type ip) d))))))"

section \<open>Blocks (fs.c)\<close>

definition bzero :: "uint \<Rightarrow> nat \<Rightarrow> ('x log_state_scheme, unit) km" where
  "bzero dev bno =
     kbind (bread dev bno) (\<lambda>bp.
     kseq (bput bp (replicate BSIZE 0))
     (kseq (log_write bp)
           (brelse bp)))"

text \<open>One turn of the outer loop of \<open>balloc\<close>: the bitmap block of blocks \<open>b\<close> to \<open>b + BPB\<close>.\<close>

definition balloc_try :: "uint \<Rightarrow> nat \<Rightarrow> ('x fs_state_scheme, nat option) km" where
  "balloc_try dev b =
     kbind (kget fs_sb) (\<lambda>sb.
     kbind (bread dev (BBLOCK b sb)) (\<lambda>bp.
     kbind (get_buf b_data bp) (\<lambda>d.
     case find (\<lambda>bi. \<not> bm_bit d bi) [0..<min BPB (sb_size sb - b)] of
       Some bi \<Rightarrow>
         kseq (bput bp (bm_set d bi))
         (kseq (log_write bp)
         (kseq (brelse bp)
         (kseq (bzero dev (b + bi))
               (kret (Some (b + bi))))))
     | None \<Rightarrow> kseq (brelse bp) (kret None))))"

definition balloc :: "uint \<Rightarrow> ('x fs_state_scheme, nat) km" where
  "balloc dev =
     kbind (kget fs_sb) (\<lambda>sb.
     kbind (kloop (\<lambda>k. balloc_try dev (k * BPB)) [0..<(sb_size sb + BPB - 1) div BPB]) (\<lambda>r.
     case r of Some b \<Rightarrow> kret b | None \<Rightarrow> kpanic ''balloc: out of blocks''))"

definition bfree :: "uint \<Rightarrow> nat \<Rightarrow> ('x fs_state_scheme, unit) km" where
  "bfree dev b =
     kbind (readsb dev) (\<lambda>sb.
     kseq (kmod (\<lambda>s. s\<lparr>fs_sb := sb\<rparr>))
     (kbind (bread dev (BBLOCK b sb)) (\<lambda>bp.
      kbind (get_buf b_data bp) (\<lambda>d.
      if \<not> bm_bit d (b mod BPB) then kpanic ''freeing free block''
      else kseq (bput bp (bm_clear d (b mod BPB)))
           (kseq (log_write bp)
                 (brelse bp))))))"

section \<open>Inodes (fs.c)\<close>

definition iinit :: "uint \<Rightarrow> ('x fs_state_scheme, unit) km" where
  "iinit dev =
     kseq (initlock IcacheLock ''icache'')
     (kseq (kfor (\<lambda>i. initsleeplock (InodeSleep i) ''inode'') [0..<NINODE])
     (kbind (readsb dev) (\<lambda>sb. kmod (\<lambda>s. s\<lparr>fs_sb := sb\<rparr>))))"

text \<open>The scan of \<open>iget\<close>: a cached entry ends it, otherwise the first empty slot is kept.\<close>

definition iget :: "uint \<Rightarrow> nat \<Rightarrow> ('x fs_state_scheme, nat) km" where
  "iget dev inum =
     kseq (acquire IcacheLock)
     (kbind (kget (\<lambda>s. find (\<lambda>i. i_ref (icache s i) > 0 \<and> i_dev (icache s i) = dev \<and> i_inum (icache s i) = inum) [0..<NINODE])) (\<lambda>hit.
      case hit of
        Some ip \<Rightarrow>
          kseq (set_inode ip (\<lambda>i. i\<lparr>i_ref := i_ref i + 1\<rparr>))
          (kseq (release IcacheLock) (kret ip))
      | None \<Rightarrow>
          kbind (kget (\<lambda>s. find (\<lambda>i. i_ref (icache s i) = 0) [0..<NINODE])) (\<lambda>empty.
          case empty of
            None \<Rightarrow> kpanic ''iget: no inodes''
          | Some ip \<Rightarrow>
              kseq (set_inode ip (\<lambda>i. i\<lparr>i_dev := dev, i_inum := inum, i_ref := 1, i_valid := False\<rparr>))
              (kseq (release IcacheLock) (kret ip)))))"

definition ialloc_try :: "uint \<Rightarrow> ushort \<Rightarrow> nat \<Rightarrow> ('x fs_state_scheme, nat option) km" where
  "ialloc_try dev type inum =
     kbind (kget fs_sb) (\<lambda>sb.
     kbind (bread dev (IBLOCK inum sb)) (\<lambda>bp.
     kbind (get_buf b_data bp) (\<lambda>d.
     if get16 (dip_off inum) d = 0 then
       kseq (bput bp (put16 (dip_off inum) type (patch (dip_off inum) (replicate 64 0) d)))
       (kseq (log_write bp)
       (kseq (brelse bp)
       (kbind (iget dev inum) (\<lambda>ip. kret (Some ip)))))
     else kseq (brelse bp) (kret None))))"

definition ialloc :: "uint \<Rightarrow> ushort \<Rightarrow> ('x fs_state_scheme, nat) km" where
  "ialloc dev type =
     kbind (kget fs_sb) (\<lambda>sb.
     kbind (kloop (ialloc_try dev type) [1..<sb_ninodes sb]) (\<lambda>r.
     case r of Some ip \<Rightarrow> kret ip | None \<Rightarrow> kpanic ''ialloc: no inodes''))"

definition iupdate :: "nat \<Rightarrow> ('x fs_state_scheme, unit) km" where
  "iupdate ip =
     kbind (kget (\<lambda>s. s)) (\<lambda>s.
     kbind (bread (i_dev (icache s ip)) (IBLOCK (i_inum (icache s ip)) (fs_sb s))) (\<lambda>bp.
     kbind (get_buf b_data bp) (\<lambda>d.
     kseq (bput bp (dip_put (icache s ip) d))
     (kseq (log_write bp)
           (brelse bp)))))"

definition idup :: "nat \<Rightarrow> ('x fs_state_scheme, nat) km" where
  "idup ip =
     kseq (acquire IcacheLock)
     (kseq (set_inode ip (\<lambda>i. i\<lparr>i_ref := i_ref i + 1\<rparr>))
     (kseq (release IcacheLock) (kret ip)))"

text \<open>\<open>ilock\<close> from where it holds the sleep lock; a process that had to sleep for it resumes here.\<close>

definition ilock_load :: "nat \<Rightarrow> ('x fs_state_scheme, unit) km" where
  "ilock_load ip =
     kbind (kget (\<lambda>s. s)) (\<lambda>s.
     kwhen (\<not> i_valid (icache s ip))
       (kbind (bread (i_dev (icache s ip)) (IBLOCK (i_inum (icache s ip)) (fs_sb s))) (\<lambda>bp.
        kbind (get_buf b_data bp) (\<lambda>d.
        kseq (set_inode ip (dip_get d))
        (kseq (brelse bp)
        (kseq (set_inode ip (\<lambda>i. i\<lparr>i_valid := True\<rparr>))
        (kbind (get_inode i_type ip) (\<lambda>t.
         kwhen (t = 0) (kpanic ''ilock: no type'')))))))))"

definition ilock :: "nat option \<Rightarrow> ('x fs_state_scheme, unit) km" where
  "ilock ipo =
     (case ipo of None \<Rightarrow> kpanic ''ilock''
      | Some ip \<Rightarrow>
          kbind (get_inode i_ref ip) (\<lambda>r.
          if r < 1 then kpanic ''ilock''
          else kseq (acquiresleep (InodeSleep ip)) (ilock_load ip)))"

definition iunlock :: "nat option \<Rightarrow> ('x fs_state_scheme, unit) km" where
  "iunlock ipo =
     (case ipo of None \<Rightarrow> kpanic ''iunlock''
      | Some ip \<Rightarrow>
          kbind (holdingsleep (InodeSleep ip)) (\<lambda>h.
          kbind (get_inode i_ref ip) (\<lambda>r.
          if \<not> h \<or> r < 1 then kpanic ''iunlock''
          else releasesleep (InodeSleep ip))))"

section \<open>Inode content (fs.c)\<close>

definition bmap :: "nat \<Rightarrow> nat \<Rightarrow> ('x fs_state_scheme, nat) km" where
  "bmap ip bn =
     kbind (get_inode (\<lambda>i. i) ip) (\<lambda>i.
     if bn < NDIRECT then
       (if i_addrs i bn = 0 then
          kbind (balloc (i_dev i)) (\<lambda>addr.
          kseq (set_inode ip (\<lambda>i. i\<lparr>i_addrs := (i_addrs i)(bn := addr)\<rparr>))
               (kret addr))
        else kret (i_addrs i bn))
     else if bn - NDIRECT < NINDIRECT then
       kbind (if i_addrs i NDIRECT = 0 then
                kbind (balloc (i_dev i)) (\<lambda>addr.
                kseq (set_inode ip (\<lambda>i. i\<lparr>i_addrs := (i_addrs i)(NDIRECT := addr)\<rparr>))
                     (kret addr))
              else kret (i_addrs i NDIRECT)) (\<lambda>ind.
       kbind (bread (i_dev i) ind) (\<lambda>bp.
       kbind (get_buf b_data bp) (\<lambda>d.
       kbind (if get32 (4 * (bn - NDIRECT)) d = 0 then
                kbind (balloc (i_dev i)) (\<lambda>addr.
                kbind (get_buf b_data bp) (\<lambda>d'.
                kseq (bput bp (put32 (4 * (bn - NDIRECT)) (of_nat addr) d'))
                (kseq (log_write bp) (kret addr))))
              else kret (unat (get32 (4 * (bn - NDIRECT)) d))) (\<lambda>addr.
       kseq (brelse bp) (kret addr)))))
     else kpanic ''bmap: out of range'')"

definition itrunc :: "nat \<Rightarrow> ('x fs_state_scheme, unit) km" where
  "itrunc ip =
     kseq (kfor (\<lambda>k.
             kbind (get_inode (\<lambda>i. i) ip) (\<lambda>i.
             kwhen (i_addrs i k \<noteq> 0)
               (kseq (bfree (i_dev i) (i_addrs i k))
                     (set_inode ip (\<lambda>i. i\<lparr>i_addrs := (i_addrs i)(k := 0)\<rparr>))))) [0..<NDIRECT])
     (kseq (kbind (get_inode (\<lambda>i. i) ip) (\<lambda>i.
             kwhen (i_addrs i NDIRECT \<noteq> 0)
               (kbind (bread (i_dev i) (i_addrs i NDIRECT)) (\<lambda>bp.
                kseq (kfor (\<lambda>j. kbind (get_buf b_data bp) (\<lambda>d.
                        kwhen (get32 (4 * j) d \<noteq> 0) (bfree (i_dev i) (unat (get32 (4 * j) d))))) [0..<NINDIRECT])
                (kseq (brelse bp)
                (kseq (bfree (i_dev i) (i_addrs i NDIRECT))
                      (set_inode ip (\<lambda>i. i\<lparr>i_addrs := (i_addrs i)(NDIRECT := 0)\<rparr>))))))))
     (kseq (set_inode ip (\<lambda>i. i\<lparr>i_size := 0\<rparr>))
           (iupdate ip)))"

definition iput :: "nat \<Rightarrow> ('x fs_state_scheme, unit) km" where
  "iput ip =
     kseq (acquire IcacheLock)
     (kseq (kbind (get_inode (\<lambda>i. i) ip) (\<lambda>i.
             kwhen (i_ref i = 1 \<and> i_valid i \<and> i_nlink i = 0)
               (kseq (release IcacheLock)
               (kseq (itrunc ip)
               (kseq (set_inode ip (\<lambda>i. i\<lparr>i_type := 0\<rparr>))
               (kseq (iupdate ip)
               (kseq (acquire IcacheLock)
                     (set_inode ip (\<lambda>i. i\<lparr>i_valid := False\<rparr>)))))))))
     (kseq (set_inode ip (\<lambda>i. i\<lparr>i_ref := i_ref i - 1\<rparr>))
           (release IcacheLock)))"

definition iunlockput :: "nat option \<Rightarrow> ('x fs_state_scheme, unit) km" where
  "iunlockput ipo = kseq (iunlock ipo) (case ipo of None \<Rightarrow> kret () | Some ip \<Rightarrow> iput ip)"

definition stati :: "nat \<Rightarrow> ('x fs_state_scheme, stat) km" where
  "stati ip = get_inode (\<lambda>i. \<lparr>st_type = i_type i, st_dev = i_dev i, st_ino = i_inum i, st_nlink = i_nlink i, st_size = i_size i\<rparr>) ip"

section \<open>An initial state\<close>

definition no_inode :: inode where
  "no_inode = \<lparr>i_dev = 0, i_inum = 0, i_ref = 0, i_valid = False, i_type = 0, i_major = 0, i_minor = 0, i_nlink = 0, i_size = 0,
     i_addrs = (\<lambda>_. 0)\<rparr>"

definition boot_fs :: fs_state where
  "boot_fs = log_state.extend boot_log \<lparr>fs_sb = sb_decode sb_image, icache = (\<lambda>_. no_inode), devsw = (\<lambda>_. None), \<dots> = ()\<rparr>"

lemma boot_fs_quiet: "quiet boot_fs"
proof -
  have "quiet boot_log" using boot_log_disk(3) by (simp add: bio_boot_def)
  then show ?thesis by (simp add: boot_fs_def log_state.defs quiet_def irq_ok_def lock_free_def)
qed

end
