(* ===== verification/Format.thy ===== *)
theory Format
  imports Prelude
begin

text \<open>
  The number formatting that \<^verbatim>\<open>console.c\<close> (for \<open>cprintf\<close>) and \<^verbatim>\<open>printf.c\<close> (for user programs)
  share: the characters each routine emits, in order. A format argument is a value of \<open>fmtarg\<close>;
  \<open>fmt_chars\<close> is the text \<open>cprintf\<close> produces, and \<open>printf\<close> differs from it only in having \<open>%c\<close> as well.
\<close>

section \<open>Numbers\<close>

text \<open>\<open>digits[n]\<close>.\<close>

definition digit :: "nat \<Rightarrow> uchar" where
  "digit n = (if n < 10 then 48 + of_nat n else 87 + of_nat n)"

text \<open>\<open>k\<close> turns of the loop of \<open>print_x64\<close> and \<open>print_x32\<close>: emit the top four bits, shift left.\<close>

primrec print_x :: "nat \<Rightarrow> 'a::len word \<Rightarrow> uchar list" where
  "print_x 0 x = []"
| "print_x (Suc k) x = digit (unat (drop_bit (LENGTH('a) - 4) x)) # print_x k (push_bit 4 x)"

definition print_x64 :: "addr_t \<Rightarrow> uchar list" where
  "print_x64 x = print_x 16 x"

definition print_x32 :: "uint \<Rightarrow> uchar list" where
  "print_x32 x = print_x 8 x"

text \<open>The do-while loop of \<open>print_d\<close>, which fills \<open>buf\<close> from the low digit up.\<close>

fun print_d_buf :: "nat \<Rightarrow> uchar list" where
  "print_d_buf x = digit (x mod 10) # (if x div 10 = 0 then [] else print_d_buf (x div 10))"

declare print_d_buf.simps [simp del]

definition print_d :: "32 word \<Rightarrow> uchar list" where
  "print_d v =
     (let x = nat \<bar>sint v\<bar>; buf = print_d_buf x @ (if sint v < 0 then [45] else []) in rev buf)"

section \<open>Format strings\<close>

datatype fmtarg = ArgInt "32 word" | ArgHex uint | ArgPtr addr_t | ArgStr "uchar list option"

definition null_str :: "uchar list" where
  "null_str = [40, 110, 117, 108, 108, 41]"  \<comment> \<open>(null)\<close>

text \<open>
  The loop over the format string: \<open>c == '%'\<close> takes the next character and, for \<open>d\<close>, \<open>x\<close>, \<open>p\<close>, \<open>s\<close>,
  the next argument. An argument that is missing or of another kind has no meaning in C; it prints
  nothing here.
\<close>

fun fmt_chars :: "uchar list \<Rightarrow> fmtarg list \<Rightarrow> uchar list" where
  "fmt_chars [] args = []"
| "fmt_chars (c # cs) args =
     (if c \<noteq> 37 then c # fmt_chars cs args
      else case cs of [] \<Rightarrow> []
        | d # ds \<Rightarrow>
            if d = 100 then (case args of ArgInt v # as \<Rightarrow> print_d v @ fmt_chars ds as | _ \<Rightarrow> fmt_chars ds (tl args))
            else if d = 120 then (case args of ArgHex x # as \<Rightarrow> print_x32 x @ fmt_chars ds as | _ \<Rightarrow> fmt_chars ds (tl args))
            else if d = 112 then (case args of ArgPtr x # as \<Rightarrow> print_x64 x @ fmt_chars ds as | _ \<Rightarrow> fmt_chars ds (tl args))
            else if d = 115 then
              (case args of ArgStr so # as \<Rightarrow> (case so of None \<Rightarrow> null_str | Some s \<Rightarrow> s) @ fmt_chars ds as
               | _ \<Rightarrow> fmt_chars ds (tl args))
            else if d = 37 then 37 # fmt_chars ds args
            else 37 # d # fmt_chars ds args)"

section \<open>The digits are the number\<close>

definition digit_val :: "uchar \<Rightarrow> nat" where
  "digit_val c = (if unat c < 58 then unat c - 48 else unat c - 87)"

lemma digit_val_digit: "n < 16 \<Longrightarrow> digit_val (digit n) = n"
proof -
  assume n: "n < 16"
  have "unat (48 + of_nat n :: uchar) = 48 + n" "unat (87 + of_nat n :: uchar) = 87 + n"
    using n by (simp_all add: unat_word_ariths unsigned_of_nat take_bit_nat_eq_self)
  then show ?thesis using n by (auto simp: digit_val_def digit_def)
qed

text \<open>Reading a numeral in base \<open>b\<close>, most significant digit first.\<close>

definition num_val :: "nat \<Rightarrow> uchar list \<Rightarrow> nat" where
  "num_val b cs = foldl (\<lambda>v c. v * b + digit_val c) 0 cs"

lemma num_val_snoc: "num_val b (cs @ [c]) = num_val b cs * b + digit_val c"
  by (simp add: num_val_def)

lemma print_d_buf_val: "num_val 10 (rev (print_d_buf x)) = x"
proof (induction x rule: print_d_buf.induct)
  case (1 x)
  have "num_val 10 (rev (print_d_buf x)) =
      num_val 10 (rev (if x div 10 = 0 then [] else print_d_buf (x div 10))) * 10 + x mod 10"
    by (subst print_d_buf.simps) (simp add: num_val_snoc digit_val_digit)
  also have "num_val 10 (rev (if x div 10 = 0 then [] else print_d_buf (x div 10))) = x div 10"
    using 1 by (simp add: num_val_def)
  finally show ?case by simp
qed

lemma length_print_d_buf: "x < 10 ^ Suc k \<Longrightarrow> length (print_d_buf x) \<le> Suc k"
proof (induction k arbitrary: x)
  case 0
  then show ?case by (subst print_d_buf.simps) simp
next
  case (Suc k)
  then have "x div 10 < 10 ^ Suc k" by (simp add: less_mult_imp_div_less mult.commute)
  then show ?case using Suc.IH[of "x div 10"] by (subst print_d_buf.simps) simp
qed

lemma print_d_buf_digits: "c \<in> set (print_d_buf x) \<Longrightarrow> 48 \<le> unat c \<and> unat c < 58"
proof (induction x rule: print_d_buf.induct)
  case (1 x)
  have "unat (48 + of_nat (x mod 10) :: uchar) = 48 + x mod 10"
    by (simp add: unat_word_ariths unsigned_of_nat take_bit_nat_eq_self)
  then have d: "48 \<le> unat (digit (x mod 10)) \<and> unat (digit (x mod 10)) < 58"
    by (simp add: digit_def)
  show ?case
    using 1 d by (subst (asm) (2) print_d_buf.simps) (auto split: if_splits)
qed

text \<open>Reading a signed decimal numeral.\<close>

definition dec_val :: "uchar list \<Rightarrow> int" where
  "dec_val cs = (case cs of [] \<Rightarrow> 0 | c # ds \<Rightarrow> if c = 45 then - int (num_val 10 ds) else int (num_val 10 cs))"

lemma foldl_num:
  "foldl (\<lambda>v c. v * b + digit_val c) a cs = a * b ^ length cs + foldl (\<lambda>v c. v * b + digit_val c) 0 cs"
proof (induction cs arbitrary: a)
  case Nil
  show ?case by simp
next
  case (Cons c cs)
  show ?case
    using Cons.IH[of "a * b + digit_val c"] Cons.IH[of "digit_val c"] by (simp add: add_mult_distrib)
qed

lemma num_val_Cons: "num_val b (c # cs) = digit_val c * b ^ length cs + num_val b cs"
  unfolding num_val_def using foldl_num[of b "digit_val c" cs] by simp

lemma pow_split: "n \<le> L \<Longrightarrow> (2 :: nat) ^ L = 2 ^ n * 2 ^ (L - n)"
  by (simp flip: power_add)

lemma length_print_x [simp]: "length (print_x k x) = k"
  by (induction k arbitrary: x) auto

text \<open>Splitting off the top four of \<open>4 k + 4\<close> leading bits.\<close>

lemma top_bits:
  fixes X L k :: nat
  assumes "4 * Suc k \<le> L"
  shows "X div 2 ^ (L - 4) * 16 ^ k + (X * 16 mod 2 ^ L) div 2 ^ (L - 4 * k) = X div 2 ^ (L - 4 * Suc k)"
proof -
  let ?r = "L - 4 * Suc k"
  have s16: "(16 :: nat) ^ k = 2 ^ (4 * k)" by (simp add: power_mult)
  have e: "(2 :: nat) ^ (L - 4) = 16 ^ k * 2 ^ ?r" "(2 :: nat) ^ L = 16 * 2 ^ (L - 4)" "(2 :: nat) ^ (L - 4 * k) = 16 * 2 ^ ?r"
    using pow_split[of "4 * k" "L - 4"] pow_split[of 4 L] pow_split[of 4 "L - 4 * k"] assms by (simp_all add: s16)
  have "X * 16 mod 2 ^ L = 16 * (X mod 2 ^ (L - 4))"
    unfolding mult_mod_right e(2) by (simp add: mult.commute)
  then have a: "(X * 16 mod 2 ^ L) div 2 ^ (L - 4 * k) = X mod 2 ^ (L - 4) div 2 ^ ?r"
    unfolding e(3) by (simp only: div_mult_mult1_if) simp
  have "X = X div 2 ^ (L - 4) * 16 ^ k * 2 ^ ?r + X mod 2 ^ (L - 4)"
    using div_mult_mod_eq[of X "2 ^ (L - 4)"] e(1) by (simp add: mult.assoc)
  then have "X div 2 ^ ?r = (X div 2 ^ (L - 4) * 16 ^ k * 2 ^ ?r + X mod 2 ^ (L - 4)) div 2 ^ ?r"
    by simp
  also have "\<dots> = X div 2 ^ (L - 4) * 16 ^ k + X mod 2 ^ (L - 4) div 2 ^ ?r"
    by (rule div_mult_self3) simp
  finally show ?thesis using a by simp
qed

lemma print_x_val:
  fixes x :: "'a::len word"
  shows "4 * k \<le> LENGTH('a) \<Longrightarrow> num_val 16 (print_x k x) = unat (drop_bit (LENGTH('a) - 4 * k) x)"
proof (induction k arbitrary: x)
  case 0
  then show ?case using unsigned_less[of x] by (simp add: num_val_def unsigned_drop_bit_eq drop_bit_eq_div)
next
  case (Suc k)
  let ?L = "LENGTH('a)"
  have x: "unat x < 2 ^ ?L" by (rule unsigned_less)
  have dr: "unat (drop_bit j y) = unat y div 2 ^ j" for j and y :: "'a word"
    unfolding unsigned_drop_bit_eq using unsigned_less[of y] by (simp add: drop_bit_eq_div take_bit_nat_eq_self)
  have "2 ^ ?L = 16 * (2 :: nat) ^ (?L - 4)" using Suc.prems pow_split[of 4 ?L] by simp
  then have "unat x div 2 ^ (?L - 4) < 16" using x by (simp add: less_mult_imp_div_less)
  moreover have "unat (push_bit 4 x) = unat x * 16 mod 2 ^ ?L"
    by (simp add: push_bit_eq_mult unat_word_ariths) (simp add: take_bit_eq_mod mod_mult_right_eq)
  ultimately show ?case
    using Suc top_bits[of k ?L "unat x"] by (simp add: num_val_Cons digit_val_digit dr)
qed

section \<open>Properties\<close>

text \<open>
  Claim C19. What the number routines print is the number: reading the characters of \<open>print_d\<close> as a
  signed decimal numeral gives the argument back, also for the most negative one; they are at most
  11, so the 16 bytes of \<open>buf\<close> suffice; and the 16 or 8 characters of \<open>print_x64\<close> and \<open>print_x32\<close> are
  the hexadecimal numeral of theirs.
\<close>

theorem print_numbers:
  "dec_val (print_d v) = sint v \<and> length (print_d v) \<le> 11 \<and>
   num_val 16 (print_x64 a) = unat a \<and> length (print_x64 a) = 16 \<and>
   num_val 16 (print_x32 x) = unat x \<and> length (print_x32 x) = 8"
proof (intro conjI)
  let ?n = "nat \<bar>sint v\<bar>"
  have "sint v \<in> {- (2 ^ 31)..<2 ^ 31}" using sint_range_size[of v] by (simp add: word_size)
  then have "?n < 10 ^ Suc 9" by auto
  then have len: "length (print_d_buf ?n) \<le> 10" using length_print_d_buf[of ?n 9] by simp
  then show "length (print_d v) \<le> 11" by (cases "sint v < 0") (simp_all add: print_d_def)
  obtain c cs where cs: "rev (print_d_buf ?n) = c # cs"
    by (metis list.exhaust print_d_buf.simps rev_is_Nil_conv list.distinct(1))
  then have "c \<in> set (print_d_buf ?n)" by (metis list.set_intros(1) set_rev)
  then have "c \<noteq> 45" using print_d_buf_digits[of c ?n] by auto
  then show "dec_val (print_d v) = sint v"
    using print_d_buf_val[of ?n] cs by (cases "sint v < 0") (simp_all add: print_d_def dec_val_def)
  show "num_val 16 (print_x64 a) = unat a" "num_val 16 (print_x32 x) = unat x"
    using print_x_val[of 16 a] print_x_val[of 8 x] by (simp_all add: print_x64_def print_x32_def)
  show "length (print_x64 a) = 16" "length (print_x32 x) = 8"
    by (simp_all add: print_x64_def print_x32_def)
qed

end
