(* ===== verification/Ring.thy ===== *)
theory Ring
  imports Prelude
begin

text \<open>
  Ring buffers as the kernel writes them: free-running 32-bit counters, reduced modulo the size of the
  buffer at each access. The pipe and the console input share this shape. \<open>ring N f r n\<close> is the
  contents, oldest first, of the \<open>n\<close> bytes from counter \<open>r\<close> on; the counters may wrap, because the size
  divides \<open>2 ^ 32\<close>.
\<close>

definition ring :: "nat \<Rightarrow> (nat \<Rightarrow> uchar) \<Rightarrow> uint \<Rightarrow> nat \<Rightarrow> uchar list" where
  "ring N f r n = map (\<lambda>k. f (unat (r + of_nat k) mod N)) [0..<n]"

lemma length_ring [simp]: "length (ring N f r n) = n"
  by (simp add: ring_def)

lemma ring_0 [simp]: "ring N f r 0 = []"
  by (simp add: ring_def)

lemma ring_append: "ring N f r (n + m) = ring N f r n @ ring N f (r + of_nat n) m"
proof (rule nth_equalityI)
  fix i
  assume "i < length (ring N f r (n + m))"
  then show "ring N f r (n + m) ! i = (ring N f r n @ ring N f (r + of_nat n) m) ! i"
    by (cases "i < n") (auto simp: ring_def nth_append add.assoc simp flip: of_nat_add)
qed simp

lemma ring_pop: "ring N f r (Suc n) = f (unat r mod N) # ring N f (r + 1) n"
  using ring_append[of N f r 1 n] by (simp add: ring_def)

lemma ring_snoc: "ring N f r (Suc n) = ring N f r n @ [f (unat (r + of_nat n) mod N)]"
  by (simp add: ring_def)

text \<open>The slot of a counter, without wrap-around.\<close>

lemma ring_slot:
  assumes "N dvd 2 ^ 32"
  shows "unat (r + of_nat k :: uint) mod N = (unat r + k) mod N"
proof -
  have "unat (r + of_nat k :: uint) = (unat r + k) mod 2 ^ 32"
    by (simp add: unat_word_ariths unsigned_of_nat take_bit_eq_mod mod_add_right_eq)
  then show ?thesis using assms by (simp add: mod_mod_cancel)
qed

lemma mod_apart:
  fixes a k j N :: nat
  assumes "k < j" and "j < N"
  shows "(a + k) mod N \<noteq> (a + j) mod N"
proof
  assume "(a + k) mod N = (a + j) mod N"
  then have "N dvd (a + j) - (a + k)" using assms(1) by (metis mod_eq_dvd_iff_nat nat_add_left_cancel_le less_imp_le_nat)
  then show False using assms by (auto dest: dvd_imp_le)
qed

lemma ring_apart:
  assumes "N dvd 2 ^ 32" and "k < N" and "j < N" and "k \<noteq> j"
  shows "unat (r + of_nat k :: uint) mod N \<noteq> unat (r + of_nat j :: uint) mod N"
  using mod_apart[of k j N "unat r"] mod_apart[of j k N "unat r"] assms
  by (cases "k < j") (auto simp: ring_slot[OF assms(1)])

lemma ring_push:
  assumes "N dvd 2 ^ 32" and "n < N"
  shows "ring N (f(unat (r + of_nat n) mod N := b)) r (Suc n) = ring N f r n @ [b]"
  using ring_apart[OF assms(1) _ assms(2), of _ r] assms(2) by (auto simp: ring_def)

end
