(* ===== verification/Console.thy ===== *)
theory Console
  imports Inode Format Ring
begin

text \<open>
  \<^verbatim>\<open>console.c\<close> and \<^verbatim>\<open>uart.c\<close>: console output to the screen and the serial port, and the line-edited
  input ring. The screen is the CGA text buffer \<open>crt\<close> with its cursor register; the serial port is
  the list of bytes sent to it. The device that supplies input is the list of values \<open>getc\<close> returns
  before it returns a negative one. Also here is \<open>procdump\<close> of \<^verbatim>\<open>proc.c\<close>, which \<open>consoleintr\<close> calls.
\<close>

section \<open>State (console.c, uart.c)\<close>

definition INPUT_BUF :: nat where "INPUT_BUF = 128"
definition BACKSPACE :: nat where "BACKSPACE = 0x100"
definition CONSOLE :: nat where "CONSOLE = 1"

record input =
  in_buf :: "nat \<Rightarrow> uchar"
  in_r :: uint
  in_w :: uint
  in_e :: uint

record cons_state = fs_state +
  panicked :: bool
  cons_locking :: bool
  crt :: "nat \<Rightarrow> ushort"
  crt_pos :: nat            \<comment> \<open>cursor position register, 16 bits\<close>
  uart :: bool
  com1 :: "uchar list"      \<comment> \<open>bytes sent to the serial port\<close>
  inp :: input

section \<open>Output\<close>

definition uartputc :: "nat \<Rightarrow> ('x cons_state_scheme, unit) km" where
  "uartputc c = kbind (kget uart) (\<lambda>u. kwhen u (kmod (\<lambda>s. s\<lparr>com1 := com1 s @ [of_nat c]\<rparr>)))"

text \<open>The new cursor position before scrolling, and the screen with the character put in.\<close>

definition cga_place :: "nat \<Rightarrow> nat \<Rightarrow> (nat \<Rightarrow> ushort) \<Rightarrow> nat \<times> (nat \<Rightarrow> ushort)" where
  "cga_place c pos scr =
     (if c = 10 then (pos + (80 - pos mod 80), scr)
      else if c = BACKSPACE then (if pos > 0 then pos - 1 else pos, scr)
      else (pos + 1, scr(pos := (of_nat c AND 0xff) OR 0x0700)))"

definition cga_scroll :: "nat \<Rightarrow> (nat \<Rightarrow> ushort) \<Rightarrow> nat \<times> (nat \<Rightarrow> ushort)" where
  "cga_scroll pos scr =
     (if pos div 80 \<ge> 24 then
        let p = pos - 80; moved = (\<lambda>i. if i < 23 * 80 then scr (i + 80) else scr i) in
        (p, \<lambda>i. if p \<le> i \<and> i < 24 * 80 then 0 else moved i)
      else (pos, scr))"

definition cgaputc :: "nat \<Rightarrow> ('x cons_state_scheme, unit) km" where
  "cgaputc c = kmod (\<lambda>s.
     let (p1, scr1) = cga_place c (crt_pos s) (crt s); (p2, scr2) = cga_scroll p1 scr1 in
     s\<lparr>crt_pos := p2, crt := scr2(p2 := 0x0720)\<rparr>)"

text \<open>After a panic elsewhere the CPU halts here for ever.\<close>

definition consputc :: "nat \<Rightarrow> ('x cons_state_scheme, unit) km" where
  "consputc c =
     kbind (kget panicked) (\<lambda>p.
     if p then (\<lambda>_. Fail ESpin)
     else kseq (if c = BACKSPACE then kseq (uartputc 8) (kseq (uartputc 32) (uartputc 8)) else uartputc c)
               (cgaputc c))"

definition cprintf :: "uchar list \<Rightarrow> fmtarg list \<Rightarrow> ('x cons_state_scheme, unit) km" where
  "cprintf fmt args =
     kbind (kget cons_locking) (\<lambda>locking.
     kseq (kwhen locking (acquire ConsLock))
     (kseq (kfor (\<lambda>c. consputc (unat c)) (fmt_chars fmt args))
           (kwhen locking (release ConsLock))))"

definition consolewrite :: "nat \<Rightarrow> uchar list \<Rightarrow> ('x cons_state_scheme, int) km" where
  "consolewrite ip buf =
     kseq (iunlock (Some ip))
     (kseq (acquire ConsLock)
     (kseq (kfor (\<lambda>b. consputc (unat b)) buf)
     (kseq (release ConsLock)
     (kseq (ilock (Some ip))
           (kret (int (length buf)))))))"

section \<open>Input\<close>

definition set_inp :: "(input \<Rightarrow> input) \<Rightarrow> ('x cons_state_scheme, unit) km" where
  "set_inp f = kmod (\<lambda>s. s\<lparr>inp := f (inp s)\<rparr>)"

definition ring_at :: "input \<Rightarrow> uint \<Rightarrow> uchar" where
  "ring_at i k = in_buf i (unat k mod INPUT_BUF)"

text \<open>
  The loop of control-U. Each turn takes one character out of the \<open>e - w\<close> being edited, so that many
  turns are enough.
\<close>

primrec kill_line :: "nat \<Rightarrow> ('x cons_state_scheme, unit) km" where
  "kill_line 0 = kret ()"
| "kill_line (Suc k) =
     kbind (kget inp) (\<lambda>i.
     if in_e i \<noteq> in_w i \<and> ring_at i (in_e i - 1) \<noteq> 10 then
       kseq (set_inp (\<lambda>i. i\<lparr>in_e := in_e i - 1\<rparr>))
       (kseq (consputc BACKSPACE) (kill_line k))
     else kret ())"

definition str :: "string \<Rightarrow> uchar list" where
  "str s = map of_char s"

text \<open>The six strings of \<open>states\<close> in \<open>procdump\<close>.\<close>

fun state_name :: "procstate \<Rightarrow> uchar list" where
  "state_name UNUSED = str ''unused''"
| "state_name EMBRYO = str ''embryo''"
| "state_name SLEEPING = str ''sleep ''"
| "state_name RUNNABLE = str ''runble''"
| "state_name RUNNING = str ''run   ''"
| "state_name ZOMBIE = str ''zombie''"

text \<open>Printing the addresses in \<open>pcs\<close> up to the first zero.\<close>

primrec dump_pcs :: "addr_t list \<Rightarrow> ('x cons_state_scheme, unit) km" where
  "dump_pcs [] = kret ()"
| "dump_pcs (pc # pcs) = (if pc = 0 then kret () else kseq (cprintf (str '' %p'') [ArgPtr pc]) (dump_pcs pcs))"

definition procdump_one :: "nat \<Rightarrow> ('x cons_state_scheme, unit) km" where
  "procdump_one i =
     kbind (get_proc (\<lambda>q. q) i) (\<lambda>p.
     kwhen (p_state p \<noteq> UNUSED)
       (kseq (cprintf (str ''%d %s %s'') [ArgInt (p_pid p), ArgStr (Some (state_name (p_state p))), ArgStr (Some (takeWhile (\<lambda>c. c \<noteq> 0) (p_name p)))])
       (kseq (kwhen (p_state p = SLEEPING)
               (kbind (kget (\<lambda>s. getstackpcs (mem s) (load64 (mem s) (p_context p + 40) + 16))) dump_pcs))
             (cprintf [10] []))))"

definition procdump :: "('x cons_state_scheme, unit) km" where
  "procdump = kfor procdump_one [0..<NPROC]"

definition type_char :: "nat \<Rightarrow> ('x cons_state_scheme, unit) km" where
  "type_char c =
     kseq (set_inp (\<lambda>i. i\<lparr>in_buf := (in_buf i)(unat (in_e i) mod INPUT_BUF := of_nat c), in_e := in_e i + 1\<rparr>))
     (kseq (consputc c)
     (kbind (kget inp) (\<lambda>i.
      kwhen (c = 10 \<or> c = 4 \<or> in_e i = in_r i + of_nat INPUT_BUF)
        (kseq (set_inp (\<lambda>i. i\<lparr>in_w := in_e i\<rparr>)) (wakeup InputChan)))))"

definition consoleintr_key :: "nat \<Rightarrow> ('x cons_state_scheme, unit) km" where
  "consoleintr_key c =
     (if c = 26 then kfault ''lidt''
      else if c = 16 then procdump
      else if c = 21 then kbind (kget inp) (\<lambda>i. kill_line (unat (in_e i - in_w i)))
      else if c = 8 \<or> c = 127 then
        kbind (kget inp) (\<lambda>i.
        kwhen (in_e i \<noteq> in_w i)
          (kseq (set_inp (\<lambda>i. i\<lparr>in_e := in_e i - 1\<rparr>)) (consputc BACKSPACE)))
      else
        kbind (kget inp) (\<lambda>i.
        kwhen (c \<noteq> 0 \<and> in_e i - in_r i < of_nat INPUT_BUF)
          (type_char (if c = 13 then 10 else c))))"

definition consoleintr :: "nat list \<Rightarrow> ('x cons_state_scheme, unit) km" where
  "consoleintr keys =
     kseq (acquire InputLock)
     (kseq (kfor consoleintr_key keys)
           (release InputLock))"

text \<open>
  The loop of \<open>consoleread\<close> with \<open>n\<close> bytes still to read and \<open>got\<close> already stored at \<open>dst\<close>; the result is
  the return value and what was stored. A process that had to sleep resumes with \<open>consoleread_return\<close>.
\<close>

primrec consoleread_loop :: "nat \<Rightarrow> uchar list \<Rightarrow> ('x cons_state_scheme, int \<times> uchar list) km" where
  "consoleread_loop 0 got = kret (int (length got), got)"
| "consoleread_loop (Suc n) got =
     kbind (kget inp) (\<lambda>i.
     if in_r i = in_w i then
       with_cur (\<lambda>me. kbind (get_proc p_killed me) (\<lambda>k.
       if k then kret (- 1, got) else sleep InputChan (Some InputLock)))
     else
       let c = ring_at i (in_r i) in
       kseq (set_inp (\<lambda>i. i\<lparr>in_r := in_r i + 1\<rparr>))
       (if c = 4 then
          kseq (kwhen (got \<noteq> []) (set_inp (\<lambda>i. i\<lparr>in_r := in_r i - 1\<rparr>))) (kret (int (length got), got))
        else if c = 10 then kret (int (length (got @ [c])), got @ [c])
        else consoleread_loop n (got @ [c])))"

definition consoleread_end :: "nat \<Rightarrow> int \<times> uchar list \<Rightarrow> ('x cons_state_scheme, int \<times> uchar list) km" where
  "consoleread_end ip r =
     kseq (release InputLock)
     (kseq (ilock (Some ip))
           (kret r))"

definition consoleread :: "nat \<Rightarrow> nat \<Rightarrow> ('x cons_state_scheme, int \<times> uchar list) km" where
  "consoleread ip n =
     kseq (iunlock (Some ip))
     (kseq (acquire InputLock)
     (kbind (consoleread_loop n []) (consoleread_end ip)))"

definition consoleread_return :: "nat \<Rightarrow> nat \<Rightarrow> uchar list \<Rightarrow> ('x cons_state_scheme, int \<times> uchar list) km" where
  "consoleread_return ip n got =
     kseq (sleep_return InputLock) (kbind (consoleread_loop n got) (consoleread_end ip))"

definition consoleinit :: "('x cons_state_scheme, unit) km" where
  "consoleinit =
     kseq (initlock ConsLock ''console'')
     (kseq (initlock InputLock ''input'')
     (kseq (kmod (\<lambda>s. s\<lparr>devsw := (devsw s)(CONSOLE := Some ConsoleDev)\<rparr>))
           (kmod (\<lambda>s. s\<lparr>cons_locking := True\<rparr>))))"

section \<open>The screen\<close>

text \<open>The cursor stays on the first 24 rows, and nothing outside the 25 rows of the text buffer is written.\<close>

lemma cga_pos:
  assumes "pos < 24 * 80"
  shows "fst (cga_scroll (fst (cga_place c pos scr)) scr') < 24 * 80"
proof -
  have "pos mod 80 < 80" "pos div 80 < 24" using assms by auto
  moreover have "q * 80 + r + (80 - r) = (q + 1) * 80" if "r < 80" for q r :: nat using that by simp
  from this[of "pos mod 80" "pos div 80"] have "pos + (80 - pos mod 80) = (pos div 80 + 1) * 80"
    by (simp only: div_mult_mod_eq)
  ultimately show ?thesis
    using assms by (auto simp: cga_place_def cga_scroll_def Let_def)
qed

lemma cgaputc_eq:
  "cgaputc c s = Ok () (s\<lparr>crt_pos := fst (cga_scroll (fst (cga_place c (crt_pos s) (crt s))) (snd (cga_place c (crt_pos s) (crt s)))),
     crt := (snd (cga_scroll (fst (cga_place c (crt_pos s) (crt s))) (snd (cga_place c (crt_pos s) (crt s)))))
       (fst (cga_scroll (fst (cga_place c (crt_pos s) (crt s))) (snd (cga_place c (crt_pos s) (crt s)))) := 0x0720)\<rparr>)"
  by (simp add: cgaputc_def k_simps case_prod_unfold Let_def)

text \<open>Console output changes the screen and the serial port only.\<close>

definition out_only :: "'x cons_state_scheme \<Rightarrow> 'x cons_state_scheme \<Rightarrow> bool" where
  "out_only s t \<longleftrightarrow> (\<exists>p c m. t = s\<lparr>crt_pos := p, crt := c, com1 := m\<rparr>)"

lemma out_onlyI: "out_only s (s\<lparr>crt_pos := p, crt := c, com1 := m\<rparr>)"
  by (auto simp: out_only_def)

lemma out_only_trans:
  assumes "out_only s t" and "out_only t u"
  shows "out_only s u"
proof -
  obtain p c m q d n where "t = s\<lparr>crt_pos := p, crt := c, com1 := m\<rparr>" "u = t\<lparr>crt_pos := q, crt := d, com1 := n\<rparr>"
    using assms unfolding out_only_def by blast
  then have "u = s\<lparr>crt_pos := q, crt := d, com1 := n\<rparr>" by simp
  then show ?thesis using out_onlyI by blast
qed

lemma out_only_inp: "out_only s t \<Longrightarrow> inp t = inp s" and out_only_panicked: "out_only s t \<Longrightarrow> panicked t = panicked s"
  and out_only_locks: "out_only s t \<Longrightarrow> same_locks t s" and out_only_ptable: "out_only s t \<Longrightarrow> ptable t = ptable s"
  by (auto simp: out_only_def same_locks_def)

lemma uartputc_ok: "\<exists>t. uartputc c s = Ok () t \<and> out_only s t"
  using out_onlyI[of s "com1 s @ [of_nat c]" "crt s" "crt_pos s"] out_onlyI[of s "com1 s" "crt s" "crt_pos s"]
  by (simp add: uartputc_def k_simps)

lemma cgaputc_ok: "\<exists>t. cgaputc c s = Ok () t \<and> out_only s t"
proof -
  obtain p m where "cgaputc c s = Ok () (s\<lparr>crt_pos := p, crt := m\<rparr>)" by (simp add: cgaputc_eq)
  then show ?thesis using out_onlyI[of s "com1 s" m p] by simp
qed

lemma consputc_ok:
  assumes "\<not> panicked s"
  shows "\<exists>t. consputc c s = Ok () t \<and> out_only s t"
proof -
  have seq: "\<exists>t. kseq m n s = Ok () t \<and> out_only s t"
    if m: "\<And>s. \<exists>t. m s = Ok () t \<and> out_only s t" and n: "\<And>s. \<exists>t. n s = Ok () t \<and> out_only s t"
    for m n :: "('a cons_state_scheme, unit) km" and s
  proof -
    obtain t u where "m s = Ok () t" "out_only s t" "n t = Ok () u" "out_only t u" using m[of s] n by blast
    then show ?thesis using out_only_trans[of s t u] by (simp add: kseq_Ok)
  qed
  have "\<exists>t. kseq (if c = BACKSPACE then kseq (uartputc 8) (kseq (uartputc 32) (uartputc 8)) else uartputc c) (cgaputc c) s = Ok () t \<and> out_only s t"
    by (intro seq) (auto intro!: seq uartputc_ok cgaputc_ok)
  then show ?thesis
    using assms by (simp add: consputc_def k_simps)
qed

section \<open>The line editor\<close>

text \<open>The committed input, from \<open>r\<close> to \<open>w\<close>, and the line being edited, from \<open>w\<close> to \<open>e\<close>.\<close>

definition committed :: "input \<Rightarrow> uchar list" where
  "committed i = ring INPUT_BUF (in_buf i) (in_r i) (unat (in_w i - in_r i))"

definition editing :: "input \<Rightarrow> uchar list" where
  "editing i = ring INPUT_BUF (in_buf i) (in_w i) (unat (in_e i - in_w i))"

definition ring_ok :: "input \<Rightarrow> bool" where
  "ring_ok i \<longleftrightarrow> unat (in_w i - in_r i) + unat (in_e i - in_w i) \<le> INPUT_BUF"

text \<open>What a key does to them.\<close>

definition edit_key :: "nat \<Rightarrow> uchar list \<times> uchar list \<Rightarrow> uchar list \<times> uchar list" where
  "edit_key c l = (case l of (com, ed) \<Rightarrow>
     if c = 21 then (com, rev (dropWhile (\<lambda>b. b \<noteq> 10) (rev ed)))
     else if c = 8 \<or> c = 127 then (com, butlast ed)
     else if c = 0 \<or> length com + length ed \<ge> INPUT_BUF then (com, ed)
     else let d = (if c = 13 then 10 else c); ed' = ed @ [of_nat d] in
       if d = 10 \<or> d = 4 \<or> length com + length ed' = INPUT_BUF then (com @ ed', []) else (com, ed'))"

lemma ring_len:
  assumes "ring_ok i"
  shows "unat (in_e i - in_r i) = unat (in_w i - in_r i) + unat (in_e i - in_w i)"
proof -
  have "in_e i - in_r i = (in_w i - in_r i) + (in_e i - in_w i)" by simp
  moreover have "unat (in_w i - in_r i) + unat (in_e i - in_w i) < 2 ^ 32"
    using assms by (simp add: ring_ok_def INPUT_BUF_def)
  ultimately show ?thesis by (simp only: unat_word_ariths) simp
qed

lemma input_dvd: "INPUT_BUF dvd 2 ^ 32"
  by (simp add: INPUT_BUF_def)

lemma unat_suc_diff: "unat (a - b :: uint) + 1 < 2 ^ 32 \<Longrightarrow> unat (a + 1 - b) = unat (a - b) + 1"
proof -
  assume a: "unat (a - b :: uint) + 1 < 2 ^ 32"
  have "a + 1 - b = (a - b) + 1" by simp
  then show "unat (a + 1 - b) = unat (a - b) + 1"
    using a by (simp only: unat_word_ariths) simp
qed

lemma unat_pred_diff: "a \<noteq> b \<Longrightarrow> unat (a - 1 - b :: uint) = unat (a - b) - 1"
proof -
  assume "a \<noteq> b"
  then have "a - b \<noteq> 0" by simp
  then have "unat ((a - b) - 1) = unat (a - b) - 1" by (rule unat_minus_one)
  then show ?thesis by (simp add: diff_diff_add add.commute)
qed

text \<open>Taking the last character of the line back.\<close>

lemma editing_pop:
  assumes "ring_ok i" and "in_e i \<noteq> in_w i"
  shows "editing (i\<lparr>in_e := in_e i - 1\<rparr>) = butlast (editing i)" and "committed (i\<lparr>in_e := in_e i - 1\<rparr>) = committed i"
    and "ring_ok (i\<lparr>in_e := in_e i - 1\<rparr>)" and "last (editing i) = ring_at i (in_e i - 1)" and "editing i \<noteq> []"
proof -
  let ?n = "unat (in_e i - in_w i)"
  have n: "?n \<noteq> 0" using assms(2) by (simp add: unat_eq_zero)
  then obtain k where k: "?n = Suc k" by (cases ?n) auto
  have "in_w i + of_nat k = in_e i - 1"
  proof -
    have "of_nat (Suc k) = in_e i - in_w i" unfolding k[symmetric] by simp
    then show ?thesis by (simp add: algebra_simps)
  qed
  then have snoc: "editing i = ring INPUT_BUF (in_buf i) (in_w i) k @ [ring_at i (in_e i - 1)]"
    unfolding editing_def k ring_snoc by (simp add: ring_at_def)
  have p: "unat (in_e i - 1 - in_w i) = k" using unat_pred_diff[OF assms(2)] k by simp
  show "editing (i\<lparr>in_e := in_e i - 1\<rparr>) = butlast (editing i)" "last (editing i) = ring_at i (in_e i - 1)" "editing i \<noteq> []"
    unfolding snoc by (simp_all add: editing_def p)
  show "committed (i\<lparr>in_e := in_e i - 1\<rparr>) = committed i" by (simp add: committed_def)
  show "ring_ok (i\<lparr>in_e := in_e i - 1\<rparr>)" using assms(1) p k by (simp add: ring_ok_def)
qed

text \<open>Typing a character.\<close>

lemma editing_push:
  fixes b :: uchar
  assumes ok: "ring_ok i" and room: "unat (in_e i - in_r i) < INPUT_BUF"
  defines "j \<equiv> i\<lparr>in_buf := (in_buf i)(unat (in_e i) mod INPUT_BUF := b), in_e := in_e i + 1\<rparr>"
  shows "editing j = editing i @ [b]" and "committed j = committed i" and "ring_ok j"
proof -
  let ?c = "unat (in_w i - in_r i)" and ?n = "unat (in_e i - in_w i)"
  have len: "?c + ?n < INPUT_BUF" using room ring_len[OF ok] by simp
  have e: "in_r i + of_nat (?c + ?n) = in_e i" by simp
  have n: "unat (in_e i + 1 - in_w i) = Suc ?n"
    using unat_suc_diff[of "in_e i" "in_w i"] len by (simp add: INPUT_BUF_def)
  show "editing j = editing i @ [b]"
    using ring_push[OF input_dvd, of ?n "in_buf i" "in_w i" b] len by (simp add: j_def editing_def n)
  have "unat (in_r i + of_nat k) mod INPUT_BUF \<noteq> unat (in_e i) mod INPUT_BUF" if "k < ?c" for k
    using that len ring_apart[OF input_dvd, of k "?c + ?n" "in_r i"] e by simp
  then show "committed j = committed i" by (simp add: j_def committed_def ring_def)
  show "ring_ok j" using len n by (simp add: j_def ring_ok_def)
qed

lemma commit_line:
  assumes "ring_ok i"
  shows "committed (i\<lparr>in_w := in_e i\<rparr>) = committed i @ editing i" and "editing (i\<lparr>in_w := in_e i\<rparr>) = []"
    and "ring_ok (i\<lparr>in_w := in_e i\<rparr>)"
  using assms ring_len[OF assms] ring_append[of INPUT_BUF "in_buf i" "in_r i" "unat (in_w i - in_r i)" "unat (in_e i - in_w i)"]
  by (simp_all add: committed_def editing_def ring_ok_def)

definition line_abs :: "input \<Rightarrow> uchar list \<times> uchar list" where
  "line_abs i = (committed i, editing i)"

text \<open>The states in which the interrupt handler runs: its lock held, the process table free.\<close>

definition intr_ready :: "'x cons_state_scheme \<Rightarrow> bool" where
  "intr_ready s \<longleftrightarrow> irq_ok s \<and> lock_free PtableLock s \<and> \<not> panicked s \<and> ring_ok (inp s)"

lemma intr_ready_out:
  assumes "out_only s t" and "intr_ready s"
  shows "intr_ready t"
  using assms out_only_inp[OF assms(1)] out_only_panicked[OF assms(1)] same_locks_cong[OF out_only_locks[OF assms(1)]]
  by (simp add: intr_ready_def)

lemma intr_ready_inp:
  "intr_ready s \<Longrightarrow> ring_ok i \<Longrightarrow> intr_ready (s\<lparr>inp := i\<rparr>)"
  using same_locks_cong[of "s\<lparr>inp := i\<rparr>" s] by (simp add: intr_ready_def same_locks_def)

lemma drop_to_stop: "xs \<noteq> [] \<Longrightarrow> last xs = c \<Longrightarrow> \<not> P c \<Longrightarrow> rev (dropWhile P (rev xs)) = xs"
  by (cases xs rule: rev_cases) auto

lemma rev_last: "xs \<noteq> [] \<Longrightarrow> rev xs = last xs # rev (butlast xs)"
  by (cases xs rule: rev_cases) auto

lemma kill_line_ok:
  assumes "intr_ready s" and "unat (in_e (inp s) - in_w (inp s)) \<le> k"
  shows "\<exists>t. kill_line k s = Ok () t \<and> intr_ready t \<and> committed (inp t) = committed (inp s) \<and>
    editing (inp t) = rev (dropWhile (\<lambda>b. b \<noteq> 10) (rev (editing (inp s)))) \<and> same_locks t s \<and> in_w (inp t) = in_w (inp s)"
  using assms
proof (induction k arbitrary: s)
  case 0
  then have "editing (inp s) = []" by (simp add: editing_def)
  then show ?case using 0 by (simp add: k_simps same_locks_def)
next
  case (Suc k)
  let ?i = "inp s"
  show ?case
  proof (cases "in_e ?i \<noteq> in_w ?i \<and> ring_at ?i (in_e ?i - 1) \<noteq> 10")
    case False
    have "rev (dropWhile (\<lambda>b. b \<noteq> 10) (rev (editing ?i))) = editing ?i"
    proof (cases "in_e ?i = in_w ?i")
      case True
      then show ?thesis by (simp add: editing_def)
    next
      case ne: False
      then have "editing ?i \<noteq> []" "last (editing ?i) = 10" using editing_pop[of ?i] Suc.prems False by (auto simp: intr_ready_def)
      then show ?thesis by (rule drop_to_stop) simp
    qed
    then show ?thesis using False Suc.prems by (auto simp: k_simps same_locks_def)
  next
    case True
    let ?s = "s\<lparr>inp := ?i\<lparr>in_e := in_e ?i - 1\<rparr>\<rparr>"
    have ok: "ring_ok ?i" using Suc.prems by (simp add: intr_ready_def)
    note pop = editing_pop[OF ok conjunct1[OF True]]
    have r: "intr_ready ?s" by (rule intr_ready_inp[OF Suc.prems(1) pop(3)])
    obtain t where t: "consputc BACKSPACE ?s = Ok () t" "out_only ?s t"
      using consputc_ok[of ?s BACKSPACE] r by (auto simp: intr_ready_def)
    have i: "inp t = ?i\<lparr>in_e := in_e ?i - 1\<rparr>" using out_only_inp[OF t(2)] by simp
    have "unat (in_e (inp t) - in_w (inp t)) \<le> k"
      unfolding i using Suc.prems(2) unat_pred_diff[of "in_e ?i" "in_w ?i"] True by simp
    then obtain u where u: "kill_line k t = Ok () u" "intr_ready u" "committed (inp u) = committed (inp t)"
        "editing (inp u) = rev (dropWhile (\<lambda>b. b \<noteq> 10) (rev (editing (inp t))))" "same_locks u t" "in_w (inp u) = in_w (inp t)"
      using Suc.IH[OF intr_ready_out[OF t(2) r]] by blast
    have rv: "rev (editing ?i) = ring_at ?i (in_e ?i - 1) # rev (butlast (editing ?i))"
      unfolding rev_last[OF pop(5)] pop(4) ..
    have "editing (inp u) = rev (dropWhile (\<lambda>b. b \<noteq> 10) (rev (editing ?i)))"
      unfolding rv u(4) i using True pop(1) by simp
    moreover have "kill_line (Suc k) s = Ok () u" using True t(1) u(1) by (simp add: k_simps set_inp_def)
    moreover have "same_locks u s" using u(5) out_only_locks[OF t(2)] by (simp add: same_locks_def)
    ultimately show ?thesis using u(2,3,6) pop(2) by (simp add: i)
  qed
qed

lemma input_full: "ring_ok i \<Longrightarrow> in_e i = in_r i + of_nat INPUT_BUF \<longleftrightarrow> length (committed i) + length (editing i) = INPUT_BUF"
proof -
  assume ok: "ring_ok i"
  have "in_e i = in_r i + of_nat INPUT_BUF \<longleftrightarrow> in_e i - in_r i = of_nat INPUT_BUF" by (auto simp: algebra_simps)
  also have "\<dots> \<longleftrightarrow> unat (in_e i - in_r i) = INPUT_BUF"
    by (simp add: word_unat_eq_iff INPUT_BUF_def)
  finally show ?thesis by (simp add: ring_len[OF ok] committed_def editing_def)
qed

lemma wakeup_ready:
  assumes "intr_ready s"
  shows "\<exists>t. wakeup ch s = Ok () t \<and> intr_ready t \<and> inp t = inp s \<and> same_locks t s"
proof -
  let ?t = "wake_all (Some ch) s"
  have "wakeup ch s = Ok () ?t" using assms by (intro wakeup_eq) (simp_all add: intr_ready_def)
  moreover have "same_locks ?t s" "inp ?t = inp s" "panicked ?t = panicked s" by (simp_all add: same_locks_def wake_all_def)
  ultimately show ?thesis using assms same_locks_cong[of ?t s] by (auto simp: intr_ready_def)
qed

lemma type_char_ok:
  assumes r: "intr_ready s" and room: "unat (in_e (inp s) - in_r (inp s)) < INPUT_BUF"
    and c: "c \<notin> {0, 8, 13, 16, 21, 26, 127}"
  shows "\<exists>t. type_char c s = Ok () t \<and> intr_ready t \<and> line_abs (inp t) = edit_key c (line_abs (inp s)) \<and> same_locks t s"
proof -
  let ?i = "inp s"
  have ok: "ring_ok ?i" using r by (simp add: intr_ready_def)
  define j where "j = ?i\<lparr>in_buf := (in_buf ?i)(unat (in_e ?i) mod INPUT_BUF := of_nat c), in_e := in_e ?i + 1\<rparr>"
  note push = editing_push[OF ok room, of "of_nat c", folded j_def]
  have rj: "intr_ready (s\<lparr>inp := j\<rparr>)" by (rule intr_ready_inp[OF r push(3)])
  obtain t where t: "consputc c (s\<lparr>inp := j\<rparr>) = Ok () t" "out_only (s\<lparr>inp := j\<rparr>) t"
    using consputc_ok[of "s\<lparr>inp := j\<rparr>" c] rj by (auto simp: intr_ready_def)
  have i: "inp t = j" using out_only_inp[OF t(2)] by simp
  have rt: "intr_ready t" by (rule intr_ready_out[OF t(2) rj])
  have lt: "same_locks t s" using out_only_locks[OF t(2)] by (simp add: same_locks_def)
  have full: "in_e j = in_r j + of_nat INPUT_BUF \<longleftrightarrow> length (committed ?i) + length (editing ?i @ [of_nat c]) = INPUT_BUF"
    using input_full[OF push(3)] push(1,2) by simp
  have small: "length (committed ?i) + length (editing ?i) < INPUT_BUF"
    using room ring_len[OF ok] by (simp add: committed_def editing_def)
  show ?thesis
  proof (cases "c = 10 \<or> c = 4 \<or> in_e j = in_r j + of_nat INPUT_BUF")
    case False
    then have "type_char c s = Ok () t" using t(1) i by (simp add: type_char_def k_simps set_inp_def j_def)
    moreover have "edit_key c (line_abs ?i) = (committed ?i, editing ?i @ [of_nat c])"
      using False full small c by (auto simp: edit_key_def line_abs_def)
    ultimately show ?thesis using rt lt push by (auto simp: line_abs_def i)
  next
    case True
    have rc: "intr_ready (t\<lparr>inp := j\<lparr>in_w := in_e j\<rparr>\<rparr>)" by (rule intr_ready_inp[OF rt commit_line(3)[OF push(3)]])
    obtain u where u: "wakeup InputChan (t\<lparr>inp := j\<lparr>in_w := in_e j\<rparr>\<rparr>) = Ok () u" "intr_ready u" "inp u = j\<lparr>in_w := in_e j\<rparr>"
        "same_locks u (t\<lparr>inp := j\<lparr>in_w := in_e j\<rparr>\<rparr>)"
      using wakeup_ready[OF rc] by auto
    have "type_char c s = Ok () u" using True t(1) u(1) i by (simp add: type_char_def k_simps set_inp_def j_def)
    moreover have "edit_key c (line_abs ?i) = (committed ?i @ editing ?i @ [of_nat c], [])"
      using True full small c by (auto simp: edit_key_def line_abs_def)
    moreover have "line_abs (inp u) = (committed ?i @ editing ?i @ [of_nat c], [])"
      using commit_line(1,2)[OF push(3)] push(1,2) by (simp add: line_abs_def u(3))
    ultimately show ?thesis using u(2,4) lt by (auto simp: same_locks_def)
  qed
qed

lemma consoleintr_key_ok:
  assumes r: "intr_ready s" and c: "c \<noteq> 26" "c \<noteq> 16"
  shows "\<exists>t. consoleintr_key c s = Ok () t \<and> intr_ready t \<and> line_abs (inp t) = edit_key c (line_abs (inp s)) \<and> same_locks t s"
proof -
  let ?i = "inp s"
  have ok: "ring_ok ?i" using r by (simp add: intr_ready_def)
  consider "c = 21" | "c = 8 \<or> c = 127" | "c \<notin> {8, 16, 21, 26, 127}" using c by blast
  then show ?thesis
  proof cases
    case 1
    then show ?thesis
      using kill_line_ok[OF r order_refl] by (auto simp: consoleintr_key_def k_simps edit_key_def line_abs_def)
  next
    case 2
    show ?thesis
    proof (cases "in_e ?i = in_w ?i")
      case True
      then have "editing ?i = []" by (simp add: editing_def)
      then show ?thesis
        using 2 True r by (auto simp: consoleintr_key_def k_simps edit_key_def line_abs_def same_locks_def)
    next
      case False
      note pop = editing_pop[OF ok False]
      let ?s = "s\<lparr>inp := ?i\<lparr>in_e := in_e ?i - 1\<rparr>\<rparr>"
      have rs: "intr_ready ?s" by (rule intr_ready_inp[OF r pop(3)])
      obtain t where t: "consputc BACKSPACE ?s = Ok () t" "out_only ?s t"
        using consputc_ok[of ?s BACKSPACE] rs by (auto simp: intr_ready_def)
      have "line_abs (inp t) = edit_key c (line_abs ?i)"
        using 2 pop(1,2) out_only_inp[OF t(2)] by (auto simp: line_abs_def edit_key_def)
      then show ?thesis
        using 2 False t(1) intr_ready_out[OF t(2) rs] out_only_locks[OF t(2)]
        by (auto simp: consoleintr_key_def k_simps set_inp_def same_locks_def)
    qed
  next
    case 3
    have room: "in_e ?i - in_r ?i < of_nat INPUT_BUF \<longleftrightarrow> unat (in_e ?i - in_r ?i) < INPUT_BUF"
      by (simp add: word_less_nat_alt INPUT_BUF_def)
    have sum: "unat (in_e ?i - in_r ?i) = length (committed ?i) + length (editing ?i)"
      by (simp add: ring_len[OF ok] committed_def editing_def)
    show ?thesis
    proof (cases "c = 0 \<or> \<not> unat (in_e ?i - in_r ?i) < INPUT_BUF")
      case True
      then show ?thesis
        using 3 r room sum by (auto simp: consoleintr_key_def k_simps edit_key_def line_abs_def same_locks_def)
    next
      case False
      let ?d = "if c = 13 then 10 else c"
      have d: "?d \<notin> {0, 8, 13, 16, 21, 26, 127}" using 3 False by auto
      have "edit_key ?d l = edit_key c l" for l using 3 by (auto simp: edit_key_def)
      moreover have "consoleintr_key c s = type_char ?d s"
        using 3 False room by (simp add: consoleintr_key_def k_simps)
      ultimately show ?thesis
        using type_char_ok[OF r _ d] False by simp
    qed
  qed
qed

lemma keys_ok:
  assumes "intr_ready s" and "set keys \<inter> {16, 26} = {}"
  shows "\<exists>t. kfor consoleintr_key keys s = Ok () t \<and> intr_ready t \<and> line_abs (inp t) = fold edit_key keys (line_abs (inp s)) \<and> same_locks t s"
  using assms
proof (induction keys arbitrary: s)
  case Nil
  then show ?case by (simp add: k_simps same_locks_def)
next
  case (Cons c keys)
  obtain t where t: "consoleintr_key c s = Ok () t" "intr_ready t" "line_abs (inp t) = edit_key c (line_abs (inp s))" "same_locks t s"
    using consoleintr_key_ok[OF Cons.prems(1), of c] Cons.prems(2) by auto
  then show ?case
    using Cons.IH[OF t(2)] Cons.prems(2) by (auto simp: k_simps same_locks_def)
qed

section \<open>Properties\<close>

text \<open>
  Claim C12. The console interrupt refines a line editor. With \<open>com\<close> the committed input and \<open>ed\<close> the
  line being edited, each key appends, deletes a character, deletes the line or commits it, exactly
  as \<open>edit_key\<close> says, for any sequence of keys other than the process listing and the reboot key; the
  ring never holds more than its 128 bytes, although its counters may wrap.
\<close>

theorem consoleintr_refines:
  assumes "irq_ok s" and "lock_free InputLock s" and "lock_free PtableLock s" and "\<not> panicked s" and "ring_ok (inp s)"
    and "set keys \<inter> {16, 26} = {}"
  shows "\<exists>t. consoleintr keys s = Ok () t \<and> line_abs (inp t) = fold edit_key keys (line_abs (inp s)) \<and> ring_ok (inp t)"
proof -
  let ?s = "taken InputLock s"
  have "intr_ready ?s"
    using assms irq_ok_taken[OF assms(1), of InputLock] by (simp add: intr_ready_def lock_free_def taken_def)
  then obtain t where t: "kfor consoleintr_key keys ?s = Ok () t" "intr_ready t"
      "line_abs (inp t) = fold edit_key keys (line_abs (inp ?s))" "same_locks t ?s"
    using keys_ok[OF _ assms(6)] by blast
  have "release InputLock t = Ok () (restore_locks s t)" by (rule release_taken[OF assms(1,2) t(4)])
  then have "consoleintr keys s = Ok () (restore_locks s t)"
    using acquire_free[OF assms(2)] t(1) by (simp add: consoleintr_def k_simps)
  then show ?thesis
    using t(2,3) by (simp add: restore_locks_def intr_ready_def taken_def)
qed

definition boot_inp :: input where
  "boot_inp = \<lparr>in_buf = (\<lambda>_. 0), in_r = 0xFFFFFFFE, in_w = 0xFFFFFFFE, in_e = 0xFFFFFFFE\<rparr>"

definition boot_cons :: cons_state where
  "boot_cons = fs_state.extend boot_fs \<lparr>panicked = False, cons_locking = True, crt = (\<lambda>_. 0), crt_pos = 0, uart = True, com1 = [],
     inp = boot_inp, \<dots> = ()\<rparr>"

lemma boot_cons_ok: "quiet boot_cons" "\<not> panicked boot_cons" "inp boot_cons = boot_inp" "mem boot_cons = mem boot_fs"
proof -
  show "quiet boot_cons"
    using boot_fs_quiet by (simp add: boot_cons_def fs_state.defs quiet_def irq_ok_def lock_free_def)
  show "\<not> panicked boot_cons" "inp boot_cons = boot_inp" "mem boot_cons = mem boot_fs"
    by (simp_all add: boot_cons_def fs_state.defs)
qed

text \<open>Typing \<open>a\<close>, \<open>b\<close>, backspace, return across the wrap of the counters.\<close>

theorem consoleintr_refines_witness:
  "\<exists>t. consoleintr [97, 98, 8, 13] boot_cons = Ok () t \<and> committed (inp t) = [97, 10] \<and> editing (inp t) = []"
proof -
  have "ring_ok boot_inp" "line_abs boot_inp = ([], [])"
    by (simp_all add: ring_ok_def boot_inp_def line_abs_def committed_def editing_def)
  then show ?thesis
    using consoleintr_refines[of boot_cons "[97, 98, 8, 13]"] boot_cons_ok
    by (auto simp: quiet_def edit_key_def INPUT_BUF_def line_abs_def)
qed

text \<open>
  Claim C24. Screen output stays inside the text buffer: with the cursor on the first 24 rows,
  printing any character, also a newline on the last of these rows, leaves it there and writes no
  cell outside the 25 rows of the screen.
\<close>

theorem cgaputc_bounds:
  assumes "crt_pos s < 24 * 80"
  shows "\<exists>t. cgaputc c s = Ok () t \<and> crt_pos t < 24 * 80 \<and> (\<forall>i. 25 * 80 \<le> i \<longrightarrow> crt t i = crt s i)"
proof -
  let ?p1 = "fst (cga_place c (crt_pos s) (crt s))" and ?s1 = "snd (cga_place c (crt_pos s) (crt s))"
  have pos: "fst (cga_scroll ?p1 ?s1) < 24 * 80" by (rule cga_pos[OF assms])
  have "?s1 i = crt s i" if "25 * 80 \<le> i" for i using assms that by (auto simp: cga_place_def)
  then have "snd (cga_scroll ?p1 ?s1) i = crt s i" if "25 * 80 \<le> i" for i
    using that by (auto simp: cga_scroll_def Let_def)
  then show ?thesis using pos by (auto simp: cgaputc_eq)
qed

theorem cgaputc_bounds_witness: "\<exists>t. cgaputc 10 (boot_cons\<lparr>crt_pos := 1919\<rparr>) = Ok () t \<and> crt_pos t < 1920"
  using cgaputc_bounds[of "boot_cons\<lparr>crt_pos := 1919\<rparr>" 10] by auto

end
