(* ===== verification/Dir.thy ===== *)
theory Dir
  imports Console
begin

text \<open>
  \<^verbatim>\<open>fs.c\<close>, the upper half: the contents of an inode, directories and path names. A buffer in the
  caller's memory is the list of bytes that is copied into or out of it: \<open>readi\<close> returns what it
  stores at \<open>dst\<close> beside its return value, \<open>writei\<close> takes the bytes at \<open>src\<close>, whose number is \<open>n\<close>. A C
  string is the list of its bytes before the terminator.
\<close>

section \<open>Contents (fs.c)\<close>

text \<open>The calls through \<open>devsw\<close>. The device's \<open>int n\<close> is the caller's \<open>uint n\<close>.\<close>

definition dev_of :: "inode \<Rightarrow> 'x fs_state_scheme \<Rightarrow> device option" where
  "dev_of i s = (if sint (i_major i) < 0 \<or> sint (i_major i) \<ge> int NDEV then None else devsw s (unat (i_major i)))"

definition dev_read :: "device \<Rightarrow> nat \<Rightarrow> uint \<Rightarrow> ('x cons_state_scheme, int \<times> uchar list) km" where
  "dev_read d ip n = (case d of ConsoleDev \<Rightarrow> consoleread ip (nat (sint n)))"

definition dev_write :: "device \<Rightarrow> nat \<Rightarrow> uchar list \<Rightarrow> ('x cons_state_scheme, int) km" where
  "dev_write d ip bs = (case d of ConsoleDev \<Rightarrow> consolewrite ip bs)"

text \<open>The loop of \<open>readi\<close> with \<open>n\<close> bytes to go, and that of \<open>writei\<close> with the bytes to go.\<close>

function readi_loop :: "nat \<Rightarrow> nat \<Rightarrow> nat \<Rightarrow> ('x fs_state_scheme, uchar list) km" where
  "readi_loop ip off n =
     (if n = 0 then kret []
      else let m = min n (BSIZE - off mod BSIZE) in
        kbind (bmap ip (off div BSIZE)) (\<lambda>addr.
        kbind (get_inode i_dev ip) (\<lambda>dev.
        kbind (bread dev addr) (\<lambda>bp.
        kbind (get_buf b_data bp) (\<lambda>d.
        kseq (brelse bp)
        (kbind (readi_loop ip (off + m) (n - m)) (\<lambda>rest.
         kret (chunk (off mod BSIZE) m d @ rest))))))))"
  by pat_completeness auto
termination
  by (relation "measure (\<lambda>(_, _, n). n)") (auto simp: BSIZE_def)

function writei_loop :: "nat \<Rightarrow> nat \<Rightarrow> uchar list \<Rightarrow> ('x fs_state_scheme, unit) km" where
  "writei_loop ip off bs =
     (if bs = [] then kret ()
      else let m = min (length bs) (BSIZE - off mod BSIZE) in
        kbind (bmap ip (off div BSIZE)) (\<lambda>addr.
        kbind (get_inode i_dev ip) (\<lambda>dev.
        kbind (bread dev addr) (\<lambda>bp.
        kbind (get_buf b_data bp) (\<lambda>d.
        kseq (bput bp (patch (off mod BSIZE) (take m bs) d))
        (kseq (log_write bp)
        (kseq (brelse bp)
              (writei_loop ip (off + m) (drop m bs)))))))))"
  by pat_completeness auto
termination
  by (relation "measure (\<lambda>(_, _, bs). length bs)") (auto simp: BSIZE_def)

declare readi_loop.simps [simp del] writei_loop.simps [simp del]

definition readi :: "nat \<Rightarrow> uint \<Rightarrow> uint \<Rightarrow> ('x cons_state_scheme, int \<times> uchar list) km" where
  "readi ip off n =
     kbind (get_inode (\<lambda>i. i) ip) (\<lambda>i.
     if i_type i = T_DEV then
       kbind (kget (dev_of i)) (\<lambda>d. case d of None \<Rightarrow> kret (- 1, []) | Some dv \<Rightarrow> dev_read dv ip n)
     else if off > i_size i \<or> off + n < off then kret (- 1, [])
     else let n' = (if off + n > i_size i then i_size i - off else n) in
       kbind (readi_loop ip (unat off) (unat n')) (\<lambda>bs. kret (sint n', bs)))"

definition writei :: "nat \<Rightarrow> uint \<Rightarrow> uchar list \<Rightarrow> ('x cons_state_scheme, int) km" where
  "writei ip off bs =
     kbind (get_inode (\<lambda>i. i) ip) (\<lambda>i.
     if i_type i = T_DEV then
       kbind (kget (dev_of i)) (\<lambda>d. case d of None \<Rightarrow> kret (- 1) | Some dv \<Rightarrow> dev_write dv ip bs)
     else let n = (of_nat (length bs) :: uint) in
       if off > i_size i \<or> off + n < off then kret (- 1)
       else if unat (off + n) > MAXFILE * BSIZE then kret (- 1)
       else
         kseq (writei_loop ip (unat off) bs)
         (kseq (kbind (get_inode i_size ip) (\<lambda>sz.
                kwhen (n > 0 \<and> off + n > sz)
                  (kseq (set_inode ip (\<lambda>i. i\<lparr>i_size := off + n\<rparr>)) (iupdate ip))))
               (kret (sint n))))"

section \<open>Directories (fs.h, fs.c)\<close>

definition DIRSIZ :: nat where "DIRSIZ = 14"

definition sizeof_dirent :: nat where "sizeof_dirent = 2 + DIRSIZ"

definition de_inum :: "uchar list \<Rightarrow> nat" where
  "de_inum de = unat (get16 0 de)"

definition de_name :: "uchar list \<Rightarrow> uchar list" where
  "de_name de = chunk 2 DIRSIZ de"

text \<open>The byte a C string pointer points at, and \<open>strncmp\<close> on two strings.\<close>

definition chr :: "uchar list \<Rightarrow> uchar" where
  "chr s = (case s of [] \<Rightarrow> 0 | c # _ \<Rightarrow> c)"

primrec str_ncmp :: "nat \<Rightarrow> uchar list \<Rightarrow> uchar list \<Rightarrow> int" where
  "str_ncmp 0 p q = 0"
| "str_ncmp (Suc n) p q =
     (if chr p \<noteq> 0 \<and> chr p = chr q then str_ncmp n (tl p) (tl q) else uint (chr p) - uint (chr q))"

definition namecmp :: "uchar list \<Rightarrow> uchar list \<Rightarrow> int" where
  "namecmp s t = str_ncmp DIRSIZ s t"

text \<open>\<open>strncpy(de.name, name, DIRSIZ)\<close>: the name, padded with zeros.\<close>

definition name_field :: "uchar list \<Rightarrow> uchar list" where
  "name_field name = take DIRSIZ (takeWhile (\<lambda>c. c \<noteq> 0) name @ replicate DIRSIZ 0)"

text \<open>The offsets \<open>0, 16, ...\<close> below the size of the directory.\<close>

definition dir_offs :: "uint \<Rightarrow> nat list" where
  "dir_offs sz = map (\<lambda>k. k * sizeof_dirent) [0..<(unat sz + sizeof_dirent - 1) div sizeof_dirent]"

definition read_dirent :: "nat \<Rightarrow> nat \<Rightarrow> string \<Rightarrow> ('x cons_state_scheme, uchar list) km" where
  "read_dirent dp off msg =
     kbind (readi dp (of_nat off) (of_nat sizeof_dirent)) (\<lambda>(r, de).
     if r \<noteq> int sizeof_dirent then kpanic msg else kret de)"

definition dirlookup :: "nat \<Rightarrow> uchar list \<Rightarrow> ('x cons_state_scheme, (nat \<times> nat) option) km" where
  "dirlookup dp name =
     kbind (get_inode (\<lambda>i. i) dp) (\<lambda>i.
     if i_type i \<noteq> T_DIR then kpanic ''dirlookup not DIR''
     else kloop (\<lambda>off.
       kbind (read_dirent dp off ''dirlookup read'') (\<lambda>de.
       if de_inum de = 0 then kret None
       else if namecmp name (de_name de) = 0 then
         kbind (iget (i_dev i) (de_inum de)) (\<lambda>ip. kret (Some (ip, off)))
       else kret None)) (dir_offs (i_size i)))"

definition dirlink :: "nat \<Rightarrow> uchar list \<Rightarrow> nat \<Rightarrow> ('x cons_state_scheme, int) km" where
  "dirlink dp name inum =
     kbind (dirlookup dp name) (\<lambda>hit.
     case hit of
       Some (ip, _) \<Rightarrow> kseq (iput ip) (kret (- 1))
     | None \<Rightarrow>
         kbind (get_inode i_size dp) (\<lambda>sz.
         kbind (kloop (\<lambda>off.
             kbind (read_dirent dp off ''dirlink read'') (\<lambda>de.
             kret (if de_inum de = 0 then Some off else None))) (dir_offs sz)) (\<lambda>hole.
         let off = (case hole of Some off \<Rightarrow> off | None \<Rightarrow> length (dir_offs sz) * sizeof_dirent) in
         kbind (writei dp (of_nat off) (le_put 2 (of_nat inum :: ushort) @ name_field name)) (\<lambda>r.
         if r \<noteq> int sizeof_dirent then kpanic ''dirlink'' else kret 0))))"

section \<open>Paths (fs.c)\<close>

text \<open>\<open>skipelem\<close> returns the rest of the path and the element it copied into \<open>name\<close>; 47 is the slash.\<close>

definition skipelem :: "uchar list \<Rightarrow> (uchar list \<times> uchar list) option" where
  "skipelem pth =
     (let s = dropWhile (\<lambda>c. c = 47) pth in
      if s = [] then None
      else Some (dropWhile (\<lambda>c. c = 47) (dropWhile (\<lambda>c. c \<noteq> 47) s), take DIRSIZ (takeWhile (\<lambda>c. c \<noteq> 47) s)))"

lemma skipelem_shorter: "skipelem pth = Some (rest, name) \<Longrightarrow> length rest < length pth"
proof -
  assume h: "skipelem pth = Some (rest, name)"
  define s where "s = dropWhile (\<lambda>c. c = 47) pth"
  have ne: "s \<noteq> []" and r: "rest = dropWhile (\<lambda>c. c = 47) (dropWhile (\<lambda>c. c \<noteq> 47) s)"
    using h by (auto simp: skipelem_def s_def Let_def split: if_splits)
  have "hd s \<noteq> 47" using ne hd_dropWhile[of "\<lambda>c. c = 47" pth] by (simp add: s_def)
  with ne obtain a s' where "s = a # s'" "a \<noteq> 47" by (cases s) auto
  then have "length rest \<le> length s'"
    using r le_trans[OF length_dropWhile_le length_dropWhile_le] by simp
  then show ?thesis using \<open>s = a # s'\<close> length_dropWhile_le[of "\<lambda>c. c = 47" pth] by (simp add: s_def)
qed

text \<open>The loop of \<open>namex\<close>; with \<open>nameiparent\<close> the last element is returned as well.\<close>

function namex_loop :: "bool \<Rightarrow> uchar list \<Rightarrow> nat \<Rightarrow> ('x cons_state_scheme, (nat \<times> uchar list) option) km" where
  "namex_loop parent pth ip =
     (case skipelem pth of
        None \<Rightarrow> if parent then kseq (iput ip) (kret None) else kret (Some (ip, []))
      | Some (rest, name) \<Rightarrow>
          kseq (ilock (Some ip))
          (kbind (get_inode i_type ip) (\<lambda>t.
           if t \<noteq> T_DIR then kseq (iunlockput (Some ip)) (kret None)
           else if parent \<and> rest = [] then kseq (iunlock (Some ip)) (kret (Some (ip, name)))
           else kbind (dirlookup ip name) (\<lambda>next.
             case next of
               None \<Rightarrow> kseq (iunlockput (Some ip)) (kret None)
             | Some (nx, _) \<Rightarrow> kseq (iunlockput (Some ip)) (namex_loop parent rest nx)))))"
  by pat_completeness auto
termination
  by (relation "measure (\<lambda>(_, pth, _). length pth)") (auto dest: skipelem_shorter)

declare namex_loop.simps [simp del]

definition namex :: "uchar list \<Rightarrow> bool \<Rightarrow> ('x cons_state_scheme, (nat \<times> uchar list) option) km" where
  "namex pth parent =
     kbind (if chr pth = 47 then iget ROOTDEV ROOTINO
            else with_cur (\<lambda>me. kbind (get_proc p_cwd me) (\<lambda>cwd.
                 case cwd of None \<Rightarrow> kfault ''idup'' | Some d \<Rightarrow> idup d))) (\<lambda>ip.
     namex_loop parent pth ip)"

definition namei :: "uchar list \<Rightarrow> ('x cons_state_scheme, nat option) km" where
  "namei pth = kbind (namex pth False) (\<lambda>r. kret (map_option fst r))"

definition nameiparent :: "uchar list \<Rightarrow> ('x cons_state_scheme, (nat \<times> uchar list) option) km" where
  "nameiparent pth = namex pth True"

end
