(* ===== verification/File.thy ===== *)
theory File
  imports Dir
begin

text \<open>
  \<^verbatim>\<open>file.c\<close> and \<^verbatim>\<open>pipe.c\<close>: open files and pipes. A \<open>struct file *\<close> is an index into \<open>ftable\<close>. A pipe lives
  in the page \<open>kalloc\<close> returned; its fields are the record \<open>pipes a\<close> of the page address \<open>a\<close>, and its
  lock is \<open>PipeLock a\<close>. Bytes move between the kernel and a caller's buffer as lists.
\<close>

section \<open>State (file.h, file.c, pipe.c)\<close>

definition NFILE :: nat where "NFILE = 100"
definition NOFILE :: nat where "NOFILE = 16"
definition PIPESIZE :: nat where "PIPESIZE = 512"

datatype ftype = FD_NONE | FD_PIPE | FD_INODE

record kfile =
  f_type :: ftype
  f_ref :: int
  f_readable :: bool
  f_writable :: bool
  f_pipe :: addr_t
  f_ip :: "nat option"
  f_off :: uint

record pipe =
  pi_data :: "nat \<Rightarrow> uchar"
  pi_nread :: uint
  pi_nwrite :: uint
  pi_readopen :: bool
  pi_writeopen :: bool

record file_state = cons_state +
  ftable :: "nat \<Rightarrow> kfile"
  pipes :: "addr_t \<Rightarrow> pipe"

definition get_file :: "(kfile \<Rightarrow> 'a) \<Rightarrow> nat \<Rightarrow> ('x file_state_scheme, 'a) km" where
  "get_file g f = kget (\<lambda>s. g (ftable s f))"

definition set_file :: "nat \<Rightarrow> (kfile \<Rightarrow> kfile) \<Rightarrow> ('x file_state_scheme, unit) km" where
  "set_file f g = kmod (\<lambda>s. s\<lparr>ftable := (ftable s)(f := g (ftable s f))\<rparr>)"

definition get_pipe :: "(pipe \<Rightarrow> 'a) \<Rightarrow> addr_t \<Rightarrow> ('x file_state_scheme, 'a) km" where
  "get_pipe g p = kget (\<lambda>s. g (pipes s p))"

definition set_pipe :: "addr_t \<Rightarrow> (pipe \<Rightarrow> pipe) \<Rightarrow> ('x file_state_scheme, unit) km" where
  "set_pipe p g = kmod (\<lambda>s. s\<lparr>pipes := (pipes s)(p := g (pipes s p))\<rparr>)"

section \<open>The file table (file.c)\<close>

definition fileinit :: "('x file_state_scheme, unit) km" where
  "fileinit = initlock FtableLock ''ftable''"

definition filealloc :: "('x file_state_scheme, nat option) km" where
  "filealloc =
     kseq (acquire FtableLock)
     (kbind (kget (\<lambda>s. find (\<lambda>f. f_ref (ftable s f) = 0) [0..<NFILE])) (\<lambda>found.
      case found of
        Some f \<Rightarrow> kseq (set_file f (\<lambda>q. q\<lparr>f_ref := 1\<rparr>)) (kseq (release FtableLock) (kret (Some f)))
      | None \<Rightarrow> kseq (release FtableLock) (kret None)))"

definition filedup :: "nat \<Rightarrow> ('x file_state_scheme, nat) km" where
  "filedup f =
     kseq (acquire FtableLock)
     (kbind (get_file f_ref f) (\<lambda>r.
      if r < 1 then kpanic ''filedup''
      else kseq (set_file f (\<lambda>q. q\<lparr>f_ref := f_ref q + 1\<rparr>))
           (kseq (release FtableLock) (kret f))))"

section \<open>Closing (pipe.c, file.c)\<close>

definition pipeclose :: "addr_t \<Rightarrow> bool \<Rightarrow> ('x file_state_scheme, unit) km" where
  "pipeclose p writable =
     kseq (acquire (PipeLock p))
     (kseq (if writable then kseq (set_pipe p (\<lambda>q. q\<lparr>pi_writeopen := False\<rparr>)) (wakeup (PipeReadChan p))
            else kseq (set_pipe p (\<lambda>q. q\<lparr>pi_readopen := False\<rparr>)) (wakeup (PipeWriteChan p)))
     (kbind (get_pipe (\<lambda>q. q) p) (\<lambda>q.
      if \<not> pi_readopen q \<and> \<not> pi_writeopen q then kseq (release (PipeLock p)) (kfree p)
      else release (PipeLock p))))"

definition fileclose :: "nat \<Rightarrow> ('x file_state_scheme, unit) km" where
  "fileclose f =
     kseq (acquire FtableLock)
     (kbind (get_file f_ref f) (\<lambda>r.
      if r < 1 then kpanic ''fileclose''
      else
        kseq (set_file f (\<lambda>q. q\<lparr>f_ref := f_ref q - 1\<rparr>))
        (if r - 1 > 0 then release FtableLock
         else
           kbind (get_file (\<lambda>q. q) f) (\<lambda>ff.
           kseq (set_file f (\<lambda>q. q\<lparr>f_ref := 0, f_type := FD_NONE\<rparr>))
           (kseq (release FtableLock)
           (case f_type ff of
              FD_PIPE \<Rightarrow> pipeclose (f_pipe ff) (f_writable ff)
            | FD_INODE \<Rightarrow>
                kseq begin_op
                (kseq (case f_ip ff of None \<Rightarrow> kfault ''iput'' | Some ip \<Rightarrow> iput ip)
                      end_op)
            | FD_NONE \<Rightarrow> kret ()))))))"

section \<open>Pipes (pipe.c)\<close>

text \<open>The exit through the label \<open>bad\<close>, which closes the files that were allocated.\<close>

definition pipealloc_bad :: "addr_t \<Rightarrow> nat option \<Rightarrow> nat option \<Rightarrow> ('x file_state_scheme, (nat \<times> nat) option) km" where
  "pipealloc_bad p f0 f1 =
     kseq (kwhen (p \<noteq> 0) (kfree p))
     (kseq (case f0 of None \<Rightarrow> kret () | Some f \<Rightarrow> fileclose f)
     (kseq (case f1 of None \<Rightarrow> kret () | Some f \<Rightarrow> fileclose f)
           (kret None)))"

definition pipealloc :: "('x file_state_scheme, (nat \<times> nat) option) km" where
  "pipealloc =
     kbind filealloc (\<lambda>f0o. case f0o of None \<Rightarrow> pipealloc_bad 0 None None
     | Some f0 \<Rightarrow>
     kbind filealloc (\<lambda>f1o. case f1o of None \<Rightarrow> pipealloc_bad 0 (Some f0) None
     | Some f1 \<Rightarrow>
     kbind kalloc (\<lambda>p.
     if p = 0 then pipealloc_bad 0 (Some f0) (Some f1)
     else
       kseq (set_pipe p (\<lambda>q. q\<lparr>pi_readopen := True, pi_writeopen := True, pi_nwrite := 0, pi_nread := 0\<rparr>))
       (kseq (initlock (PipeLock p) ''pipe'')
       (kseq (set_file f0 (\<lambda>q. q\<lparr>f_type := FD_PIPE, f_readable := True, f_writable := False, f_pipe := p\<rparr>))
       (kseq (set_file f1 (\<lambda>q. q\<lparr>f_type := FD_PIPE, f_readable := False, f_writable := True, f_pipe := p\<rparr>))
             (kret (Some (f0, f1)))))))))"

text \<open>
  The loop of \<open>pipewrite\<close> with the bytes still to write: whether all were written. A writer that had to
  sleep resumes with \<open>pipewrite_return\<close>.
\<close>

definition pipe_put :: "uchar \<Rightarrow> pipe \<Rightarrow> pipe" where
  "pipe_put b q = q\<lparr>pi_data := (pi_data q)(unat (pi_nwrite q) mod PIPESIZE := b), pi_nwrite := pi_nwrite q + 1\<rparr>"

primrec pipewrite_loop :: "addr_t \<Rightarrow> uchar list \<Rightarrow> ('x file_state_scheme, bool) km" where
  "pipewrite_loop p [] = kret True"
| "pipewrite_loop p (b # bs) =
     kbind (get_pipe (\<lambda>q. q) p) (\<lambda>q.
     if pi_nwrite q = pi_nread q + of_nat PIPESIZE then
       (if \<not> pi_readopen q then kret False
        else with_cur (\<lambda>me. kbind (get_proc p_killed me) (\<lambda>killed.
          if killed then kret False
          else kseq (wakeup (PipeReadChan p)) (sleep (PipeWriteChan p) (Some (PipeLock p))))))
     else kseq (set_pipe p (pipe_put b)) (pipewrite_loop p bs))"

definition pipewrite_end :: "addr_t \<Rightarrow> nat \<Rightarrow> bool \<Rightarrow> ('x file_state_scheme, int) km" where
  "pipewrite_end p n ok =
     (if ok then kseq (wakeup (PipeReadChan p)) (kseq (release (PipeLock p)) (kret (int n)))
      else kseq (release (PipeLock p)) (kret (- 1)))"

definition pipewrite :: "addr_t \<Rightarrow> uchar list \<Rightarrow> ('x file_state_scheme, int) km" where
  "pipewrite p bs =
     kseq (acquire (PipeLock p)) (kbind (pipewrite_loop p bs) (pipewrite_end p (length bs)))"

definition pipewrite_return :: "addr_t \<Rightarrow> nat \<Rightarrow> uchar list \<Rightarrow> ('x file_state_scheme, int) km" where
  "pipewrite_return p n bs =
     kseq (sleep_return (PipeLock p)) (kbind (pipewrite_loop p bs) (pipewrite_end p n))"

text \<open>
  The wait of \<open>piperead\<close> for a byte or for the end of the pipe: whether it may go on. A reader that had
  to sleep resumes with \<open>piperead_return\<close>.
\<close>

definition piperead_wait :: "addr_t \<Rightarrow> ('x file_state_scheme, bool) km" where
  "piperead_wait p =
     kbind (get_pipe (\<lambda>q. q) p) (\<lambda>q.
     if pi_nread q = pi_nwrite q \<and> pi_writeopen q then
       with_cur (\<lambda>me. kbind (get_proc p_killed me) (\<lambda>killed.
       if killed then kret False else sleep (PipeReadChan p) (Some (PipeLock p))))
     else kret True)"

primrec piperead_copy :: "addr_t \<Rightarrow> nat \<Rightarrow> ('x file_state_scheme, uchar list) km" where
  "piperead_copy p 0 = kret []"
| "piperead_copy p (Suc n) =
     kbind (get_pipe (\<lambda>q. q) p) (\<lambda>q.
     if pi_nread q = pi_nwrite q then kret []
     else kseq (set_pipe p (\<lambda>q. q\<lparr>pi_nread := pi_nread q + 1\<rparr>))
          (kbind (piperead_copy p n) (\<lambda>bs. kret (pi_data q (unat (pi_nread q) mod PIPESIZE) # bs))))"

definition piperead_end :: "addr_t \<Rightarrow> nat \<Rightarrow> bool \<Rightarrow> ('x file_state_scheme, int \<times> uchar list) km" where
  "piperead_end p n ok =
     (if ok then
        kbind (piperead_copy p n) (\<lambda>bs.
        kseq (wakeup (PipeWriteChan p)) (kseq (release (PipeLock p)) (kret (int (length bs), bs))))
      else kseq (release (PipeLock p)) (kret (- 1, [])))"

definition piperead :: "addr_t \<Rightarrow> nat \<Rightarrow> ('x file_state_scheme, int \<times> uchar list) km" where
  "piperead p n = kseq (acquire (PipeLock p)) (kbind (piperead_wait p) (piperead_end p n))"

definition piperead_return :: "addr_t \<Rightarrow> nat \<Rightarrow> ('x file_state_scheme, int \<times> uchar list) km" where
  "piperead_return p n = kseq (sleep_return (PipeLock p)) (kbind (piperead_wait p) (piperead_end p n))"

section \<open>Reading and writing files (file.c)\<close>

definition filestat :: "nat \<Rightarrow> ('x file_state_scheme, stat option) km" where
  "filestat f =
     kbind (get_file (\<lambda>q. q) f) (\<lambda>ff.
     if f_type ff = FD_INODE then
       kseq (ilock (f_ip ff))
       (case f_ip ff of None \<Rightarrow> kfault ''stati''
        | Some ip \<Rightarrow> kbind (stati ip) (\<lambda>st. kseq (iunlock (Some ip)) (kret (Some st))))
     else kret None)"

definition move_off :: "nat \<Rightarrow> int \<Rightarrow> ('x file_state_scheme, unit) km" where
  "move_off f r = kwhen (r > 0) (set_file f (\<lambda>q. q\<lparr>f_off := f_off q + of_int r\<rparr>))"

definition fileread :: "nat \<Rightarrow> nat \<Rightarrow> ('x file_state_scheme, int \<times> uchar list) km" where
  "fileread f n =
     kbind (get_file (\<lambda>q. q) f) (\<lambda>ff.
     if \<not> f_readable ff then kret (- 1, [])
     else case f_type ff of
       FD_PIPE \<Rightarrow> piperead (f_pipe ff) n
     | FD_INODE \<Rightarrow>
         kseq (ilock (f_ip ff))
         (case f_ip ff of None \<Rightarrow> kfault ''readi''
          | Some ip \<Rightarrow>
              kbind (readi ip (f_off ff) (of_nat n)) (\<lambda>(r, bs).
              kseq (move_off f r)
              (kseq (iunlock (Some ip)) (kret (r, bs)))))
     | FD_NONE \<Rightarrow> kpanic ''fileread'')"

definition write_max :: nat where
  "write_max = ((LOGSIZE - 1 - 1 - 2) div 2) * 512"

text \<open>The loop of \<open>filewrite\<close>, one transaction per turn: whether all bytes were written.\<close>

function filewrite_loop :: "nat \<Rightarrow> uchar list \<Rightarrow> ('x file_state_scheme, bool) km" where
  "filewrite_loop f bs =
     (if bs = [] then kret True
      else let n1 = min (length bs) write_max in
        kseq begin_op
        (kbind (get_file (\<lambda>q. q) f) (\<lambda>ff.
         kseq (ilock (f_ip ff))
         (case f_ip ff of None \<Rightarrow> kfault ''writei''
          | Some ip \<Rightarrow>
              kbind (writei ip (f_off ff) (take n1 bs)) (\<lambda>r.
              kseq (move_off f r)
              (kseq (iunlock (Some ip))
              (kseq end_op
              (if r < 0 then kret False
               else if r \<noteq> int n1 then kpanic ''short filewrite''
               else filewrite_loop f (drop n1 bs)))))))))"
  by pat_completeness auto
termination
  by (relation "measure (\<lambda>(_, bs). length bs)") (auto simp: write_max_def LOGSIZE_def MAXOPBLOCKS_def)

declare filewrite_loop.simps [simp del]

definition filewrite :: "nat \<Rightarrow> uchar list \<Rightarrow> ('x file_state_scheme, int) km" where
  "filewrite f bs =
     kbind (get_file (\<lambda>q. q) f) (\<lambda>ff.
     if \<not> f_writable ff then kret (- 1)
     else case f_type ff of
       FD_PIPE \<Rightarrow> pipewrite (f_pipe ff) bs
     | FD_INODE \<Rightarrow> kbind (filewrite_loop f bs) (\<lambda>ok. kret (if ok then int (length bs) else - 1))
     | FD_NONE \<Rightarrow> kpanic ''filewrite'')"

end
