(* ===== verification/Vm.thy ===== *)
theory Vm
  imports Proctab
begin

text \<open>
  \<^verbatim>\<open>vm.c\<close>: four-level page tables. A table is a page of 512 eight-byte entries in kernel memory;
  \<open>walkpgdir\<close> follows, and on request creates, the tables for an address. \<open>pwalk\<close> is the same
  walk as a function of the memory alone, as the hardware makes it.

  Loops that step an address by a page are loops over page counts: every size here is below
  \<open>KERNBASE\<close>, so the address does not wrap, except in \<open>mappages\<close>, whose loop ends on equality
  and whose count is taken with wrap-around.
\<close>

section \<open>Entries and indices (mmu.h)\<close>

definition PTE_P :: addr_t where "PTE_P = 0x001"
definition PTE_W :: addr_t where "PTE_W = 0x002"
definition PTE_U :: addr_t where "PTE_U = 0x004"
definition PTE_PWT :: addr_t where "PTE_PWT = 0x008"
definition PTE_PCD :: addr_t where "PTE_PCD = 0x010"
definition PTE_PS :: addr_t where "PTE_PS = 0x080"
definition NPDENTRIES :: nat where "NPDENTRIES = 512"

definition PTE_ADDR :: "addr_t \<Rightarrow> addr_t" where
  "PTE_ADDR pte = pte AND NOT 0xFFF"

definition PTE_FLAGS :: "addr_t \<Rightarrow> addr_t" where
  "PTE_FLAGS pte = pte AND 0xFFF"

definition PMX :: "addr_t \<Rightarrow> nat" where
  "PMX va = unat (drop_bit 39 va AND 0x1FF)"

definition PDPX :: "addr_t \<Rightarrow> nat" where
  "PDPX va = unat (drop_bit 30 va AND 0x1FF)"

definition PDX :: "addr_t \<Rightarrow> nat" where
  "PDX va = unat (drop_bit 21 va AND 0x1FF)"

definition PTX :: "addr_t \<Rightarrow> nat" where
  "PTX va = unat (drop_bit 12 va AND 0x1FF)"

text \<open>\<open>&table[i]\<close>, \<open>table[i]\<close> and an assignment to it.\<close>

definition entry :: "addr_t \<Rightarrow> nat \<Rightarrow> addr_t" where
  "entry tab i = tab + of_nat (8 * i)"

definition pte_get :: "addr_t \<Rightarrow> ('x kmem_state_scheme, addr_t) km" where
  "pte_get p = kget (\<lambda>s. load64 (mem s) p)"

definition pte_set :: "addr_t \<Rightarrow> addr_t \<Rightarrow> ('x kmem_state_scheme, unit) km" where
  "pte_set p w = kmod (\<lambda>s. s\<lparr>mem := store64 (mem s) p w\<rparr>)"

definition zero_page :: "addr_t \<Rightarrow> ('x kmem_state_scheme, unit) km" where
  "zero_page v = kmod (\<lambda>s. s\<lparr>mem := memset (mem s) v 0 4096\<rparr>)"

definition pages_between :: "addr_t \<Rightarrow> addr_t \<Rightarrow> nat" where
  "pages_between a b = (unat b - unat a + 4095) div 4096"

section \<open>Operations (vm.c)\<close>

definition setupkvm :: "('x proc_state_scheme, addr_t) km" where
  "setupkvm =
     kbind kalloc (\<lambda>pml4.
     kseq (zero_page pml4)
     (kbind (kget kpdpt) (\<lambda>k.
      kseq (pte_set (entry pml4 256) (V2P k OR PTE_P OR PTE_W))
           (kret pml4))))"

definition kvmalloc :: "('x proc_state_scheme, unit) km" where
  "kvmalloc =
     kbind kalloc (\<lambda>pml4.
     kseq (kmod (\<lambda>s. s\<lparr>kpml4 := pml4\<rparr>))
     (kseq (zero_page pml4)
     (kbind kalloc (\<lambda>pdpt.
      kseq (kmod (\<lambda>s. s\<lparr>kpdpt := pdpt\<rparr>))
     (kseq (zero_page pdpt)
     (kseq (pte_set (entry pml4 (PMX KERNBASE)) (V2P pdpt OR PTE_P OR PTE_W))
     (kseq (pte_set (entry pdpt 0) (0 OR PTE_PS OR PTE_P OR PTE_W))
     (kseq (pte_set (entry pdpt 3) (0xC0000000 OR PTE_PS OR PTE_P OR PTE_W OR PTE_PWT OR PTE_PCD))
           switchkvm))))))))"

text \<open>One level of \<open>walkpgdir\<close>: the table an entry points to, made if absent and \<open>alloc\<close>.\<close>

definition walk_level :: "addr_t \<Rightarrow> bool \<Rightarrow> ('x kmem_state_scheme, addr_t option) km" where
  "walk_level e alloc =
     kbind (pte_get e) (\<lambda>w.
     if w AND PTE_P \<noteq> 0 then kret (Some (P2V (PTE_ADDR w)))
     else if \<not> alloc then kret None
     else kbind kalloc (\<lambda>tab.
       if tab = 0 then kret None
       else kseq (zero_page tab)
            (kseq (pte_set e (V2P tab OR PTE_P OR PTE_W OR PTE_U))
                  (kret (Some tab)))))"

definition kopt :: "('s, 'a option) km \<Rightarrow> ('a \<Rightarrow> ('s, 'b option) km) \<Rightarrow> ('s, 'b option) km" where
  "kopt m f = kbind m (\<lambda>r. case r of None \<Rightarrow> kret None | Some x \<Rightarrow> f x)"

definition walkpgdir :: "addr_t \<Rightarrow> addr_t \<Rightarrow> bool \<Rightarrow> ('x kmem_state_scheme, addr_t option) km" where
  "walkpgdir pml4 va alloc =
     kopt (walk_level (entry pml4 (PMX va)) alloc) (\<lambda>pdp.
     kopt (walk_level (entry pdp (PDPX va)) alloc) (\<lambda>pd.
     kopt (walk_level (entry pd (PDX va)) alloc) (\<lambda>pgtab.
     kret (Some (entry pgtab (PTX va))))))"

definition map_page :: "addr_t \<Rightarrow> addr_t \<Rightarrow> addr_t \<Rightarrow> addr_t \<Rightarrow> ('x kmem_state_scheme, int option) km" where
  "map_page pgdir a pa perm =
     kbind (walkpgdir pgdir a True) (\<lambda>r.
     case r of None \<Rightarrow> kret (Some (- 1))
     | Some pte \<Rightarrow>
         kbind (pte_get pte) (\<lambda>w.
         if w AND PTE_P \<noteq> 0 then kpanic ''remap''
         else kseq (pte_set pte (pa OR perm OR PTE_P)) (kret None)))"

definition mappages :: "addr_t \<Rightarrow> addr_t \<Rightarrow> addr_t \<Rightarrow> addr_t \<Rightarrow> addr_t \<Rightarrow> ('x kmem_state_scheme, int) km" where
  "mappages pgdir va sz pa perm =
     (let a = PGROUNDDOWN va; last = PGROUNDDOWN (va + sz - 1);
          k = unat (last - a) div PGSIZE in
      kbind (kloop (\<lambda>i. map_page pgdir (a + of_nat (i * PGSIZE)) (pa + of_nat (i * PGSIZE)) perm) [0..<k + 1]) (\<lambda>r.
      kret (case r of None \<Rightarrow> 0 | Some e \<Rightarrow> e)))"

definition inituvm :: "addr_t \<Rightarrow> uchar list \<Rightarrow> ('x kmem_state_scheme, unit) km" where
  "inituvm pgdir init =
     kseq (kwhen (length init \<ge> PGSIZE) (kpanic ''inituvm: more than a page''))
     (kbind kalloc (\<lambda>m.
      kseq (zero_page m)
     (kseq (kbind (mappages pgdir (of_nat PGSIZE) (of_nat PGSIZE) (V2P m) (PTE_W OR PTE_U)) (\<lambda>_. kret ()))
           (kmod (\<lambda>s. s\<lparr>mem := store_bytes (mem s) m init\<rparr>)))))"

definition dealloc_page :: "addr_t \<Rightarrow> addr_t \<Rightarrow> ('x kmem_state_scheme, unit) km" where
  "dealloc_page pgdir a =
     kbind (walkpgdir pgdir a False) (\<lambda>r.
     case r of None \<Rightarrow> kret ()
     | Some pte \<Rightarrow>
         kbind (pte_get pte) (\<lambda>w.
         kwhen (w AND PTE_P \<noteq> 0)
           (kseq (kwhen (PTE_ADDR w = 0) (kpanic ''kfree''))
           (kseq (kfree (P2V (PTE_ADDR w)))
                 (pte_set pte 0)))))"

definition deallocuvm :: "addr_t \<Rightarrow> uint64 \<Rightarrow> uint64 \<Rightarrow> ('x kmem_state_scheme, uint64) km" where
  "deallocuvm pgdir oldsz newsz =
     (if newsz \<ge> oldsz then kret oldsz
      else let a = PGROUNDUP newsz in
        kseq (kfor (\<lambda>i. dealloc_page pgdir (a + of_nat (i * PGSIZE))) [0..<pages_between a oldsz])
             (kret newsz))"

definition alloc_page :: "addr_t \<Rightarrow> addr_t \<Rightarrow> uint64 \<Rightarrow> uint64 \<Rightarrow> ('x kmem_state_scheme, unit option) km" where
  "alloc_page pgdir a oldsz newsz =
     kbind kalloc (\<lambda>m.
     if m = 0 then kbind (deallocuvm pgdir newsz oldsz) (\<lambda>_. kret (Some ()))
     else kseq (zero_page m)
       (kbind (mappages pgdir a (of_nat PGSIZE) (V2P m) (PTE_W OR PTE_U)) (\<lambda>r.
        if r < 0 then kbind (deallocuvm pgdir newsz oldsz) (\<lambda>_. kseq (kfree m) (kret (Some ())))
        else kret None)))"

definition allocuvm :: "addr_t \<Rightarrow> uint64 \<Rightarrow> uint64 \<Rightarrow> ('x kmem_state_scheme, uint64) km" where
  "allocuvm pgdir oldsz newsz =
     (if newsz \<ge> KERNBASE then kret 0
      else if newsz < oldsz then kret oldsz
      else let a = PGROUNDUP oldsz in
        kbind (kloop (\<lambda>i. alloc_page pgdir (a + of_nat (i * PGSIZE)) oldsz newsz) [0..<pages_between a newsz]) (\<lambda>r.
        kret (case r of None \<Rightarrow> newsz | Some _ \<Rightarrow> 0)))"

text \<open>The four nested loops of \<open>freevm\<close>, innermost first.\<close>

definition when_present :: "addr_t \<Rightarrow> (addr_t \<Rightarrow> ('x kmem_state_scheme, unit) km) \<Rightarrow> ('x kmem_state_scheme, unit) km" where
  "when_present e f = kbind (pte_get e) (\<lambda>w. kwhen (w AND PTE_P \<noteq> 0) (f (P2V (PTE_ADDR w))))"

definition free_pt :: "addr_t \<Rightarrow> ('x kmem_state_scheme, unit) km" where
  "free_pt pt = kseq (kfor (\<lambda>l. when_present (entry pt l) kfree) [0..<NPDENTRIES]) (kfree pt)"

definition free_pd :: "addr_t \<Rightarrow> ('x kmem_state_scheme, unit) km" where
  "free_pd pd = kseq (kfor (\<lambda>k. when_present (entry pd k) free_pt) [0..<NPDENTRIES]) (kfree pd)"

definition free_pdp :: "addr_t \<Rightarrow> ('x kmem_state_scheme, unit) km" where
  "free_pdp pdp = kseq (kfor (\<lambda>j. when_present (entry pdp j) free_pd) [0..<NPDENTRIES]) (kfree pdp)"

definition freevm :: "addr_t \<Rightarrow> ('x kmem_state_scheme, unit) km" where
  "freevm pml4 =
     kseq (kwhen (pml4 = 0) (kpanic ''freevm: no pgdir''))
     (kseq (kfor (\<lambda>i. when_present (entry pml4 i) free_pdp) [0..<NPDENTRIES div 2]) (kfree pml4))"

definition clearpteu :: "addr_t \<Rightarrow> addr_t \<Rightarrow> ('x kmem_state_scheme, unit) km" where
  "clearpteu pgdir uva =
     kbind (walkpgdir pgdir uva False) (\<lambda>r.
     case r of None \<Rightarrow> kpanic ''clearpteu''
     | Some pte \<Rightarrow> kbind (pte_get pte) (\<lambda>w. pte_set pte (w AND NOT PTE_U)))"

definition copy_page :: "addr_t \<Rightarrow> addr_t \<Rightarrow> addr_t \<Rightarrow> ('x kmem_state_scheme, unit option) km" where
  "copy_page pgdir d i =
     kbind (walkpgdir pgdir i False) (\<lambda>r.
     case r of None \<Rightarrow> kpanic ''copyuvm: pte should exist''
     | Some pte \<Rightarrow>
         kbind (pte_get pte) (\<lambda>w.
         if w AND PTE_P = 0 then kpanic ''copyuvm: page not present''
         else kbind kalloc (\<lambda>m.
           if m = 0 then kret (Some ())
           else kseq (kmod (\<lambda>s. s\<lparr>mem := store_bytes (mem s) m (load_bytes (mem s) (P2V (PTE_ADDR w)) PGSIZE)\<rparr>))
             (kbind (mappages d i (of_nat PGSIZE) (V2P m) (PTE_FLAGS w)) (\<lambda>r.
              kret (if r < 0 then Some () else None))))))"

definition copyuvm :: "addr_t \<Rightarrow> uint \<Rightarrow> ('x proc_state_scheme, addr_t) km" where
  "copyuvm pgdir sz =
     kbind setupkvm (\<lambda>d.
     if d = 0 then kret 0
     else kbind (kloop (\<lambda>i. copy_page pgdir d (of_nat ((i + 1) * PGSIZE))) [0..<pages_between (of_nat PGSIZE) (ucast sz)]) (\<lambda>r.
       case r of None \<Rightarrow> kret d
       | Some _ \<Rightarrow> kseq (freevm d) (kret 0)))"

text \<open>\<open>uva2ka\<close> reads through the pointer \<open>walkpgdir\<close> returned, also when it is null.\<close>

definition uva2ka :: "addr_t \<Rightarrow> addr_t \<Rightarrow> ('x kmem_state_scheme, addr_t) km" where
  "uva2ka pgdir uva =
     kbind (walkpgdir pgdir uva False) (\<lambda>r.
     case r of None \<Rightarrow> kfault ''uva2ka''
     | Some pte \<Rightarrow>
         kbind (pte_get pte) (\<lambda>w.
         if w AND PTE_P = 0 then kret 0
         else if w AND PTE_U = 0 then kret 0
         else kret (P2V (PTE_ADDR w))))"

lemma page_offset: "unat (va - PGROUNDDOWN va) = unat va mod 4096"
proof -
  have "unat (PGROUNDDOWN va) \<le> unat va" by (simp add: unat_PGROUNDDOWN)
  then have "unat (va - PGROUNDDOWN va) = unat va - unat va div 4096 * 4096"
    by (simp add: unat_sub word_le_nat_alt unat_PGROUNDDOWN)
  then show ?thesis by (simp add: minus_div_mult_eq_mod)
qed

lemma page_offset_less: "unat (va - PGROUNDDOWN va) < PGSIZE"
  by (simp add: page_offset PGSIZE_def)

function copyout :: "addr_t \<Rightarrow> addr_t \<Rightarrow> uchar list \<Rightarrow> ('x kmem_state_scheme, int) km" where
  "copyout pgdir va buf =
     (if buf = [] then kret 0
      else let va0 = PGROUNDDOWN va; n = min (PGSIZE - unat (va - va0)) (length buf) in
        kbind (uva2ka pgdir va0) (\<lambda>pa0.
        if pa0 = 0 then kret (- 1)
        else kseq (kmod (\<lambda>s. s\<lparr>mem := store_bytes (mem s) (pa0 + (va - va0)) (take n buf)\<rparr>))
                  (copyout pgdir (va0 + of_nat PGSIZE) (drop n buf))))"
  by pat_completeness auto

termination
proof (relation "measure (\<lambda>(_, _, buf). length buf)")
  fix va va0 :: addr_t and buf :: "uchar list" and n :: nat and x y s
  assume "buf \<noteq> []" and "va0 = PGROUNDDOWN va" and "n = min (PGSIZE - unat (va - va0)) (length buf)"
  moreover have "unat (va - PGROUNDDOWN va) < PGSIZE"
    by (rule page_offset_less)
  ultimately show "((x, y, drop n buf), x, va, buf) \<in> measure (\<lambda>(_, _, buf). length buf)"
    by auto
qed simp

declare copyout.simps [simp del]

section \<open>The tree of tables\<close>

abbreviation aligned :: "addr_t \<Rightarrow> bool" where
  "aligned v \<equiv> unat v mod 4096 = 0"

lemma entry_other:
  "only_page v m m' \<Longrightarrow> aligned v \<Longrightarrow> aligned a \<Longrightarrow> a \<noteq> v \<Longrightarrow> i < 512 \<Longrightarrow> load64 m' (entry a i) = load64 m (entry a i)"
  unfolding entry_def by (rule only_page_load64) auto

lemma entry_store:
  assumes "aligned t" and "aligned u" and "i < 512" and "j < 512"
  shows "load64 (store64 m (entry t i) w) (entry u j) = (if u = t \<and> j = i then w else load64 m (entry u j))"
proof (cases "u = t")
  case True
  show ?thesis
  proof (cases "j = i")
    case True
    then show ?thesis using \<open>u = t\<close> by simp
  next
    case False
    then have "8 * i + 8 \<le> 8 * j \<or> 8 * j + 8 \<le> 8 * i" by linarith
    then show ?thesis
      using False \<open>u = t\<close> assms page_load64_other[of "8 * i" "8 * j" m t w] by (simp add: entry_def)
  qed
next
  case False
  have "only_page t m (store64 m (entry t i) w)"
    unfolding entry_def by (rule only_page_store64) (use assms in simp)
  then show ?thesis using False assms by (simp add: entry_other)
qed

lemma entry_zeroed:
  assumes "i < 512"
  shows "load64 (memset m v 0 4096) (entry v i) = 0"
  using assms load_store_bytes_chunk[of "8 * i" 8 "replicate 4096 0" m v]
  by (simp add: memset_fills load64_def entry_def chunk_replicate)

lemma only_page_zeroed: "only_page v m (memset m v 0 4096)"
  by (auto simp: only_page_def store_bytes_def memset_fills)

text \<open>The table a path of indices leads to.\<close>

definition tab_next :: "memory \<Rightarrow> addr_t \<Rightarrow> nat \<Rightarrow> addr_t option" where
  "tab_next m tab i = (let w = load64 m (entry tab i) in if w AND PTE_P \<noteq> 0 then Some (P2V (PTE_ADDR w)) else None)"

primrec walk :: "memory \<Rightarrow> addr_t \<Rightarrow> nat list \<Rightarrow> addr_t option" where
  "walk m root [] = Some root"
| "walk m root (i # is) = (case tab_next m root i of None \<Rightarrow> None | Some t \<Rightarrow> walk m t is)"

lemma walk_append: "walk m root (p @ q) = (case walk m root p of None \<Rightarrow> None | Some t \<Rightarrow> walk m t q)"
  by (induction p arbitrary: root) (auto split: option.splits)

lemma walk_snoc: "walk m root (p @ [i]) = (case walk m root p of None \<Rightarrow> None | Some t \<Rightarrow> tab_next m t i)"
  by (simp add: walk_append split: option.splits)

text \<open>Paths in the user half of the address space.\<close>

definition user_path :: "nat list \<Rightarrow> bool" where
  "user_path p \<longleftrightarrow> length p \<le> 3 \<and> (\<forall>i\<in>set p. i < 512) \<and> (p \<noteq> [] \<longrightarrow> hd p < 256)"

lemma user_path_snocD: "user_path (p @ [i]) \<Longrightarrow> user_path p \<and> i < 512 \<and> length p \<le> 2"
  by (cases p) (auto simp: user_path_def)

definition tables :: "memory \<Rightarrow> addr_t \<Rightarrow> addr_t set" where
  "tables m root = {t. \<exists>p. user_path p \<and> walk m root p = Some t}"

definition pt_ok :: "memory \<Rightarrow> addr_t \<Rightarrow> bool" where
  "pt_ok m root \<longleftrightarrow> (\<forall>t\<in>tables m root. aligned t) \<and>
     (\<forall>p q t. user_path p \<longrightarrow> user_path q \<longrightarrow> walk m root p = Some t \<longrightarrow> walk m root q = Some t \<longrightarrow> p = q)"

text \<open>The page map: the leaf entry for a path and a last index, 0 where there is no table.\<close>

definition pmap :: "memory \<Rightarrow> addr_t \<Rightarrow> nat list \<Rightarrow> nat \<Rightarrow> addr_t" where
  "pmap m root p j = (case walk m root p of None \<Rightarrow> 0 | Some t \<Rightarrow> load64 m (entry t j))"

lemma tablesI: "user_path p \<Longrightarrow> walk m root p = Some t \<Longrightarrow> t \<in> tables m root"
  by (auto simp: tables_def)

text \<open>Linking a fresh, zeroed table into the tree adds its path and changes no mapping.\<close>

lemma link_walk:
  fixes m root n
  assumes ok: "pt_ok m root" and p: "user_path (p @ [i])" and t: "walk m root p = Some t" and none: "tab_next m t i = None"
    and n: "aligned n" "n \<notin> tables m root" and w: "w AND PTE_P \<noteq> 0" "P2V (PTE_ADDR w) = n"
  defines "m' \<equiv> store64 (memset m n 0 4096) (entry t i) w"
  shows "user_path q \<Longrightarrow> walk m' root q =
    (if q = p @ [i] then Some n else if take (Suc (length p)) q = p @ [i] then None else walk m root q)"
    and "u \<in> tables m root \<Longrightarrow> j < 512 \<Longrightarrow> load64 m' (entry u j) = (if u = t \<and> j = i then w else load64 m (entry u j))"
    and "j < 512 \<Longrightarrow> load64 m' (entry n j) = 0"
proof -
  have up: "user_path p" "i < 512" using user_path_snocD[OF p] by simp_all
  have tt: "t \<in> tables m root" by (rule tablesI[OF up(1) t])
  have al: "aligned u" if "u \<in> tables m root" for u using ok that by (simp add: pt_ok_def)
  have nt: "n \<noteq> t" using n(2) tt by auto
  show old: "load64 m' (entry u j) = (if u = t \<and> j = i then w else load64 m (entry u j))" if "u \<in> tables m root" "j < 512" for u j
  proof -
    have "u \<noteq> n" using n(2) that by auto
    then have "load64 (memset m n 0 4096) (entry u j) = load64 m (entry u j)"
      using entry_other[OF only_page_zeroed n(1) al[OF that(1)]] that(2) by simp
    then show ?thesis
      unfolding m'_def using entry_store[OF al[OF tt] al[OF that(1)] up(2) that(2)] by simp
  qed
  show new: "load64 m' (entry n j) = 0" if "j < 512" for j
    unfolding m'_def using entry_store[OF al[OF tt] n(1) up(2) that] nt entry_zeroed[OF that] by simp
  show "user_path q \<Longrightarrow> walk m' root q =
    (if q = p @ [i] then Some n else if take (Suc (length p)) q = p @ [i] then None else walk m root q)"
  proof (induction q rule: rev_induct)
    case Nil
    then show ?case by simp
  next
    case (snoc j q)
    note uq = user_path_snocD[OF snoc.prems]
    note IH = snoc.IH[OF conjunct1[OF uq]]
    show ?case
    proof (cases "take (Suc (length p)) q = p @ [i]")
      case True
      then have len: "length q \<ge> Suc (length p)" by (metis length_append_singleton length_take min.absorb_iff2 min.commute)
      then have "take (Suc (length p)) (q @ [j]) = p @ [i]" "q @ [j] \<noteq> p @ [i]" using True by auto
      moreover have "walk m' root (q @ [j]) = None"
        using IH True new uq by (auto simp: walk_snoc tab_next_def split: if_splits)
      ultimately show ?thesis by simp
    next
      case False
      then have w: "walk m' root q = walk m root q" using IH by auto
      have step: "take (Suc (length p)) (q @ [j]) = p @ [i] \<longleftrightarrow> q @ [j] = p @ [i]"
        using False by (cases "Suc (length p) \<le> length q") (auto simp: take_Cons')
      show ?thesis
      proof (cases "walk m root q")
        case None
        then have "q @ [j] \<noteq> p @ [i]" using t by auto
        then show ?thesis using None w step by (simp add: walk_snoc)
      next
        case (Some u)
        have tu: "u \<in> tables m root" using tablesI[OF conjunct1[OF uq] Some] .
        have "u = t \<longleftrightarrow> q = p" using ok Some t up(1) uq by (auto simp: pt_ok_def)
        then show ?thesis
          using Some w step old[OF tu] uq assms(7,8) by (auto simp: walk_snoc tab_next_def)
      qed
    qed
  qed
qed

lemma link_table:
  fixes m root n
  assumes ok: "pt_ok m root" and p: "user_path (p @ [i])" and t: "walk m root p = Some t" and none: "tab_next m t i = None"
    and n: "aligned n" "n \<notin> tables m root" and w: "w AND PTE_P \<noteq> 0" "P2V (PTE_ADDR w) = n"
  defines "m' \<equiv> store64 (memset m n 0 4096) (entry t i) w"
  shows "walk m' root (p @ [i]) = Some n" and "tables m' root = insert n (tables m root)" and "pt_ok m' root"
    and "user_path q \<Longrightarrow> length q = 3 \<Longrightarrow> j < 512 \<Longrightarrow> pmap m' root q j = pmap m root q j"
proof -
  note lw = link_walk[OF ok p t none n w, folded m'_def]
  show at: "walk m' root (p @ [i]) = Some n" using lw(1)[OF p] by simp
  have gone: "walk m root q = None" if "take (Suc (length p)) q = p @ [i]" for q
  proof -
    have "walk m root (take (Suc (length p)) q) = None" unfolding that using t none by (simp add: walk_snoc)
    then show ?thesis using walk_append[of m root "take (Suc (length p)) q" "drop (Suc (length p)) q"] by simp
  qed
  have val: "walk m' root q = Some u \<longleftrightarrow> q = p @ [i] \<and> u = n \<or> walk m root q = Some u" if "user_path q" for q u
    using lw(1)[OF that] gone[of q] by auto
  show tabs: "tables m' root = insert n (tables m root)"
    using p by (auto simp: tables_def val)
  show "pt_ok m' root"
    using ok n tablesI[of _ m root] unfolding pt_ok_def tabs by (auto simp: val)
  show "pmap m' root q j = pmap m root q j" if q: "user_path q" "length q = 3" "j < 512"
  proof (cases "walk m root q")
    case None
    then show ?thesis
      using val[OF q(1)] lw(3)[OF q(3)] by (auto simp: pmap_def split: option.split)
  next
    case (Some u)
    then have "walk m' root q = Some u" using val[OF q(1)] by simp
    moreover have "u = t \<Longrightarrow> q = p" using ok Some t q(1) user_path_snocD[OF p] by (auto simp: pt_ok_def)
    then have "u \<noteq> t" using user_path_snocD[OF p] q(2) by auto
    ultimately show ?thesis using Some lw(2)[OF tablesI[OF q(1) Some] q(3)] by (simp add: pmap_def)
  qed
qed

text \<open>Writing a leaf entry changes that mapping and nothing else.\<close>

lemma leaf_write:
  fixes m root w
  assumes ok: "pt_ok m root" and p: "user_path p" "length p = 3" and t: "walk m root p = Some t" and i: "i < 512"
  defines "m' \<equiv> store64 m (entry t i) w"
  shows "user_path q \<Longrightarrow> walk m' root q = walk m root q" and "tables m' root = tables m root" and "pt_ok m' root"
    and "user_path q \<Longrightarrow> j < 512 \<Longrightarrow> length q = 3 \<Longrightarrow> pmap m' root q j = (if q = p \<and> j = i then w else pmap m root q j)"
proof -
  have al: "aligned u" if "u \<in> tables m root" for u using ok that by (simp add: pt_ok_def)
  have tt: "t \<in> tables m root" by (rule tablesI[OF p(1) t])
  have rd: "load64 m' (entry u j) = (if u = t \<and> j = i then w else load64 m (entry u j))" if "u \<in> tables m root" "j < 512" for u j
    unfolding m'_def using entry_store[OF al[OF tt] al[OF that(1)] i that(2)] .
  have same: "u = t \<longleftrightarrow> q = p" if "user_path q" "walk m root q = Some u" for q u
    using ok that t p(1) by (auto simp: pt_ok_def)
  show w: "walk m' root q = walk m root q" if "user_path q" for q
    using that
  proof (induction q rule: rev_induct)
    case (snoc j q)
    note uq = user_path_snocD[OF snoc.prems]
    have "tab_next m' u j = tab_next m u j" if "walk m root q = Some u" for u
      using rd[OF tablesI[OF conjunct1[OF uq] that]] same[OF conjunct1[OF uq] that] uq p(2) by (auto simp: tab_next_def)
    then show ?case using snoc.IH uq by (simp add: walk_snoc split: option.split)
  qed simp
  then show tabs: "tables m' root = tables m root"
    by (auto simp: tables_def)
  show "pt_ok m' root"
    using ok w unfolding pt_ok_def tabs by simp
  show "pmap m' root q j = (if q = p \<and> j = i then w else pmap m root q j)" if "user_path q" "j < 512" "length q = 3"
    using w[OF that(1)] t p rd[OF tablesI[OF that(1)] that(2)] same[OF that(1)] by (auto simp: pmap_def split: option.split)
qed

section \<open>What the walk does\<close>

lemma PTE_ADDR_flags:
  assumes "aligned x" and "f AND NOT 0xFFF = 0"
  shows "PTE_ADDR (x OR f) = x"
proof -
  have m: "(0xFFF :: addr_t) = mask 12" by (simp add: mask_eq_exp_minus_1)
  have "take_bit 12 (unat x) = 0" using assms(1) by (simp add: take_bit_eq_mod)
  then have "take_bit 12 x = 0" by (intro unat_0_iff[THEN iffD1]) (simp add: unsigned_take_bit_eq)
  then have "\<not> bit x k" if "k < 12" for k
    using that bit_take_bit_iff[of 12 x k] by simp
  then have "x AND NOT (mask 12) = x"
    by (intro bit_word_eqI) (auto simp: bit_and_iff bit_not_iff bit_mask_iff)
  then show ?thesis
    using assms(2) unfolding PTE_ADDR_def m by (simp add: bit.conj_disj_distrib2)
qed

lemma aligned_V2P:
  assumes "aligned v"
  shows "aligned (V2P v)"
proof -
  have d: "4096 dvd unat v" "4096 dvd unat KERNBASE" "4096 dvd (2 ^ 64 :: nat)"
    using assms by (auto simp: KERNBASE_def dvd_eq_mod_eq_0)
  then have dvd: "4096 dvd (if KERNBASE \<le> v then unat v - unat KERNBASE else unat v + 2 ^ 64 - unat KERNBASE)"
    by (auto intro!: dvd_diff_nat dvd_add)
  have e: "unat (V2P v) = (if KERNBASE \<le> v then unat v - unat KERNBASE else unat v + 2 ^ 64 - unat KERNBASE)"
    by (simp add: V2P_def unat_sub_if' word_le_nat_alt)
  show ?thesis
    unfolding e by (rule dvd_imp_mod_0[OF dvd])
qed

text \<open>The state a walk needs: free pages, and a tree of tables that they are no part of.\<close>

definition vm_inv :: "addr_t list \<Rightarrow> addr_t \<Rightarrow> 'x kmem_state_scheme \<Rightarrow> bool" where
  "vm_inv xs root s \<longleftrightarrow> kmem_ready s \<and> kmem_inv xs s \<and> pt_ok (mem s) root \<and> tables (mem s) root \<inter> set xs = {} \<and>
     (\<forall>t\<in>tables (mem s) root. kfree_ok t s)"

text \<open>What a walk may change: the memory of the tables, and which pages are free.\<close>

definition vm_frame :: "addr_t \<Rightarrow> addr_t list \<Rightarrow> 'x kmem_state_scheme \<Rightarrow> addr_t list \<Rightarrow> 'x kmem_state_scheme \<Rightarrow> bool" where
  "vm_frame root xs s ys t \<longleftrightarrow> s\<lparr>mem := mem t, freelist := freelist t\<rparr> = t \<and> tables (mem s) root \<subseteq> tables (mem t) root \<and>
     set ys \<subseteq> set xs \<and> tables (mem t) root \<subseteq> tables (mem s) root \<union> set xs \<and>
     (\<forall>x. (\<forall>v\<in>tables (mem t) root. 4096 \<le> unat (x - v)) \<longrightarrow> mem t x = mem s x)"

lemma vm_frame_trans:
  assumes "vm_frame root xs s ys t" and "vm_frame root ys t zs u"
  shows "vm_frame root xs s zs u"
proof -
  have "s\<lparr>mem := mem u, freelist := freelist u\<rparr> = (s\<lparr>mem := mem t, freelist := freelist t\<rparr>)\<lparr>mem := mem u, freelist := freelist u\<rparr>"
    by simp
  also have "\<dots> = u"
    using assms unfolding vm_frame_def by argo
  finally have eq: "s\<lparr>mem := mem u, freelist := freelist u\<rparr> = u" .
  have sub: "tables (mem s) root \<subseteq> tables (mem t) root" "tables (mem t) root \<subseteq> tables (mem u) root"
      "set ys \<subseteq> set xs" "set zs \<subseteq> set ys" "tables (mem t) root \<subseteq> tables (mem s) root \<union> set xs"
      "tables (mem u) root \<subseteq> tables (mem t) root \<union> set ys"
    using assms by (simp_all add: vm_frame_def)
  have "mem u x = mem s x" if "\<forall>v\<in>tables (mem u) root. 4096 \<le> unat (x - v)" for x
    using assms sub(2) that unfolding vm_frame_def by (metis subsetD)
  then show ?thesis
    unfolding vm_frame_def using eq sub by blast
qed

lemma walk_level_present:
  assumes "tab_next (mem s) t i = Some u"
  shows "walk_level (entry t i) alloc s = Ok (Some u) s"
  using assms by (auto simp: walk_level_def pte_get_def k_simps tab_next_def Let_def split: if_splits)

lemma walk_level_absent:
  assumes "tab_next (mem s) t i = None"
  shows "walk_level (entry t i) False s = Ok None s"
  using assms by (auto simp: walk_level_def pte_get_def k_simps tab_next_def Let_def split: if_splits)

lemma walk_level_new:
  assumes inv: "vm_inv (n # ys) root s" and up: "user_path (p @ [i])" and t: "walk (mem s) root p = Some t"
    and none: "tab_next (mem s) t i = None"
  shows "\<exists>s'. walk_level (entry t i) True s = Ok (Some n) s' \<and> walk (mem s') root (p @ [i]) = Some n \<and> vm_inv ys root s' \<and>
    vm_frame root (n # ys) s ys s' \<and> (\<forall>q j. user_path q \<longrightarrow> length q = 3 \<longrightarrow> j < 512 \<longrightarrow> pmap (mem s') root q j = pmap (mem s) root q j)"
proof -
  let ?w = "V2P n OR (PTE_P OR PTE_W OR PTE_U)" and ?m = "memset (mem s) n 0 4096"
  let ?m' = "store64 ?m (entry t i) ?w"
  let ?s = "s\<lparr>freelist := load64 (mem s) n, mem := ?m'\<rparr>"
  have k: "kmem_ready s" "kmem_inv (n # ys) s" and pt: "pt_ok (mem s) root" and dis: "n \<notin> tables (mem s) root"
      "tables (mem s) root \<inter> set ys = {}" and tk: "\<forall>t\<in>tables (mem s) root. kfree_ok t s"
    using inv by (auto simp: vm_inv_def)
  have n: "kfree_ok n s" "freelist s = n" "n \<notin> set ys" using k(2) by (auto simp: kmem_inv_def)
  have al: "aligned n" "aligned (V2P n)" using kfree_ok_aligned[OF n(1)] aligned_V2P by simp_all
  have "PTE_ADDR ?w = V2P n"
    by (rule PTE_ADDR_flags[OF al(2)]) (simp add: PTE_P_def PTE_W_def PTE_U_def)
  then have w: "?w AND PTE_P \<noteq> 0" "P2V (PTE_ADDR ?w) = n"
    by (simp_all add: P2V_def V2P_def PTE_P_def PTE_W_def PTE_U_def bit.conj_disj_distrib2)
  note l = link_table[OF pt up t none al(1) dis(1) w]
  have ut: "i < 512" "t \<in> tables (mem s) root" using user_path_snocD[OF up] tablesI[OF _ t] by auto
  then have at: "aligned t" using tk kfree_ok_aligned by blast
  have o1: "only_page n (mem s) ?m" by (rule only_page_zeroed)
  have o2: "only_page t ?m ?m'" unfolding entry_def by (rule only_page_store64) (use ut in simp)
  have ys: "t \<notin> set ys" "\<And>x. x \<in> set ys \<Longrightarrow> aligned x"
    using dis(2) ut k(2) kfree_ok_aligned by (auto simp: kmem_inv_def)
  have "flist ?m' r ys = flist (mem s) r ys" for r
    using only_page_flist[OF o1 al(1) n(3)] only_page_flist[OF o2 at ys(1)] ys(2) by blast
  then have "kmem_inv ys ?s" using k(2) by (auto simp: kmem_inv_def kfree_ok_def)
  moreover have "kmem_ready ?s" using k(1) by (simp add: kmem_ready_def irq_ok_def lock_free_def)
  ultimately have inv': "vm_inv ys root ?s"
    using l(2,3) dis n tk by (auto simp: vm_inv_def kfree_ok_def)
  have "walk_level (entry t i) True s = Ok (Some n) ?s"
    using none kalloc_eq[OF k(1)] kmem_inv_nonzero[OF k(2)] n(2)
    by (auto simp: walk_level_def pte_get_def pte_set_def zero_page_def k_simps tab_next_def Let_def or.assoc split: if_splits)
  moreover have "vm_frame root (n # ys) s ys ?s"
    using o1 o2 l(2) ut(2) by (auto simp: vm_frame_def only_page_def)
  ultimately show ?thesis
    using l(1,4) inv' by (intro exI[of _ ?s]) simp
qed

lemma walk_level_ok:
  assumes inv: "vm_inv xs root s" and up: "user_path (p @ [i])" and t: "walk (mem s) root p = Some t" and xs: "xs \<noteq> []"
  shows "\<exists>u ys s'. walk_level (entry t i) True s = Ok (Some u) s' \<and> walk (mem s') root (p @ [i]) = Some u \<and> vm_inv ys root s' \<and>
    length xs \<le> length ys + 1 \<and> vm_frame root xs s ys s' \<and>
    (\<forall>q j. user_path q \<longrightarrow> length q = 3 \<longrightarrow> j < 512 \<longrightarrow> pmap (mem s') root q j = pmap (mem s) root q j)"
proof (cases "tab_next (mem s) t i")
  case None
  obtain n ys where "xs = n # ys" using xs by (cases xs) auto
  then show ?thesis using walk_level_new[of n ys, OF _ up t None] inv by fastforce
next
  case (Some u)
  then show ?thesis
    using inv walk_level_present[OF Some] t by (intro exI[of _ u] exI[of _ xs] exI[of _ s]) (simp add: walk_snoc vm_frame_def)
qed

definition va_path :: "addr_t \<Rightarrow> nat list" where
  "va_path va = [PMX va, PDPX va, PDX va]"

text \<open>Addresses of the lower half, where user memory is.\<close>

definition user_va :: "addr_t \<Rightarrow> bool" where
  "user_va va \<longleftrightarrow> unat va < 2 ^ 47"

definition pte_of :: "memory \<Rightarrow> addr_t \<Rightarrow> addr_t \<Rightarrow> addr_t" where
  "pte_of m root va = pmap m root (va_path va) (PTX va)"

lemma index_unat: "unat (drop_bit k x AND 0x1FF :: addr_t) = unat x div 2 ^ k mod 512"
proof -
  have m: "(0x1FF :: addr_t) = mask 9" by (simp add: mask_eq_exp_minus_1)
  show ?thesis
    unfolding m take_bit_eq_mask[symmetric] unsigned_take_bit_eq unsigned_drop_bit_eq
    using unat_bound[of x] by (simp add: take_bit_eq_mod drop_bit_eq_div)
qed

lemma index_eqs:
  "PMX va = unat va div 4096 div 512 div 512 div 512 mod 512" "PDPX va = unat va div 4096 div 512 div 512 mod 512"
  "PDX va = unat va div 4096 div 512 mod 512" "PTX va = unat va div 4096 mod 512"
  by (simp_all add: PMX_def PDPX_def PDX_def PTX_def index_unat div_mult2_eq[symmetric])

lemma index_bounds [simp]: "PMX va < 512" "PDPX va < 512" "PDX va < 512" "PTX va < 512"
  by (simp_all add: index_eqs)

lemma va_path_user: "user_va va \<Longrightarrow> user_path (va_path va)" and length_va_path [simp]: "length (va_path va) = 3"
proof -
  show "user_path (va_path va)" if "user_va va"
  proof -
    have "unat va div 4096 div 512 div 512 div 512 < 256"
      using that by (simp add: user_va_def div_mult2_eq[symmetric] less_mult_imp_div_less)
    then show ?thesis by (simp add: user_path_def va_path_def) (simp add: index_eqs)
  qed
qed (simp add: va_path_def)

lemma same_mapD:
  assumes "\<forall>q j. user_path q \<longrightarrow> length q = 3 \<longrightarrow> j < 512 \<longrightarrow> pmap m' root q j = pmap m root q j" and "user_va v"
  shows "pte_of m' root v = pte_of m root v"
  using assms va_path_user[OF assms(2)] by (simp add: pte_of_def)

text \<open>With three free pages the walk always finds or makes the entry, and no mapping changes.\<close>

lemma walkpgdir_ok:
  assumes inv: "vm_inv xs root s" and va: "user_va va" and len: "3 \<le> length xs"
  shows "\<exists>tab ys s'. walkpgdir root va True s = Ok (Some (entry tab (PTX va))) s' \<and> walk (mem s') root (va_path va) = Some tab \<and>
    vm_inv ys root s' \<and> length xs \<le> length ys + 3 \<and> vm_frame root xs s ys s' \<and>
    (\<forall>q j. user_path q \<longrightarrow> length q = 3 \<longrightarrow> j < 512 \<longrightarrow> pmap (mem s') root q j = pmap (mem s) root q j)"
proof -
  have p: "user_path ([] @ [PMX va])" "user_path ([PMX va] @ [PDPX va])" "user_path ([PMX va, PDPX va] @ [PDX va])"
    using va_path_user[OF va] by (auto simp: user_path_def va_path_def)
  have ne: "xs \<noteq> []" using len by auto
  obtain pdp ys s1 where 1: "walk_level (entry root (PMX va)) True s = Ok (Some pdp) s1" "walk (mem s1) root [PMX va] = Some pdp"
      "vm_inv ys root s1" "length xs \<le> length ys + 1" "vm_frame root xs s ys s1"
      "\<forall>q j. user_path q \<longrightarrow> length q = 3 \<longrightarrow> j < 512 \<longrightarrow> pmap (mem s1) root q j = pmap (mem s) root q j"
    using walk_level_ok[OF inv p(1) _ ne] by auto
  have ne: "ys \<noteq> []" using len 1(4) by auto
  obtain pd zs s2 where 2: "walk_level (entry pdp (PDPX va)) True s1 = Ok (Some pd) s2" "walk (mem s2) root [PMX va, PDPX va] = Some pd"
      "vm_inv zs root s2" "length ys \<le> length zs + 1" "vm_frame root ys s1 zs s2"
      "\<forall>q j. user_path q \<longrightarrow> length q = 3 \<longrightarrow> j < 512 \<longrightarrow> pmap (mem s2) root q j = pmap (mem s1) root q j"
    using walk_level_ok[OF 1(3) p(2) 1(2) ne] by auto
  have ne: "zs \<noteq> []" using len 1(4) 2(4) by auto
  obtain pt us s3 where 3: "walk_level (entry pd (PDX va)) True s2 = Ok (Some pt) s3" "walk (mem s3) root (va_path va) = Some pt"
      "vm_inv us root s3" "length zs \<le> length us + 1" "vm_frame root zs s2 us s3"
      "\<forall>q j. user_path q \<longrightarrow> length q = 3 \<longrightarrow> j < 512 \<longrightarrow> pmap (mem s3) root q j = pmap (mem s2) root q j"
    using walk_level_ok[OF 2(3) p(3) 2(2) ne] by (auto simp: va_path_def)
  have "walkpgdir root va True s = Ok (Some (entry pt (PTX va))) s3"
    by (simp add: walkpgdir_def kopt_def k_simps 1(1) 2(1) 3(1))
  moreover have "vm_frame root xs s us s3" using 1(5) 2(5) 3(5) vm_frame_trans by blast
  ultimately show ?thesis
    using 1(4,6) 2(4,6) 3 by (intro exI[of _ pt] exI[of _ us] exI[of _ s3]) simp
qed

text \<open>Mapping one page: the page map changes at that page, and only there.\<close>

definition page_of :: "addr_t \<Rightarrow> nat list \<times> nat" where
  "page_of va = (va_path va, PTX va)"

lemma page_of_eq:
  assumes "user_va v" and "user_va w"
  shows "page_of v = page_of w \<longleftrightarrow> unat v div 4096 = unat w div 4096"
proof
  let ?x = "unat v div 4096" and ?y = "unat w div 4096"
  assume "page_of v = page_of w"
  then have d: "?x mod 512 = ?y mod 512" "?x div 512 mod 512 = ?y div 512 mod 512"
      "?x div 512 div 512 mod 512 = ?y div 512 div 512 mod 512"
      "?x div 512 div 512 div 512 mod 512 = ?y div 512 div 512 div 512 mod 512"
    by (simp_all add: page_of_def va_path_def index_eqs)
  have "?x div 512 div 512 div 512 < 512" "?y div 512 div 512 div 512 < 512"
    using assms by (simp_all add: user_va_def div_mult2_eq[symmetric] less_mult_imp_div_less)
  then have "?x div 512 div 512 div 512 = ?y div 512 div 512 div 512" using d(4) by simp
  then have "?x div 512 div 512 = ?y div 512 div 512" using d(3) by (metis div_mod_decomp)
  then have "?x div 512 = ?y div 512" using d(2) by (metis div_mod_decomp)
  then show "?x = ?y" using d(1) by (metis div_mod_decomp)
qed (simp add: page_of_def va_path_def index_eqs)

lemma map_page_ok:
  assumes inv: "vm_inv xs root s" and va: "user_va va" and len: "3 \<le> length xs" and free: "pte_of (mem s) root va AND PTE_P = 0"
  shows "\<exists>ys t. map_page root va pa perm s = Ok None t \<and> vm_inv ys root t \<and> length xs \<le> length ys + 3 \<and> vm_frame root xs s ys t \<and>
    (\<forall>v. user_va v \<longrightarrow> pte_of (mem t) root v = (if page_of v = page_of va then pa OR perm OR PTE_P else pte_of (mem s) root v))"
proof -
  obtain tab ys t where t: "walkpgdir root va True s = Ok (Some (entry tab (PTX va))) t" "walk (mem t) root (va_path va) = Some tab"
      "vm_inv ys root t" "length xs \<le> length ys + 3" "vm_frame root xs s ys t"
      "\<forall>q j. user_path q \<longrightarrow> length q = 3 \<longrightarrow> j < 512 \<longrightarrow> pmap (mem t) root q j = pmap (mem s) root q j"
    using walkpgdir_ok[OF inv va len] by blast
  let ?w = "pa OR perm OR PTE_P" and ?e = "entry tab (PTX va)"
  let ?u = "t\<lparr>mem := store64 (mem t) ?e ?w\<rparr>"
  have pt: "pt_ok (mem t) root" and k: "kmem_ready t" "kmem_inv ys t" "tables (mem t) root \<inter> set ys = {}"
      "\<forall>t'\<in>tables (mem t) root. kfree_ok t' t"
    using t(3) by (auto simp: vm_inv_def)
  note up = va_path_user[OF va]
  note lw = leaf_write[where w = ?w, OF pt up length_va_path t(2) index_bounds(4)[of va]]
  have tt: "tab \<in> tables (mem t) root" by (rule tablesI[OF up t(2)])
  have at: "aligned tab" using k(4) tt kfree_ok_aligned by blast
  have o: "only_page tab (mem t) (store64 (mem t) ?e ?w)" unfolding entry_def by (rule only_page_store64) (use index_bounds(4)[of va] in linarith)
  have "flist (store64 (mem t) ?e ?w) r ys = flist (mem t) r ys" for r
    using k(2,3) tt kfree_ok_aligned by (intro only_page_flist[OF o at]) (auto simp: kmem_inv_def)
  then have inv': "vm_inv ys root ?u"
    using k lw(2,3) by (auto simp: vm_inv_def kmem_inv_def kfree_ok_def kmem_ready_def irq_ok_def lock_free_def)
  have "load64 (mem t) ?e = pte_of (mem t) root va" using t(2) by (simp add: pte_of_def pmap_def)
  then have "load64 (mem t) ?e AND PTE_P = 0" using free same_mapD[OF t(6) va] by simp
  then have "map_page root va pa perm s = Ok None ?u"
    by (simp add: map_page_def t(1) k_simps pte_get_def pte_set_def)
  moreover have "vm_frame root ys t ys ?u" using o lw(2) tt by (auto simp: vm_frame_def only_page_def)
  then have "vm_frame root xs s ys ?u" by (rule vm_frame_trans[OF t(5)])
  moreover have "pte_of (mem ?u) root v = (if page_of v = page_of va then ?w else pte_of (mem s) root v)" if "user_va v" for v
    using lw(4)[OF va_path_user[OF that] index_bounds(4)[of v]] same_mapD[OF t(6) that] by (auto simp: pte_of_def page_of_def)
  ultimately show ?thesis using t(4) inv' by (intro exI[of _ ys] exI[of _ ?u]) simp
qed

text \<open>Consecutive pages of a user range.\<close>

lemma page_step:
  assumes "aligned a" and "unat a + k * 4096 \<le> 2 ^ 47" and "i < k"
  shows "unat (a + of_nat (i * PGSIZE)) = unat a + i * 4096" and "user_va (a + of_nat (i * PGSIZE))"
    and "unat (a + of_nat (i * PGSIZE)) div 4096 = unat a div 4096 + i"
proof -
  have "i * 4096 + 4096 \<le> k * 4096" using assms(3) by simp
  then have lt: "unat a + i * 4096 < 2 ^ 47" using assms(2) by linarith
  then show u: "unat (a + of_nat (i * PGSIZE)) = unat a + i * 4096"
    using unat_add_of_nat[of a "i * PGSIZE"] by (simp add: PGSIZE_def)
  show "user_va (a + of_nat (i * PGSIZE))" unfolding user_va_def u by (rule lt)
  show "unat (a + of_nat (i * PGSIZE)) div 4096 = unat a div 4096 + i" unfolding u by simp
qed

lemma map_loop:
  assumes inv: "vm_inv xs root s" and a: "aligned a" "unat a + k * 4096 \<le> 2 ^ 47" and len: "3 * k \<le> length xs"
    and free: "\<And>i. i < k \<Longrightarrow> pte_of (mem s) root (a + of_nat (i * PGSIZE)) AND PTE_P = 0"
  shows "\<exists>ys t. kloop (\<lambda>i. map_page root (a + of_nat (i * PGSIZE)) (pa + of_nat (i * PGSIZE)) perm) [0..<k] s = Ok None t \<and>
    vm_inv ys root t \<and> length xs \<le> length ys + 3 * k \<and> vm_frame root xs s ys t \<and>
    (\<forall>v. user_va v \<longrightarrow> pte_of (mem t) root v = (if unat a div 4096 \<le> unat v div 4096 \<and> unat v div 4096 < unat a div 4096 + k
      then (pa + of_nat ((unat v div 4096 - unat a div 4096) * PGSIZE)) OR perm OR PTE_P else pte_of (mem s) root v))"
  using a(2) len free
proof (induction k)
  case 0
  then show ?case using inv by (intro exI[of _ xs] exI[of _ s]) (auto simp: k_simps vm_frame_def)
next
  case (Suc k)
  let ?a = "a + of_nat (k * PGSIZE)" and ?A = "unat a div 4096"
  obtain ys t where t: "kloop (\<lambda>i. map_page root (a + of_nat (i * PGSIZE)) (pa + of_nat (i * PGSIZE)) perm) [0..<k] s = Ok None t"
      "vm_inv ys root t" "length xs \<le> length ys + 3 * k" "vm_frame root xs s ys t"
      "\<forall>v. user_va v \<longrightarrow> pte_of (mem t) root v = (if ?A \<le> unat v div 4096 \<and> unat v div 4096 < ?A + k
        then (pa + of_nat ((unat v div 4096 - ?A) * PGSIZE)) OR perm OR PTE_P else pte_of (mem s) root v)"
    using Suc.IH Suc.prems by fastforce
  note st = page_step[OF a(1) Suc.prems(1) lessI]
  have "pte_of (mem t) root ?a AND PTE_P = 0"
    using t(5) st(2,3) Suc.prems(3)[of k] by simp
  moreover have "3 \<le> length ys" using Suc.prems(2) t(3) by simp
  ultimately obtain zs u where u: "map_page root ?a (pa + of_nat (k * PGSIZE)) perm t = Ok None u" "vm_inv zs root u"
      "length ys \<le> length zs + 3" "vm_frame root ys t zs u"
      "\<forall>v. user_va v \<longrightarrow> pte_of (mem u) root v = (if page_of v = page_of ?a then (pa + of_nat (k * PGSIZE)) OR perm OR PTE_P else pte_of (mem t) root v)"
    using map_page_ok[OF t(2) st(2)] by blast
  have "kloop (\<lambda>i. map_page root (a + of_nat (i * PGSIZE)) (pa + of_nat (i * PGSIZE)) perm) [0..<Suc k] s = Ok None u"
    using t(1) u(1) by (simp add: kloop_append k_simps)
  moreover have "pte_of (mem u) root v = (if ?A \<le> unat v div 4096 \<and> unat v div 4096 < ?A + Suc k
      then (pa + of_nat ((unat v div 4096 - ?A) * PGSIZE)) OR perm OR PTE_P else pte_of (mem s) root v)" if "user_va v" for v
    using u(5) t(5) that page_of_eq[OF that st(2)] st(3) by auto
  ultimately show ?case
    using t(3) u(2,3) vm_frame_trans[OF t(4) u(4)] by (intro exI[of _ zs] exI[of _ u]) simp
qed

lemma PGROUNDDOWN_aligned:
  assumes "aligned a"
  shows "PGROUNDDOWN a = a"
proof -
  have "unat (PGROUNDDOWN a) = unat a"
    using assms div_mult_mod_eq[of "unat a" 4096] by (simp add: unat_PGROUNDDOWN)
  then show ?thesis by (simp add: word_unat_eq_iff)
qed

lemma page_count:
  assumes "aligned a" and "unat a + n * 4096 \<le> 2 ^ 47" and "0 < n"
  shows "unat (PGROUNDDOWN (a + of_nat (n * PGSIZE) - 1) - a) div PGSIZE = n - 1"
proof -
  have e: "a + of_nat (n * PGSIZE) - 1 = a + of_nat (n * PGSIZE - 1)"
    using assms(3) by (simp add: PGSIZE_def of_nat_diff)
  have "unat (a + of_nat (n * PGSIZE - 1)) = unat a + (n * 4096 - 1)"
    using assms(2) unat_add_of_nat[of a "n * PGSIZE - 1"] by (simp add: PGSIZE_def)
  moreover have "(unat a + (n * 4096 - 1)) div 4096 = unat a div 4096 + (n - 1)"
  proof -
    have "unat a + (n * 4096 - 1) = 4095 + (unat a div 4096 + (n - 1)) * 4096"
      using assms(1,3) by (cases n) auto
    then show ?thesis by simp
  qed
  ultimately have u: "unat (PGROUNDDOWN (a + of_nat (n * PGSIZE) - 1)) = unat a + (n - 1) * 4096"
    unfolding e unat_PGROUNDDOWN using assms(1) mult_div_mod_eq[of 4096 "unat a"] by (simp add: algebra_simps)
  then have "a \<le> PGROUNDDOWN (a + of_nat (n * PGSIZE) - 1)" by (simp add: word_le_nat_alt)
  then have "unat (PGROUNDDOWN (a + of_nat (n * PGSIZE) - 1) - a) = (n - 1) * 4096" by (simp only: unat_sub u)
  then show ?thesis by (simp add: PGSIZE_def)
qed

lemma mappages_ok:
  assumes inv: "vm_inv xs root s" and a: "aligned va" "unat va + n * 4096 \<le> 2 ^ 47" "0 < n" and len: "3 * n \<le> length xs"
    and free: "\<And>i. i < n \<Longrightarrow> pte_of (mem s) root (va + of_nat (i * PGSIZE)) AND PTE_P = 0"
  shows "\<exists>ys t. mappages root va (of_nat (n * PGSIZE)) pa perm s = Ok 0 t \<and> vm_inv ys root t \<and> length xs \<le> length ys + 3 * n \<and>
    vm_frame root xs s ys t \<and>
    (\<forall>v. user_va v \<longrightarrow> pte_of (mem t) root v = (if unat va div 4096 \<le> unat v div 4096 \<and> unat v div 4096 < unat va div 4096 + n
      then (pa + of_nat ((unat v div 4096 - unat va div 4096) * PGSIZE)) OR perm OR PTE_P else pte_of (mem s) root v))"
proof -
  have "[0..<unat (PGROUNDDOWN (va + of_nat (n * PGSIZE) - 1) - PGROUNDDOWN va) div PGSIZE + 1] = [0..<n]"
    using page_count[OF a] a(3) by (simp add: PGROUNDDOWN_aligned[OF a(1)] del: upt_Suc)
  then show ?thesis
    using map_loop[OF inv a(1,2) len free, of pa perm]
    unfolding mappages_def Let_def PGROUNDDOWN_aligned[OF a(1)] by (auto simp: k_simps)
qed

lemma walkpgdir_reads:
  "walkpgdir root va False s = Ok (map_option (\<lambda>t. entry t (PTX va)) (walk (mem s) root (va_path va))) s"
proof -
  have l: "walk_level (entry t i) False s = Ok (tab_next (mem s) t i) s" for t i
    by (cases "tab_next (mem s) t i") (simp_all add: walk_level_absent walk_level_present)
  show ?thesis
    by (auto simp: walkpgdir_def kopt_def k_simps l va_path_def split: option.split)
qed

section \<open>Growing user memory\<close>

text \<open>Memory outside the tables does not matter for them.\<close>

lemma off_tables:
  assumes o: "only_page n m m'" and n: "aligned n" "n \<notin> tables m root" and ok: "pt_ok m root"
  shows "user_path q \<Longrightarrow> walk m' root q = walk m root q" and "tables m' root = tables m root" and "pt_ok m' root"
    and "user_path q \<Longrightarrow> j < 512 \<Longrightarrow> pmap m' root q j = pmap m root q j"
proof -
  have rd: "load64 m' (entry u j) = load64 m (entry u j)" if "u \<in> tables m root" "j < 512" for u j
  proof (rule entry_other[OF o n(1) _ _ that(2)])
    show "aligned u" "u \<noteq> n" using ok that(1) n(2) by (auto simp: pt_ok_def)
  qed
  show w: "walk m' root q = walk m root q" if "user_path q" for q
    using that
  proof (induction q rule: rev_induct)
    case (snoc j q)
    note uq = user_path_snocD[OF snoc.prems]
    have "tab_next m' u j = tab_next m u j" if "walk m root q = Some u" for u
      using rd[OF tablesI[OF conjunct1[OF uq] that]] uq by (simp add: tab_next_def)
    then show ?case using snoc.IH uq by (simp add: walk_snoc split: option.split)
  qed simp
  then show tabs: "tables m' root = tables m root" by (auto simp: tables_def)
  show "pt_ok m' root" using ok w unfolding pt_ok_def tabs by simp
  show "pmap m' root q j = pmap m root q j" if "user_path q" "j < 512"
    using w[OF that(1)] rd[OF tablesI[OF that(1)] that(2)] by (auto simp: pmap_def split: option.split)
qed

text \<open>Taking a page from the allocator and clearing it.\<close>

lemma vm_inv_pop:
  assumes inv: "vm_inv (m # ys) root s"
  defines "t \<equiv> s\<lparr>freelist := load64 (mem s) m, mem := memset (mem s) m 0 4096\<rparr>"
  shows "kalloc s = Ok m (s\<lparr>freelist := load64 (mem s) m\<rparr>)"
    and "m \<noteq> 0" and "aligned m" and "vm_inv ys root t" and "tables (mem t) root = tables (mem s) root"
    and "m \<notin> set ys" and "m \<notin> tables (mem s) root"
    and "user_va v \<Longrightarrow> pte_of (mem t) root v = pte_of (mem s) root v"
proof -
  have k: "kmem_ready s" "kmem_inv (m # ys) s" "pt_ok (mem s) root" "tables (mem s) root \<inter> set ys = {}"
      "\<forall>t\<in>tables (mem s) root. kfree_ok t s"
    using inv by (auto simp: vm_inv_def)
  show nt: "m \<notin> tables (mem s) root" using inv by (auto simp: vm_inv_def)
  have f: "freelist s = m" "m \<notin> set ys" "kfree_ok m s" using k(2) by (auto simp: kmem_inv_def)
  show "m \<noteq> 0" and "m \<notin> set ys" using kfree_ok_nonzero[OF f(3)] f(2) by auto
  show al: "aligned m" by (rule kfree_ok_aligned[OF f(3)])
  show "kalloc s = Ok m (s\<lparr>freelist := load64 (mem s) m\<rparr>)"
    using kalloc_eq[OF k(1)] f(1) kmem_inv_nonzero[OF k(2)] by simp
  note off = off_tables[OF only_page_zeroed al nt k(3)]
  show tabs: "tables (mem t) root = tables (mem s) root" using off(2) by (simp add: t_def)
  have "flist (memset (mem s) m 0 4096) r ys = flist (mem s) r ys" for r
    using k(2) kfree_ok_aligned by (intro only_page_flist[OF only_page_zeroed al f(2)]) (auto simp: kmem_inv_def)
  then have "kmem_inv ys t" using k(2) by (auto simp: kmem_inv_def kfree_ok_def t_def)
  moreover have "kmem_ready t" using k(1) by (simp add: t_def kmem_ready_def irq_ok_def lock_free_def)
  ultimately show "vm_inv ys root t"
    using k(4,5) tabs off(3) by (simp add: vm_inv_def) (simp add: t_def kfree_ok_def)
  show "pte_of (mem t) root v = pte_of (mem s) root v" if "user_va v"
    using off(4)[OF va_path_user[OF that] index_bounds(4)] by (simp add: pte_of_def t_def)
qed

text \<open>One turn of the loop of \<open>allocuvm\<close>.\<close>

lemma alloc_page_ok:
  assumes inv: "vm_inv (m # xs) root s" and a: "aligned a" "unat a + 4096 \<le> 2 ^ 47" and len: "3 \<le> length xs"
    and free: "pte_of (mem s) root a AND PTE_P = 0"
  shows "\<exists>ys t. alloc_page root a oldsz newsz s = Ok None t \<and> vm_inv ys root t \<and> length xs \<le> length ys + 3 \<and>
    set ys \<subseteq> set xs \<and> tables (mem t) root \<subseteq> tables (mem s) root \<union> set xs \<and> tables (mem s) root \<subseteq> tables (mem t) root \<and>
    m \<notin> tables (mem t) root \<and> (\<forall>i<4096. mem t (m + of_nat i) = 0) \<and> s\<lparr>mem := mem t, freelist := freelist t\<rparr> = t \<and>
    (\<forall>x. 4096 \<le> unat (x - m) \<longrightarrow> (\<forall>v\<in>tables (mem t) root. 4096 \<le> unat (x - v)) \<longrightarrow> mem t x = mem s x) \<and>
    (\<forall>v. user_va v \<longrightarrow> pte_of (mem t) root v =
      (if unat v div 4096 = unat a div 4096 then V2P m OR (PTE_W OR PTE_U) OR PTE_P else pte_of (mem s) root v))"
proof -
  let ?u = "s\<lparr>freelist := load64 (mem s) m, mem := memset (mem s) m 0 4096\<rparr>"
  note pop = vm_inv_pop[OF inv]
  have ua: "user_va a" using a(2) by (simp add: user_va_def)
  have "pte_of (mem ?u) root (a + of_nat (i * PGSIZE)) AND PTE_P = 0" if "i < 1" for i
    using that free pop(8)[OF ua] by simp
  then obtain ys t where t: "mappages root a (of_nat (1 * PGSIZE)) (V2P m) (PTE_W OR PTE_U) ?u = Ok 0 t" "vm_inv ys root t"
      "length xs \<le> length ys + 3" "vm_frame root xs ?u ys t"
      "\<forall>v. user_va v \<longrightarrow> pte_of (mem t) root v = (if unat a div 4096 \<le> unat v div 4096 \<and> unat v div 4096 < unat a div 4096 + 1
      then (V2P m + of_nat ((unat v div 4096 - unat a div 4096) * PGSIZE)) OR (PTE_W OR PTE_U) OR PTE_P else pte_of (mem ?u) root v)"
    using mappages_ok[OF pop(4) a(1), of 1 "V2P m" "PTE_W OR PTE_U"] a(2) len by auto
  have run: "alloc_page root a oldsz newsz s = Ok None t"
    using t(1) pop(1,2) by (simp add: alloc_page_def zero_page_def k_simps)
  note fr = t(4)[unfolded vm_frame_def]
  have mt: "m \<notin> tables (mem t) root" using fr pop(5,6,7) by auto
  have al: "aligned v" if "v \<in> tables (mem t) root" for v using t(2) that by (simp add: vm_inv_def pt_ok_def)
  have "mem t (m + of_nat i) = 0" if "i < 4096" for i
  proof -
    have "4096 \<le> unat (m + of_nat i - v)" if "v \<in> tables (mem t) root" for v
      using page_unat_diff[OF al[OF that] pop(3)] that mt \<open>i < 4096\<close> by blast
    then have "mem t (m + of_nat i) = mem ?u (m + of_nat i)" using fr by blast
    also have "\<dots> = 0" using that by (simp add: memset_fills store_bytes_def unat_of_nat_small)
    finally show ?thesis .
  qed
  moreover have "s\<lparr>mem := mem t, freelist := freelist t\<rparr> = t" using fr by simp
  moreover have "mem t x = mem s x" if "4096 \<le> unat (x - m)" "\<forall>v\<in>tables (mem t) root. 4096 \<le> unat (x - v)" for x
    using fr that only_page_zeroed[of m "mem s"] by (simp add: only_page_def)
  moreover have "pte_of (mem t) root v =
      (if unat v div 4096 = unat a div 4096 then V2P m OR (PTE_W OR PTE_U) OR PTE_P else pte_of (mem s) root v)" if "user_va v" for v
    using t(5) that pop(8)[OF that] by auto
  ultimately show ?thesis
    using run t(2,3) mt fr pop(5) by (intro exI[of _ ys] exI[of _ t] conjI) auto
qed

lemma alloc_loop:
  assumes inv: "vm_inv xs root s" and a: "aligned a" "unat a + k * 4096 \<le> 2 ^ 47" and len: "4 * k \<le> length xs"
    and free: "\<And>i. i < k \<Longrightarrow> pte_of (mem s) root (a + of_nat (i * PGSIZE)) AND PTE_P = 0"
  shows "\<exists>ms ys t. kloop (\<lambda>i. alloc_page root (a + of_nat (i * PGSIZE)) oldsz newsz) [0..<k] s = Ok None t \<and>
    vm_inv ys root t \<and> length xs \<le> length ys + 4 * k \<and> length ms = k \<and> distinct ms \<and> set ms \<subseteq> set xs \<and> set ys \<subseteq> set xs \<and>
    set ms \<inter> (set ys \<union> tables (mem t) root) = {} \<and> tables (mem t) root \<subseteq> tables (mem s) root \<union> set xs \<and>
    (\<forall>m\<in>set ms. \<forall>i<4096. mem t (m + of_nat i) = 0) \<and>
    (\<forall>v. user_va v \<longrightarrow> pte_of (mem t) root v = (if unat a div 4096 \<le> unat v div 4096 \<and> unat v div 4096 < unat a div 4096 + k
      then V2P (ms ! (unat v div 4096 - unat a div 4096)) OR (PTE_W OR PTE_U) OR PTE_P else pte_of (mem s) root v))"
  using a(2) len free
proof (induction k)
  case 0
  then show ?case using inv by (intro exI[of _ "[]"] exI[of _ xs] exI[of _ s]) (auto simp: k_simps)
next
  case (Suc k)
  let ?a = "a + of_nat (k * PGSIZE)" and ?A = "unat a div 4096"
  obtain ms ys t where t: "kloop (\<lambda>i. alloc_page root (a + of_nat (i * PGSIZE)) oldsz newsz) [0..<k] s = Ok None t"
      "vm_inv ys root t" "length xs \<le> length ys + 4 * k" "length ms = k" "distinct ms" "set ms \<subseteq> set xs" "set ys \<subseteq> set xs"
      "set ms \<inter> (set ys \<union> tables (mem t) root) = {}" "tables (mem t) root \<subseteq> tables (mem s) root \<union> set xs"
      "\<forall>m\<in>set ms. \<forall>i<4096. mem t (m + of_nat i) = 0"
      "\<forall>v. user_va v \<longrightarrow> pte_of (mem t) root v = (if ?A \<le> unat v div 4096 \<and> unat v div 4096 < ?A + k
        then V2P (ms ! (unat v div 4096 - ?A)) OR (PTE_W OR PTE_U) OR PTE_P else pte_of (mem s) root v)"
    using Suc.IH Suc.prems by fastforce
  note st = page_step[OF a(1) Suc.prems(1) lessI]
  obtain m zs where ys: "ys = m # zs" "3 \<le> length zs"
    using Suc.prems(2) t(3) by (cases ys) auto
  have al: "aligned ?a" using a(1) by (simp only: st(1)) simp
  have top: "unat ?a + 4096 \<le> 2 ^ 47" using Suc.prems(1) st(1) by simp
  have "pte_of (mem t) root ?a AND PTE_P = 0"
    using t(11) st(2,3) Suc.prems(3)[of k] by simp
  from alloc_page_ok[OF t(2)[unfolded ys(1)] al top ys(2) this, of oldsz newsz]
  obtain us u where u: "alloc_page root ?a oldsz newsz t = Ok None u" "vm_inv us root u" "length zs \<le> length us + 3"
      "set us \<subseteq> set zs" "tables (mem u) root \<subseteq> tables (mem t) root \<union> set zs" "m \<notin> tables (mem u) root"
      "\<forall>i<4096. mem u (m + of_nat i) = 0"
      "\<forall>x. 4096 \<le> unat (x - m) \<longrightarrow> (\<forall>v\<in>tables (mem u) root. 4096 \<le> unat (x - v)) \<longrightarrow> mem u x = mem t x"
      "\<forall>v. user_va v \<longrightarrow> pte_of (mem u) root v =
        (if unat v div 4096 = unat ?a div 4096 then V2P m OR (PTE_W OR PTE_U) OR PTE_P else pte_of (mem t) root v)"
    by blast
  have fresh: "m \<notin> set ms" "m \<notin> set us" "set ms \<inter> (set us \<union> tables (mem u) root) = {}"
    using t(2,8) u(4,5) ys(1) by (auto simp: vm_inv_def kmem_inv_def)
  have pg: "aligned m'" if "m' \<in> set xs" for m' using inv that kfree_ok_aligned by (auto simp: vm_inv_def kmem_inv_def)
  have tb: "aligned v" if "v \<in> tables (mem u) root" for v using u(2) that by (simp add: vm_inv_def pt_ok_def)
  have mx: "m \<in> set xs" using t(7) ys(1) by simp
  have keep: "mem u (m' + of_nat i) = 0" if "m' \<in> set ms" "i < 4096" for m' i
  proof -
    have "aligned m'" "m' \<noteq> m" "m' \<notin> tables (mem u) root" using that t(6) pg fresh by auto
    then have "4096 \<le> unat (m' + of_nat i - m)" "\<forall>v\<in>tables (mem u) root. 4096 \<le> unat (m' + of_nat i - v)"
      using page_unat_diff[OF pg[OF mx], of m' i] page_unat_diff[OF tb, of _ m' i] that(2) by metis+
    then show ?thesis using u(8) t(10) that by simp
  qed
  have "kloop (\<lambda>i. alloc_page root (a + of_nat (i * PGSIZE)) oldsz newsz) [0..<Suc k] s = Ok None u"
    using t(1) u(1) by (simp add: kloop_append k_simps)
  moreover have "pte_of (mem u) root v = (if ?A \<le> unat v div 4096 \<and> unat v div 4096 < ?A + Suc k
      then V2P ((ms @ [m]) ! (unat v div 4096 - ?A)) OR (PTE_W OR PTE_U) OR PTE_P else pte_of (mem s) root v)" if "user_va v" for v
    using u(9) t(4,11) that st(3) by (auto simp: nth_append)
  ultimately show ?case
    using t(3-7,9) u(2-7) fresh keep mx ys(1) by (intro exI[of _ "ms @ [m]"] exI[of _ us] exI[of _ u] conjI) auto
qed

section \<open>An empty address space\<close>

text \<open>Giving a page back to the allocator.\<close>

lemma vm_inv_push:
  assumes inv: "vm_inv xs root s" and v: "kfree_ok v s" "v \<notin> set xs" "v \<notin> tables (mem s) root"
  defines "t \<equiv> s\<lparr>mem := freed_mem (mem s) v (freelist s), freelist := v\<rparr>"
  shows "kfree v s = Ok () t" and "vm_inv (v # xs) root t" and "tables (mem t) root = tables (mem s) root"
    and "user_va a \<Longrightarrow> pte_of (mem t) root a = pte_of (mem s) root a"
proof -
  have k: "kmem_ready s" "kmem_inv xs s" "pt_ok (mem s) root" "tables (mem s) root \<inter> set xs = {}"
      "\<forall>t\<in>tables (mem s) root. kfree_ok t s"
    using inv by (auto simp: vm_inv_def)
  show "kfree v s = Ok () t" using kfree_eq[OF k(1) v(1)] by (simp add: t_def)
  note off = off_tables[OF only_page_freed kfree_ok_aligned[OF v(1)] v(3) k(3)]
  show tabs: "tables (mem t) root = tables (mem s) root" using off(2) by (simp add: t_def)
  have "kmem_inv (v # xs) t" unfolding t_def by (rule kfree_inv[OF k(2) v(1,2)])
  moreover have "kmem_ready t" using k(1) by (simp add: t_def kmem_ready_def irq_ok_def lock_free_def)
  ultimately show "vm_inv (v # xs) root t"
    using k(4,5) tabs off(3) v(3) by (simp add: vm_inv_def) (simp add: t_def kfree_ok_def)
  show "pte_of (mem t) root a = pte_of (mem s) root a" if "user_va a"
    using off(4)[OF va_path_user[OF that] index_bounds(4)] by (simp add: pte_of_def t_def)
qed

definition vm_root :: addr_t where
  "vm_root = 0xFFFF800000200000"

definition vm_page :: "nat \<Rightarrow> addr_t" where
  "vm_page i = 0xFFFF800000300000 + of_nat (i * 4096)"

lemma vm_page_unat: "i < 1000 \<Longrightarrow> unat (vm_page i) = 0xFFFF800000300000 + i * 4096"
  using unat_add_of_nat[of "0xFFFF800000300000" "i * 4096"] by (simp add: vm_page_def)

lemma vm_page_ok:
  assumes "i < 1000" and "kend s = 0xFFFF800000200000"
  shows "kfree_ok (vm_page i) s" and "vm_page i \<noteq> vm_root"
proof -
  have "V2P (vm_page i) = 0x300000 + of_nat (i * 4096)"
    by (simp add: V2P_def vm_page_def KERNBASE_def)
  then have "unat (V2P (vm_page i)) = 0x300000 + i * 4096"
    using assms(1) unat_add_of_nat[of "0x300000" "i * 4096"] by simp
  then show "kfree_ok (vm_page i) s"
    using assms vm_page_unat[OF assms(1)] mod_mult_self3[of i 4096 "0xFFFF800000300000"]
    by (simp add: kfree_ok_def PGSIZE_def word_less_nat_alt word_le_nat_alt PHYSTOP_def)
  show "vm_page i \<noteq> vm_root"
    using vm_page_unat[OF assms(1)] by (auto simp: vm_root_def)
qed

lemma load64_zeros: "load64 (\<lambda>_. 0) a = 0"
proof -
  have "load_bytes (\<lambda>_. 0) a 8 = replicate 8 0" by (simp add: load_bytes_def map_replicate_const)
  then show ?thesis by (simp add: load64_def)
qed

lemma walk_zeros: "walk (\<lambda>_. 0) r p = (if p = [] then Some r else None)"
  by (cases p) (simp_all add: tab_next_def load64_zeros)

lemma vm_ready:
  assumes "n \<le> 1000"
  shows "\<exists>s. vm_inv (map vm_page (rev [0..<n])) vm_root s \<and> tables (mem s) vm_root = {vm_root} \<and>
    (s :: kmem_state)\<lparr>mem := mem boot_kmem, freelist := freelist boot_kmem\<rparr> = boot_kmem \<and>
    (\<forall>v. user_va v \<longrightarrow> pte_of (mem s) vm_root v = 0)"
  using assms
proof (induction n)
  case 0
  have t: "tables (\<lambda>_. 0) vm_root = {vm_root}" by (auto simp: tables_def walk_zeros user_path_def)
  have "vm_inv [] vm_root boot_kmem"
    using t by (auto simp: vm_inv_def pt_ok_def walk_zeros kmem_ready_def kmem_inv_def boot_kmem_def vm_root_def kfree_ok_def
        PGSIZE_def V2P_def KERNBASE_def PHYSTOP_def split: if_splits)
  then show ?case
    using t by (intro exI[of _ boot_kmem]) (simp add: boot_kmem_def pte_of_def pmap_def va_path_def walk_zeros)
next
  case (Suc n)
  then obtain s :: kmem_state where s: "vm_inv (map vm_page (rev [0..<n])) vm_root s" "tables (mem s) vm_root = {vm_root}"
      "s\<lparr>mem := mem boot_kmem, freelist := freelist boot_kmem\<rparr> = boot_kmem" "\<forall>v. user_va v \<longrightarrow> pte_of (mem s) vm_root v = 0"
    by auto
  have "kend s = kend boot_kmem" by (subst s(3)[symmetric]) simp
  then have k: "kend s = 0xFFFF800000200000" by (simp add: boot_kmem_def)
  have "vm_page n \<noteq> vm_page i" if "i < n" for i
    using that Suc.prems vm_page_unat[of n] vm_page_unat[of i] by auto
  then have "vm_page n \<notin> set (map vm_page (rev [0..<n]))" unfolding set_map set_rev by fastforce
  note p = vm_inv_push[OF s(1) vm_page_ok(1)[OF _ k] this]
  show ?case
    using p s vm_page_ok(2)[of n s] k Suc.prems
    by (intro exI[of _ "s\<lparr>mem := freed_mem (mem s) (vm_page n) (freelist s), freelist := vm_page n\<rparr>"]) simp
qed

section \<open>Properties\<close>

text \<open>
  Claim C10. \<open>mappages\<close> refines an update of the page map. Given free pages for the tables it may
  need, it returns 0, the leaf entries of exactly the pages from \<open>va\<close> to \<open>va + size\<close> become the
  consecutive physical pages with the permissions asked for, and every other user address keeps its
  entry; the tables stay a tree, apart from the free list, and no memory outside them changes.
\<close>

theorem mappages_refines:
  assumes "vm_inv xs root s" and "aligned va" and "unat va + n * PGSIZE \<le> 2 ^ 47" and "0 < n" and "3 * n \<le> length xs"
    and "\<And>i. i < n \<Longrightarrow> pte_of (mem s) root (va + of_nat (i * PGSIZE)) AND PTE_P = 0"
  shows "\<exists>ys t. mappages root va (of_nat (n * PGSIZE)) pa perm s = Ok 0 t \<and> vm_inv ys root t \<and> vm_frame root xs s ys t \<and>
    (\<forall>v. user_va v \<longrightarrow> pte_of (mem t) root v = (if unat va div PGSIZE \<le> unat v div PGSIZE \<and> unat v div PGSIZE < unat va div PGSIZE + n
      then (pa + of_nat ((unat v div PGSIZE - unat va div PGSIZE) * PGSIZE)) OR perm OR PTE_P else pte_of (mem s) root v))"
  using mappages_ok[OF assms(1,2) _ assms(4,5,6), of pa perm] assms(3) by (auto simp: PGSIZE_def)

theorem mappages_refines_witness:
  "\<exists>(s :: kmem_state) t. mappages vm_root 0x1000 (of_nat (2 * PGSIZE)) 0x400000 (PTE_W OR PTE_U) s = Ok 0 t \<and>
     pte_of (mem t) vm_root 0x2008 = 0x401007"
proof -
  obtain s :: kmem_state where s: "vm_inv (map vm_page (rev [0..<6])) vm_root s" "\<forall>v. user_va v \<longrightarrow> pte_of (mem s) vm_root v = 0"
    using vm_ready[of 6] by auto
  have "pte_of (mem s) vm_root (0x1000 + of_nat (i * PGSIZE)) AND PTE_P = 0" if "i < 2" for i
    using s(2) page_step(2)[of "0x1000" 2 i] that by simp
  then show ?thesis
    using mappages_refines[OF s(1), of "0x1000" 2 "0x400000" "PTE_W OR PTE_U"]
    by - (rule exI[of _ s], auto simp: PGSIZE_def user_va_def PTE_W_def PTE_U_def PTE_P_def dest!: spec[of _ "0x2008"])
qed



text \<open>
  Claim C32. \<open>copyout\<close> within one page of the target address space: where the page is mapped for
  the user, exactly the bytes of the buffer are stored at the translated address and 0 is returned;
  where the leaf entry is absent or kernel-only, nothing is stored and -1 is returned; where a
  table above the leaf is missing, \<open>uva2ka\<close> reads through a null pointer, so that the promised -1
  is a fault.
\<close>

theorem copyout_page:
  assumes "buf \<noteq> []" and "unat va mod PGSIZE + length buf \<le> PGSIZE"
  shows "copyout root va buf s =
    (case walk (mem s) root (va_path va) of None \<Rightarrow> Fail (EFault ''uva2ka'')
     | Some tab \<Rightarrow> let w = load64 (mem s) (entry tab (PTX va)) in
         if w AND PTE_P = 0 \<or> w AND PTE_U = 0 \<or> P2V (PTE_ADDR w) = 0 then Ok (- 1) s
         else Ok 0 (s\<lparr>mem := store_bytes (mem s) (P2V (PTE_ADDR w) + (va - PGROUNDDOWN va)) buf\<rparr>))"
proof -
  have "unat (PGROUNDDOWN va) div 4096 = unat va div 4096" by (simp add: unat_PGROUNDDOWN)
  then have p: "va_path (PGROUNDDOWN va) = va_path va" "PTX (PGROUNDDOWN va) = PTX va"
    by (simp_all add: va_path_def index_eqs)
  have n: "min (PGSIZE - unat (va - PGROUNDDOWN va)) (length buf) = length buf"
    using assms(2) by (simp add: page_offset PGSIZE_def)
  have e: "copyout root x [] t = Ok 0 t" for x and t :: "'a kmem_state_scheme"
    by (simp add: copyout.simps k_simps)
  show ?thesis
    using assms(1) by (subst copyout.simps)
      (auto simp: Let_def n uva2ka_def walkpgdir_reads p k_simps pte_get_def e split: option.split)
qed

theorem copyout_page_witness: "copyout vm_root 0x1000 [42] boot_kmem = Fail (EFault ''uva2ka'')"
  using copyout_page[of "[42]" "0x1000" vm_root boot_kmem]
  by (simp add: PGSIZE_def va_path_def boot_kmem_def tab_next_def load64_zeros)

end
