(* ===== verification/Process.thy ===== *)
theory Process
  imports File Vm
begin

text \<open>
  The rest of \<^verbatim>\<open>proc.c\<close>: creating the first process, growing a process, \<open>fork\<close>, \<open>exit\<close>, \<open>wait\<close> and
  \<open>forkret\<close>. A trap frame is the 176 bytes of kernel memory at \<open>p_tf\<close>; its registers are the 64-bit words
  of it. The program \<open>initcode\<close>, which the linker includes in the kernel, is an argument of \<open>userinit\<close>.
\<close>

section \<open>State (x86.h, proc.c, trap.c, kbd.c)\<close>

datatype tf_reg =
    Rax | Rbx | Rcx | Rdx | Rbp | Rsi | Rdi | R8 | R9 | R10 | R11 | R12 | R13 | R14 | R15
  | Trapno | Err | Rip | Cs | Rflags | Rsp | Ss

fun tf_index :: "tf_reg \<Rightarrow> nat" where
  "tf_index Rax = 0" | "tf_index Rbx = 1" | "tf_index Rcx = 2" | "tf_index Rdx = 3" | "tf_index Rbp = 4"
| "tf_index Rsi = 5" | "tf_index Rdi = 6" | "tf_index R8 = 7" | "tf_index R9 = 8" | "tf_index R10 = 9"
| "tf_index R11 = 10" | "tf_index R12 = 11" | "tf_index R13 = 12" | "tf_index R14 = 13" | "tf_index R15 = 14"
| "tf_index Trapno = 15" | "tf_index Err = 16" | "tf_index Rip = 17" | "tf_index Cs = 18"
| "tf_index Rflags = 19" | "tf_index Rsp = 20" | "tf_index Ss = 21"

definition tf_get :: "addr_t \<Rightarrow> tf_reg \<Rightarrow> ('x kmem_state_scheme, uint64) km" where
  "tf_get tf r = kget (\<lambda>s. load64 (mem s) (tf + of_nat (8 * tf_index r)))"

definition tf_set :: "addr_t \<Rightarrow> tf_reg \<Rightarrow> uint64 \<Rightarrow> ('x kmem_state_scheme, unit) km" where
  "tf_set tf r w = kmod (\<lambda>s. s\<lparr>mem := store64 (mem s) (tf + of_nat (8 * tf_index r)) w\<rparr>)"

definition FL_IF :: uint64 where "FL_IF = 0x200"

record sys_state = file_state +
  forkret_first :: bool     \<comment> \<open>the static \<open>first\<close> of \<open>forkret\<close>\<close>
  ticks :: uint
  kbd_shift :: uint         \<comment> \<open>the static \<open>shift\<close> of \<open>kbdgetc\<close>\<close>
  idt :: addr_t

text \<open>
  \<open>safestrcpy(dst, src, n)\<close> on an array and a string: at most \<open>n - 1\<close> bytes are copied, the terminator
  included, and a zero follows the last one copied.
\<close>

definition copy_name :: "nat \<Rightarrow> uchar list \<Rightarrow> uchar list \<Rightarrow> uchar list" where
  "copy_name n src dst =
     (let c = takeWhile (\<lambda>b. b \<noteq> 0) src in
      patch 0 (if length c + 1 < n then c @ [0, 0] else take (n - 1) c @ [0]) dst)"

section \<open>The first process (proc.c)\<close>

definition userinit :: "uchar list \<Rightarrow> ('x file_state_scheme, unit) km" where
  "userinit initcode =
     kbind allocproc (\<lambda>po.
     kseq (kmod (\<lambda>s. s\<lparr>initproc := po\<rparr>))
     (case po of None \<Rightarrow> kfault ''userinit''
      | Some p \<Rightarrow>
          kbind setupkvm (\<lambda>pgdir.
          kseq (set_proc p (\<lambda>q. q\<lparr>p_pgdir := pgdir\<rparr>))
          (if pgdir = 0 then kpanic ''userinit: out of memory?''
           else
             kseq (inituvm pgdir initcode)
             (kseq (set_proc p (\<lambda>q. q\<lparr>p_sz := of_nat (PGSIZE * 2)\<rparr>))
             (kbind (get_proc p_tf p) (\<lambda>tf.
              kseq (kmod (\<lambda>s. s\<lparr>mem := memset (mem s) tf 0 (ucast sizeof_trapframe)\<rparr>))
             (kseq (tf_set tf R11 FL_IF)
             (kseq (tf_set tf Rsp (of_nat (PGSIZE * 2)))
             (kseq (tf_set tf Rcx (of_nat PGSIZE))
             (kseq (set_proc p (\<lambda>q. q\<lparr>p_name := copy_name 16 (str ''initcode'') (p_name q)\<rparr>))
             (kbind (namei (str ''/'')) (\<lambda>cwd.
              kseq (set_proc p (\<lambda>q. q\<lparr>p_cwd := cwd\<rparr>))
                   (set_proc p (\<lambda>q. q\<lparr>p_state := RUNNABLE\<rparr>)))))))))))))))"

text \<open>\<open>n\<close> is a signed 64-bit number.\<close>

definition growproc :: "uint64 \<Rightarrow> ('x proc_state_scheme, int) km" where
  "growproc n =
     with_cur (\<lambda>me.
     kbind (get_proc (\<lambda>q. q) me) (\<lambda>q.
     kbind (if sint n > 0 then
              kbind (allocuvm (p_pgdir q) (p_sz q) (p_sz q + n)) (\<lambda>sz. kret (if sz = 0 then None else Some sz))
            else if sint n < 0 then
              kbind (deallocuvm (p_pgdir q) (p_sz q) (p_sz q + n)) (\<lambda>sz. kret (if sz = 0 then None else Some sz))
            else kret (Some (p_sz q))) (\<lambda>r.
     case r of None \<Rightarrow> kret (- 1)
     | Some sz \<Rightarrow>
         kseq (set_proc me (\<lambda>q. q\<lparr>p_sz := sz\<rparr>))
         (kseq (switchuvm me) (kret 0)))))"

section \<open>fork (proc.c)\<close>

definition fork_file :: "nat \<Rightarrow> nat \<Rightarrow> nat \<Rightarrow> ('x file_state_scheme, unit) km" where
  "fork_file me np i =
     kbind (get_proc p_ofile me) (\<lambda>fds.
     case fds i of None \<Rightarrow> kret ()
     | Some f \<Rightarrow> kbind (filedup f) (\<lambda>f'. set_proc np (\<lambda>q. q\<lparr>p_ofile := (p_ofile q)(i := Some f')\<rparr>)))"

definition fork :: "('x file_state_scheme, 32 word) km" where
  "fork =
     kbind allocproc (\<lambda>npo.
     case npo of None \<Rightarrow> kret (- 1)
     | Some np \<Rightarrow>
         with_cur (\<lambda>me.
         kbind (get_proc (\<lambda>q. q) me) (\<lambda>p.
         kbind (copyuvm (p_pgdir p) (ucast (p_sz p))) (\<lambda>pgdir.
         kseq (set_proc np (\<lambda>q. q\<lparr>p_pgdir := pgdir\<rparr>))
         (if pgdir = 0 then
            kbind (get_proc p_kstack np) (\<lambda>ks.
            kseq (kfree ks)
            (kseq (set_proc np (\<lambda>q. q\<lparr>p_kstack := 0\<rparr>))
            (kseq (set_proc np (\<lambda>q. q\<lparr>p_state := UNUSED\<rparr>))
                  (kret (- 1)))))
          else
            kseq (set_proc np (\<lambda>q. q\<lparr>p_sz := p_sz p\<rparr>))
            (kseq (set_proc np (\<lambda>q. q\<lparr>p_parent := Some me\<rparr>))
            (kbind (get_proc p_tf np) (\<lambda>tf.
             kseq (kmod (\<lambda>s. s\<lparr>mem := store_bytes (mem s) tf (load_bytes (mem s) (p_tf p) (unat sizeof_trapframe))\<rparr>))
            (kseq (tf_set tf Rax 0)
            (kseq (kfor (fork_file me np) [0..<NOFILE])
            (kbind (case p_cwd p of None \<Rightarrow> kfault ''idup'' | Some d \<Rightarrow> idup d) (\<lambda>cwd.
             kseq (set_proc np (\<lambda>q. q\<lparr>p_cwd := Some cwd\<rparr>))
            (kseq (set_proc np (\<lambda>q. q\<lparr>p_name := copy_name 16 (p_name p) (p_name q)\<rparr>))
            (kbind (get_proc p_pid np) (\<lambda>pid.
             kseq (set_proc np (\<lambda>q. q\<lparr>p_state := RUNNABLE\<rparr>))
                  (kret pid))))))))))))))))"

section \<open>exit and wait (proc.c)\<close>

definition close_fd :: "nat \<Rightarrow> nat \<Rightarrow> ('x file_state_scheme, unit) km" where
  "close_fd me fd =
     kbind (get_proc p_ofile me) (\<lambda>fds.
     case fds fd of None \<Rightarrow> kret ()
     | Some f \<Rightarrow> kseq (fileclose f) (set_proc me (\<lambda>q. q\<lparr>p_ofile := (p_ofile q)(fd := None)\<rparr>)))"

definition exit_files :: "nat \<Rightarrow> ('x file_state_scheme, unit) km" where
  "exit_files me =
     kseq (kfor (close_fd me) [0..<NOFILE])
     (kseq begin_op
     (kseq (kbind (get_proc p_cwd me) (\<lambda>cwd. case cwd of None \<Rightarrow> kfault ''iput'' | Some d \<Rightarrow> iput d))
     (kseq end_op
           (set_proc me (\<lambda>q. q\<lparr>p_cwd := None\<rparr>)))))"

definition exit :: "('x file_state_scheme, 'a) km" where
  "exit =
     kbind (kget (\<lambda>s. (myproc s, initproc s))) (\<lambda>(p, ip).
     if p = ip then kpanic ''init exiting''
     else with_cur (\<lambda>me. kseq (exit_files me) exit_tail))"

text \<open>
  One pass of the loop of \<open>wait\<close>. The scan over the table reaps the first zombie child; the sleep at the
  end of a pass resumes with \<open>wait_return\<close>.
\<close>

definition wait_reap :: "nat \<Rightarrow> ('x proc_state_scheme, 32 word) km" where
  "wait_reap i =
     kbind (get_proc (\<lambda>q. q) i) (\<lambda>q.
     kseq (kfree (p_kstack q))
     (kseq (set_proc i (\<lambda>q. q\<lparr>p_kstack := 0\<rparr>))
     (kseq (freevm (p_pgdir q))
     (kseq (reap i)
     (kseq (release PtableLock)
           (kret (p_pid q)))))))"

definition wait_loop :: "('x proc_state_scheme, 32 word) km" where
  "wait_loop =
     with_cur (\<lambda>me.
     kbind (kget (\<lambda>s. find (\<lambda>i. p_parent (ptable s i) = Some me \<and> p_state (ptable s i) = ZOMBIE) [0..<NPROC])) (\<lambda>zombie.
     case zombie of
       Some i \<Rightarrow> wait_reap i
     | None \<Rightarrow>
         kbind (kget (\<lambda>s. find (\<lambda>i. p_parent (ptable s i) = Some me) [0..<NPROC])) (\<lambda>kid.
         kbind (get_proc p_killed me) (\<lambda>killed.
         if kid = None \<or> killed then kseq (release PtableLock) (kret (- 1))
         else sleep (ProcChan me) (Some PtableLock)))))"

definition wait :: "('x proc_state_scheme, 32 word) km" where
  "wait = kseq (acquire PtableLock) wait_loop"

definition wait_return :: "('x proc_state_scheme, 32 word) km" where
  "wait_return = kseq (sleep_return PtableLock) wait_loop"

definition forkret :: "('x sys_state_scheme, unit) km" where
  "forkret =
     kseq (release PtableLock)
     (kbind (kget forkret_first) (\<lambda>first.
      kwhen first
        (kseq (kmod (\<lambda>s. s\<lparr>forkret_first := False\<rparr>))
        (kseq (iinit ROOTDEV)
              (initlog ROOTDEV)))))"

end
