(* ===== verification/Syscall.thy ===== *)
theory Syscall
  imports Process
begin

text \<open>
  \<^verbatim>\<open>syscall.c\<close> (arguments) and \<^verbatim>\<open>sysfile.c\<close>: the file system calls. The kernel runs on the page table of
  the calling process, so a user pointer it follows goes through that table; \<open>uload\<close> and \<open>ustore\<close> are
  such accesses, and one to a page that is not present is a fault in the kernel. Where a system call
  hands a user buffer on, the bytes are loaded before the call or stored after it.

  The C type of a result is kept: an \<open>int\<close> is a 32-bit word.
\<close>

section \<open>User memory\<close>

definition utrans :: "addr_t \<Rightarrow> ('x proc_state_scheme, addr_t) km" where
  "utrans va =
     with_cur (\<lambda>me.
     kbind (get_proc p_pgdir me) (\<lambda>pgdir.
     kbind (walkpgdir pgdir va False) (\<lambda>r.
     case r of None \<Rightarrow> kfault ''page fault''
     | Some pte \<Rightarrow>
         kbind (pte_get pte) (\<lambda>w.
         if w AND PTE_P = 0 then kfault ''page fault''
         else kret (P2V (PTE_ADDR w) + (va - PGROUNDDOWN va))))))"

primrec uload :: "addr_t \<Rightarrow> nat \<Rightarrow> ('x proc_state_scheme, uchar list) km" where
  "uload va 0 = kret []"
| "uload va (Suc n) =
     kbind (utrans va) (\<lambda>ka.
     kbind (kget (\<lambda>s. mem s ka)) (\<lambda>b.
     kbind (uload (va + 1) n) (\<lambda>bs. kret (b # bs))))"

primrec ustore :: "addr_t \<Rightarrow> uchar list \<Rightarrow> ('x proc_state_scheme, unit) km" where
  "ustore va [] = kret ()"
| "ustore va (b # bs) =
     kbind (utrans va) (\<lambda>ka.
     kseq (kmod (\<lambda>s. s\<lparr>mem := (mem s)(ka := b)\<rparr>))
          (ustore (va + 1) bs))"

section \<open>Arguments (syscall.c)\<close>

definition cur_sz :: "('x proc_state_scheme, addr_t) km" where
  "cur_sz = with_cur (get_proc p_sz)"

definition fetchint :: "addr_t \<Rightarrow> ('x proc_state_scheme, 32 word option) km" where
  "fetchint addr =
     kbind cur_sz (\<lambda>sz.
     if addr < of_nat PGSIZE \<or> addr \<ge> sz \<or> addr + 4 > sz then kret None
     else kbind (uload addr 4) (\<lambda>bs. kret (Some (le_get bs))))"

definition fetchaddr :: "addr_t \<Rightarrow> ('x proc_state_scheme, addr_t option) km" where
  "fetchaddr addr =
     kbind cur_sz (\<lambda>sz.
     if addr < of_nat PGSIZE \<or> addr \<ge> sz \<or> addr + 8 > sz then kret None
     else kbind (uload addr 8) (\<lambda>bs. kret (Some (le_get bs))))"

text \<open>The scan of \<open>fetchstr\<close>, with \<open>k\<close> bytes left below \<open>proc->sz\<close>: the string before the zero.\<close>

primrec fetchstr_loop :: "addr_t \<Rightarrow> nat \<Rightarrow> ('x proc_state_scheme, uchar list option) km" where
  "fetchstr_loop va 0 = kret None"
| "fetchstr_loop va (Suc k) =
     kbind (uload va 1) (\<lambda>b.
     if hd b = 0 then kret (Some [])
     else kbind (fetchstr_loop (va + 1) k) (\<lambda>r. kret (map_option (\<lambda>s. hd b # s) r)))"

definition fetchstr :: "addr_t \<Rightarrow> ('x proc_state_scheme, uchar list option) km" where
  "fetchstr addr =
     kbind cur_sz (\<lambda>sz.
     if addr < of_nat PGSIZE \<or> addr \<ge> sz then kret None
     else fetchstr_loop addr (unat (sz - addr)))"

definition cur_tf :: "tf_reg \<Rightarrow> ('x proc_state_scheme, uint64) km" where
  "cur_tf r = with_cur (\<lambda>me. kbind (get_proc p_tf me) (\<lambda>tf. tf_get tf r))"

definition fetcharg :: "nat \<Rightarrow> ('x proc_state_scheme, addr_t) km" where
  "fetcharg n =
     (if n = 0 then cur_tf Rdi else if n = 1 then cur_tf Rsi else if n = 2 then cur_tf Rdx
      else if n = 3 then cur_tf R10 else if n = 4 then cur_tf R8 else if n = 5 then cur_tf R9
      else kpanic ''failed fetch'')"

definition argint :: "nat \<Rightarrow> ('x proc_state_scheme, 32 word) km" where
  "argint n = kbind (fetcharg n) (\<lambda>w. kret (ucast w))"

definition argaddr :: "nat \<Rightarrow> ('x proc_state_scheme, addr_t) km" where
  "argaddr n = fetcharg n"

text \<open>
  \<open>argptr\<close> returns its status as an \<open>addr_t\<close>; \<open>*pp\<close> is set only on success. \<open>(uint)i + size\<close> is a 32-bit
  sum.
\<close>

definition argptr :: "nat \<Rightarrow> 32 word \<Rightarrow> ('x proc_state_scheme, addr_t \<times> addr_t option) km" where
  "argptr n sz =
     kbind (argaddr n) (\<lambda>i.
     kbind cur_sz (\<lambda>psz.
     if sint sz < 0 \<or> ucast (ucast i :: uint) \<ge> psz \<or> ucast ((ucast i :: uint) + sz) > psz then kret (- 1, None)
     else kret (0, Some i)))"

text \<open>\<open>int addr\<close> is passed to \<open>fetchstr\<close>, so it is sign-extended.\<close>

definition argstr :: "nat \<Rightarrow> ('x proc_state_scheme, uchar list option) km" where
  "argstr n = kbind (argint n) (\<lambda>addr. fetchstr (scast addr))"

text \<open>
  What follows \<open>if(... || argptr(n, &p, size) < 0) return -1\<close>: the comparison is one of unsigned numbers,
  and the code goes on with \<open>p\<close> as it is.
\<close>

definition with_ptr :: "nat \<Rightarrow> 32 word \<Rightarrow> (addr_t \<Rightarrow> ('x proc_state_scheme, 32 word) km) \<Rightarrow> ('x proc_state_scheme, 32 word) km" where
  "with_ptr n sz f =
     kbind (argptr n sz) (\<lambda>(st, p).
     if st < 0 then kret (- 1)
     else case p of None \<Rightarrow> kfault ''uninitialised pointer'' | Some a \<Rightarrow> f a)"

section \<open>Descriptors (sysfile.c)\<close>

definition argfd :: "nat \<Rightarrow> ('x proc_state_scheme, (nat \<times> nat) option) km" where
  "argfd n =
     kbind (argint n) (\<lambda>fd.
     if sint fd < 0 \<or> sint fd \<ge> int NOFILE then kret None
     else with_cur (\<lambda>me. kbind (get_proc p_ofile me) (\<lambda>fds.
       kret (case fds (unat fd) of None \<Rightarrow> None | Some f \<Rightarrow> Some (unat fd, f)))))"

definition fdalloc :: "nat \<Rightarrow> ('x proc_state_scheme, nat option) km" where
  "fdalloc f =
     with_cur (\<lambda>me.
     kbind (get_proc p_ofile me) (\<lambda>fds.
     case find (\<lambda>fd. fds fd = None) [0..<NOFILE] of
       None \<Rightarrow> kret None
     | Some fd \<Rightarrow> kseq (set_proc me (\<lambda>q. q\<lparr>p_ofile := (p_ofile q)(fd := Some f)\<rparr>)) (kret (Some fd))))"

definition clear_fd :: "nat \<Rightarrow> ('x proc_state_scheme, unit) km" where
  "clear_fd fd = with_cur (\<lambda>me. set_proc me (\<lambda>q. q\<lparr>p_ofile := (p_ofile q)(fd := None)\<rparr>))"

definition sys_dup :: "('x file_state_scheme, 32 word) km" where
  "sys_dup =
     kbind (argfd 0) (\<lambda>r.
     case r of None \<Rightarrow> kret (- 1)
     | Some (_, f) \<Rightarrow>
         kbind (fdalloc f) (\<lambda>fdo.
         case fdo of None \<Rightarrow> kret (- 1)
         | Some fd \<Rightarrow> kseq (filedup f) (kret (of_nat fd))))"

definition sys_read :: "('x file_state_scheme, 32 word) km" where
  "sys_read =
     kbind (argfd 0) (\<lambda>r.
     case r of None \<Rightarrow> kret (- 1)
     | Some (_, f) \<Rightarrow>
         kbind (argint 2) (\<lambda>n.
         with_ptr 1 n (\<lambda>p.
         kbind (fileread f (unat n)) (\<lambda>(k, bs).
         kseq (ustore p bs) (kret (of_int k))))))"

definition sys_write :: "('x file_state_scheme, 32 word) km" where
  "sys_write =
     kbind (argfd 0) (\<lambda>r.
     case r of None \<Rightarrow> kret (- 1)
     | Some (_, f) \<Rightarrow>
         kbind (argint 2) (\<lambda>n.
         with_ptr 1 n (\<lambda>p.
         kbind (uload p (unat n)) (\<lambda>bs.
         kbind (filewrite f bs) (\<lambda>k. kret (of_int k))))))"

definition sys_close :: "('x file_state_scheme, 32 word) km" where
  "sys_close =
     kbind (argfd 0) (\<lambda>r.
     case r of None \<Rightarrow> kret (- 1)
     | Some (fd, f) \<Rightarrow> kseq (clear_fd fd) (kseq (fileclose f) (kret 0)))"

text \<open>\<open>struct stat\<close> in user memory: the fields at their offsets, the padding left alone.\<close>

definition ustore_stat :: "addr_t \<Rightarrow> stat \<Rightarrow> ('x proc_state_scheme, unit) km" where
  "ustore_stat p st =
     kseq (ustore (p + 4) (le_put 4 (st_dev st)))
     (kseq (ustore (p + 8) (le_put 4 (of_nat (st_ino st) :: uint)))
     (kseq (ustore p (le_put 2 (st_type st)))
     (kseq (ustore (p + 12) (le_put 2 (st_nlink st)))
           (ustore (p + 16) (le_put 4 (st_size st))))))"

definition sys_fstat :: "('x file_state_scheme, 32 word) km" where
  "sys_fstat =
     kbind (argfd 0) (\<lambda>r.
     case r of None \<Rightarrow> kret (- 1)
     | Some (_, f) \<Rightarrow>
         with_ptr 1 20 (\<lambda>p.
         kbind (filestat f) (\<lambda>sto.
         case sto of None \<Rightarrow> kret (- 1)
         | Some st \<Rightarrow> kseq (ustore_stat p st) (kret 0))))"

section \<open>Links (sysfile.c)\<close>

definition fail_op :: "('x file_state_scheme, 32 word) km" where
  "fail_op = kseq end_op (kret (- 1))"

definition isdirempty :: "nat \<Rightarrow> ('x cons_state_scheme, bool) km" where
  "isdirempty dp =
     kbind (get_inode i_size dp) (\<lambda>sz.
     kbind (kloop (\<lambda>off.
         kbind (read_dirent dp off ''isdirempty: readi'') (\<lambda>de.
         kret (if de_inum de \<noteq> 0 then Some () else None))) (drop 2 (dir_offs sz))) (\<lambda>r.
     kret (r = None)))"

text \<open>The exit of \<open>sys_link\<close> through \<open>bad\<close>, which takes the link count back.\<close>

definition link_bad :: "nat \<Rightarrow> ('x file_state_scheme, 32 word) km" where
  "link_bad ip =
     kseq (ilock (Some ip))
     (kseq (set_inode ip (\<lambda>i. i\<lparr>i_nlink := i_nlink i - 1\<rparr>))
     (kseq (iupdate ip)
     (kseq (iunlockput (Some ip)) fail_op)))"

definition sys_link :: "('x file_state_scheme, 32 word) km" where
  "sys_link =
     kbind (argstr 0) (\<lambda>oldo. case oldo of None \<Rightarrow> kret (- 1) | Some old \<Rightarrow>
     kbind (argstr 1) (\<lambda>newo. case newo of None \<Rightarrow> kret (- 1) | Some new \<Rightarrow>
     kseq begin_op
     (kbind (namei old) (\<lambda>ipo. case ipo of None \<Rightarrow> fail_op | Some ip \<Rightarrow>
      kseq (ilock (Some ip))
      (kbind (get_inode i_type ip) (\<lambda>t.
       if t = T_DIR then kseq (iunlockput (Some ip)) fail_op
       else
         kseq (set_inode ip (\<lambda>i. i\<lparr>i_nlink := i_nlink i + 1\<rparr>))
         (kseq (iupdate ip)
         (kseq (iunlock (Some ip))
         (kbind (nameiparent new) (\<lambda>dpo. case dpo of None \<Rightarrow> link_bad ip | Some (dp, name) \<Rightarrow>
          kseq (ilock (Some dp))
          (kbind (get_inode i_dev dp) (\<lambda>ddev.
           kbind (get_inode (\<lambda>i. i) ip) (\<lambda>i.
           kbind (if ddev \<noteq> i_dev i then kret (- 1) else dirlink dp name (i_inum i)) (\<lambda>r.
           if r < 0 then kseq (iunlockput (Some dp)) (link_bad ip)
           else kseq (iunlockput (Some dp))
                (kseq (iput ip)
                (kseq end_op (kret 0)))))))))))))))))"

definition unlink_bad :: "nat \<Rightarrow> ('x file_state_scheme, 32 word) km" where
  "unlink_bad dp = kseq (iunlockput (Some dp)) fail_op"

definition unlink_entry :: "nat \<Rightarrow> nat \<Rightarrow> nat \<Rightarrow> ('x file_state_scheme, 32 word) km" where
  "unlink_entry dp ip off =
     kbind (writei dp (of_nat off) (replicate sizeof_dirent 0)) (\<lambda>r.
     if r \<noteq> int sizeof_dirent then kpanic ''unlink: writei''
     else
       kbind (get_inode i_type ip) (\<lambda>t.
       kseq (kwhen (t = T_DIR) (kseq (set_inode dp (\<lambda>i. i\<lparr>i_nlink := i_nlink i - 1\<rparr>)) (iupdate dp)))
       (kseq (iunlockput (Some dp))
       (kseq (set_inode ip (\<lambda>i. i\<lparr>i_nlink := i_nlink i - 1\<rparr>))
       (kseq (iupdate ip)
       (kseq (iunlockput (Some ip))
       (kseq end_op (kret 0))))))))"

definition sys_unlink :: "('x file_state_scheme, 32 word) km" where
  "sys_unlink =
     kbind (argstr 0) (\<lambda>po. case po of None \<Rightarrow> kret (- 1) | Some pth \<Rightarrow>
     kseq begin_op
     (kbind (nameiparent pth) (\<lambda>dpo. case dpo of None \<Rightarrow> fail_op | Some (dp, name) \<Rightarrow>
      kseq (ilock (Some dp))
      (if namecmp name (str ''.'') = 0 \<or> namecmp name (str ''..'') = 0 then unlink_bad dp
       else kbind (dirlookup dp name) (\<lambda>r. case r of None \<Rightarrow> unlink_bad dp | Some (ip, off) \<Rightarrow>
         kseq (ilock (Some ip))
         (kbind (get_inode (\<lambda>i. i) ip) (\<lambda>i.
          if sint (i_nlink i) < 1 then kpanic ''unlink: nlink < 1''
          else kbind (if i_type i = T_DIR then isdirempty ip else kret True) (\<lambda>empty.
            if \<not> empty then kseq (iunlockput (Some ip)) (unlink_bad dp)
            else unlink_entry dp ip off))))))))"

section \<open>Creating and opening (sysfile.c)\<close>

definition create_dots :: "nat \<Rightarrow> nat \<Rightarrow> ('x cons_state_scheme, unit) km" where
  "create_dots dp ip =
     kseq (set_inode dp (\<lambda>i. i\<lparr>i_nlink := i_nlink i + 1\<rparr>))
     (kseq (iupdate dp)
     (kbind (get_inode i_inum ip) (\<lambda>inum.
      kbind (dirlink ip (str ''.'') inum) (\<lambda>r1.
      if r1 < 0 then kpanic ''create dots''
      else kbind (get_inode i_inum dp) (\<lambda>dnum.
        kbind (dirlink ip (str ''..'') dnum) (\<lambda>r2.
        if r2 < 0 then kpanic ''create dots'' else kret ()))))))"

text \<open>\<open>ialloc\<close> does not return a null pointer. The inode is returned locked.\<close>

definition create :: "uchar list \<Rightarrow> ushort \<Rightarrow> ushort \<Rightarrow> ushort \<Rightarrow> ('x cons_state_scheme, nat option) km" where
  "create pth type major minor =
     kbind (nameiparent pth) (\<lambda>dpo. case dpo of None \<Rightarrow> kret None | Some (dp, name) \<Rightarrow>
     kseq (ilock (Some dp))
     (kbind (dirlookup dp name) (\<lambda>hit. case hit of
        Some (ip, _) \<Rightarrow>
          kseq (iunlockput (Some dp))
          (kseq (ilock (Some ip))
          (kbind (get_inode i_type ip) (\<lambda>t.
           if type = T_FILE \<and> t = T_FILE then kret (Some ip)
           else kseq (iunlockput (Some ip)) (kret None))))
      | None \<Rightarrow>
          kbind (get_inode i_dev dp) (\<lambda>dev.
          kbind (ialloc dev type) (\<lambda>ip.
          kseq (ilock (Some ip))
          (kseq (set_inode ip (\<lambda>i. i\<lparr>i_major := major, i_minor := minor, i_nlink := 1\<rparr>))
          (kseq (iupdate ip)
          (kseq (kwhen (type = T_DIR) (create_dots dp ip))
          (kbind (get_inode i_inum ip) (\<lambda>inum.
           kbind (dirlink dp name inum) (\<lambda>r.
           if r < 0 then kpanic ''create: dirlink''
           else kseq (iunlockput (Some dp)) (kret (Some ip)))))))))))))"

definition O_RDONLY :: "32 word" where "O_RDONLY = 0x000"
definition O_WRONLY :: "32 word" where "O_WRONLY = 0x001"
definition O_RDWR :: "32 word" where "O_RDWR = 0x002"
definition O_CREATE :: "32 word" where "O_CREATE = 0x200"

text \<open>The first half of \<open>sys_open\<close>: the inode, locked, or nothing.\<close>

definition open_inode :: "uchar list \<Rightarrow> 32 word \<Rightarrow> ('x cons_state_scheme, nat option) km" where
  "open_inode pth omode =
     (if omode AND O_CREATE \<noteq> 0 then create pth T_FILE 0 0
      else kbind (namei pth) (\<lambda>ipo. case ipo of None \<Rightarrow> kret None | Some ip \<Rightarrow>
        kseq (ilock (Some ip))
        (kbind (get_inode i_type ip) (\<lambda>t.
         if t = T_DIR \<and> omode \<noteq> O_RDONLY then kseq (iunlockput (Some ip)) (kret None)
         else kret (Some ip)))))"

definition open_failed :: "nat \<Rightarrow> ('x file_state_scheme, 32 word) km" where
  "open_failed ip = kseq (iunlockput (Some ip)) fail_op"

definition sys_open :: "('x file_state_scheme, 32 word) km" where
  "sys_open =
     kbind (argstr 0) (\<lambda>po. case po of None \<Rightarrow> kret (- 1) | Some pth \<Rightarrow>
     kbind (argint 1) (\<lambda>omode.
     kseq begin_op
     (kbind (open_inode pth omode) (\<lambda>ipo. case ipo of None \<Rightarrow> fail_op | Some ip \<Rightarrow>
      kbind filealloc (\<lambda>fo. case fo of None \<Rightarrow> open_failed ip | Some f \<Rightarrow>
      kbind (fdalloc f) (\<lambda>fdo. case fdo of None \<Rightarrow> kseq (fileclose f) (open_failed ip) | Some fd \<Rightarrow>
      kseq (iunlock (Some ip))
      (kseq end_op
      (kseq (set_file f (\<lambda>q. q\<lparr>f_type := FD_INODE, f_ip := Some ip, f_off := 0,
               f_readable := (omode AND O_WRONLY = 0), f_writable := (omode AND O_WRONLY \<noteq> 0 \<or> omode AND O_RDWR \<noteq> 0)\<rparr>))
            (kret (of_nat fd))))))))))"

text \<open>The common end of \<open>sys_mkdir\<close> and \<open>sys_mknod\<close>.\<close>

definition made :: "nat option \<Rightarrow> ('x file_state_scheme, 32 word) km" where
  "made ipo = (case ipo of None \<Rightarrow> fail_op | Some ip \<Rightarrow> kseq (iunlockput (Some ip)) (kseq end_op (kret 0)))"

definition sys_mkdir :: "('x file_state_scheme, 32 word) km" where
  "sys_mkdir =
     kseq begin_op
     (kbind (argstr 0) (\<lambda>po. case po of None \<Rightarrow> fail_op | Some pth \<Rightarrow>
      kbind (create pth T_DIR 0 0) made))"

definition sys_mknod :: "('x file_state_scheme, 32 word) km" where
  "sys_mknod =
     kseq begin_op
     (kbind (argstr 0) (\<lambda>po. case po of None \<Rightarrow> fail_op | Some pth \<Rightarrow>
      kbind (argint 1) (\<lambda>major.
      kbind (argint 2) (\<lambda>minor.
      kbind (create pth T_DEV (ucast major) (ucast minor)) made))))"

definition sys_chdir :: "('x file_state_scheme, 32 word) km" where
  "sys_chdir =
     kseq begin_op
     (kbind (argstr 0) (\<lambda>po. case po of None \<Rightarrow> fail_op | Some pth \<Rightarrow>
      kbind (namei pth) (\<lambda>ipo. case ipo of None \<Rightarrow> fail_op | Some ip \<Rightarrow>
      kseq (ilock (Some ip))
      (kbind (get_inode i_type ip) (\<lambda>t.
       if t \<noteq> T_DIR then kseq (iunlockput (Some ip)) fail_op
       else
         kseq (iunlock (Some ip))
         (with_cur (\<lambda>me.
          kbind (get_proc p_cwd me) (\<lambda>cwd.
          kseq (case cwd of None \<Rightarrow> kfault ''iput'' | Some d \<Rightarrow> iput d)
          (kseq end_op
          (kseq (set_proc me (\<lambda>q. q\<lparr>p_cwd := Some ip\<rparr>))
                (kret 0)))))))))))"

definition sys_pipe :: "('x file_state_scheme, 32 word) km" where
  "sys_pipe =
     with_ptr 0 8 (\<lambda>p.
     kbind pipealloc (\<lambda>r. case r of None \<Rightarrow> kret (- 1) | Some (rdf, wrf) \<Rightarrow>
     kbind (fdalloc rdf) (\<lambda>fd0o. case fd0o of
       None \<Rightarrow> kseq (fileclose rdf) (kseq (fileclose wrf) (kret (- 1)))
     | Some fd0 \<Rightarrow>
         kbind (fdalloc wrf) (\<lambda>fd1o. case fd1o of
           None \<Rightarrow> kseq (clear_fd fd0) (kseq (fileclose rdf) (kseq (fileclose wrf) (kret (- 1))))
         | Some fd1 \<Rightarrow>
             kseq (ustore p (le_put 4 (of_nat fd0 :: uint)))
             (kseq (ustore (p + 4) (le_put 4 (of_nat fd1 :: uint)))
                   (kret 0))))))"

end
