(* ===== verification/Exec.thy ===== *)
theory Exec
  imports Syscall
begin

text \<open>
  \<^verbatim>\<open>exec.c\<close>, \<open>loaduvm\<close> of \<^verbatim>\<open>vm.c\<close> and \<open>sys_exec\<close> of \<^verbatim>\<open>sysfile.c\<close>. The ELF structures are read field by field
  from the bytes \<open>readi\<close> returns; \<open>argv\<close> is the list of its strings.
\<close>

section \<open>ELF files (elf.h)\<close>

definition ELF_MAGIC :: uint where "ELF_MAGIC = 0x464C457F"
definition ELF_PROG_LOAD :: uint where "ELF_PROG_LOAD = 1"
definition MAXARG :: nat where "MAXARG = 32"

definition get64 :: "nat \<Rightarrow> uchar list \<Rightarrow> uint64" where
  "get64 off d = le_get (chunk off 8 d)"

definition sizeof_elfhdr :: nat where "sizeof_elfhdr = 64"
definition elf_magic :: "uchar list \<Rightarrow> uint" where "elf_magic d = get32 0 d"
definition elf_entry :: "uchar list \<Rightarrow> uint64" where "elf_entry d = get64 24 d"
definition elf_phoff :: "uchar list \<Rightarrow> uint64" where "elf_phoff d = get64 32 d"
definition elf_phnum :: "uchar list \<Rightarrow> nat" where "elf_phnum d = unat (get16 56 d)"

definition sizeof_proghdr :: nat where "sizeof_proghdr = 56"
definition ph_type :: "uchar list \<Rightarrow> uint" where "ph_type d = get32 0 d"
definition ph_off :: "uchar list \<Rightarrow> uint64" where "ph_off d = get64 8 d"
definition ph_vaddr :: "uchar list \<Rightarrow> uint64" where "ph_vaddr d = get64 16 d"
definition ph_filesz :: "uchar list \<Rightarrow> uint64" where "ph_filesz d = get64 32 d"
definition ph_memsz :: "uchar list \<Rightarrow> uint64" where "ph_memsz d = get64 40 d"

section \<open>Loading (vm.c, exec.c)\<close>

text \<open>One turn of the loop of \<open>loaduvm\<close>; \<open>Some ()\<close> ends it with -1.\<close>

definition load_page :: "addr_t \<Rightarrow> addr_t \<Rightarrow> nat \<Rightarrow> uint \<Rightarrow> uint \<Rightarrow> uint \<Rightarrow> ('x cons_state_scheme, unit option) km" where
  "load_page pgdir addr ip off sz i =
     kbind (walkpgdir pgdir (addr + ucast i) False) (\<lambda>r. case r of
       None \<Rightarrow> kpanic ''loaduvm: address should exist''
     | Some pte \<Rightarrow>
         kbind (pte_get pte) (\<lambda>w.
         let n = (if sz - i < of_nat PGSIZE then sz - i else of_nat PGSIZE) in
         kbind (readi ip (off + i) n) (\<lambda>(r, bs).
         kseq (kmod (\<lambda>s. s\<lparr>mem := store_bytes (mem s) (P2V (PTE_ADDR w)) bs\<rparr>))
              (kret (if (of_int r :: uint) \<noteq> n then Some () else None)))))"

definition loaduvm :: "addr_t \<Rightarrow> addr_t \<Rightarrow> nat \<Rightarrow> uint \<Rightarrow> uint \<Rightarrow> ('x cons_state_scheme, int) km" where
  "loaduvm pgdir addr ip off sz =
     (if unat addr mod PGSIZE \<noteq> 0 then kpanic ''loaduvm: addr must be page aligned''
      else kbind (kloop (\<lambda>k. load_page pgdir addr ip off sz (of_nat (k * PGSIZE))) [0..<(unat sz + PGSIZE - 1) div PGSIZE]) (\<lambda>r.
        kret (case r of None \<Rightarrow> 0 | Some _ \<Rightarrow> - 1)))"

text \<open>The loop of \<open>exec\<close> over the \<open>k\<close> program headers left; nothing stands for \<open>goto bad\<close>.\<close>

primrec exec_load :: "nat \<Rightarrow> addr_t \<Rightarrow> nat \<Rightarrow> uint \<Rightarrow> addr_t \<Rightarrow> ('x cons_state_scheme, addr_t option) km" where
  "exec_load ip pgdir 0 off sz = kret (Some sz)"
| "exec_load ip pgdir (Suc k) off sz =
     kbind (readi ip off (of_nat sizeof_proghdr)) (\<lambda>(r, ph).
     if r \<noteq> int sizeof_proghdr then kret None
     else if ph_type ph \<noteq> ELF_PROG_LOAD then exec_load ip pgdir k (off + of_nat sizeof_proghdr) sz
     else if ph_memsz ph < ph_filesz ph then kret None
     else if ph_vaddr ph + ph_memsz ph < ph_vaddr ph then kret None
     else
       kbind (allocuvm pgdir sz (ph_vaddr ph + ph_memsz ph)) (\<lambda>sz'.
       if sz' = 0 then kret None
       else if unat (ph_vaddr ph) mod PGSIZE \<noteq> 0 then kret None
       else
         kbind (loaduvm pgdir (ph_vaddr ph) ip (ucast (ph_off ph)) (ucast (ph_filesz ph))) (\<lambda>l.
         if l < 0 then kret None
         else exec_load ip pgdir k (off + of_nat sizeof_proghdr) sz')))"

section \<open>The argument stack (exec.c)\<close>

text \<open>Pushing the strings: the final stack pointer and the addresses, or nothing for \<open>goto bad\<close>.\<close>

fun exec_args :: "addr_t \<Rightarrow> uchar list list \<Rightarrow> nat \<Rightarrow> addr_t \<Rightarrow> ('x kmem_state_scheme, (addr_t \<times> addr_t list) option) km" where
  "exec_args pgdir [] argc sp = kret (Some (sp, []))"
| "exec_args pgdir (a # as) argc sp =
     (if argc \<ge> MAXARG then kret None
      else let sp' = (sp - of_nat (length a + 1)) AND NOT 7 in
        kbind (copyout pgdir sp' (a @ [0])) (\<lambda>r.
        if r < 0 then kret None
        else kbind (exec_args pgdir as (argc + 1) sp') (\<lambda>rest.
          kret (map_option (\<lambda>(spn, us). (spn, sp' # us)) rest))))"

definition last_elem :: "uchar list \<Rightarrow> uchar list" where
  "last_elem pth = rev (takeWhile (\<lambda>c. c \<noteq> 47) (rev pth))"

section \<open>exec (exec.c)\<close>

definition exec_bad :: "addr_t \<Rightarrow> nat option \<Rightarrow> ('x cons_state_scheme, int) km" where
  "exec_bad pgdir ipo =
     kseq (kwhen (pgdir \<noteq> 0) (freevm pgdir))
     (kseq (case ipo of None \<Rightarrow> kret () | Some ip \<Rightarrow> kseq (iunlockput (Some ip)) end_op)
           (kret (- 1)))"

definition exec_commit :: "nat \<Rightarrow> uchar list \<Rightarrow> addr_t \<Rightarrow> addr_t \<Rightarrow> addr_t \<Rightarrow> addr_t \<Rightarrow> uint64 \<Rightarrow> ('x cons_state_scheme, int) km" where
  "exec_commit me pth oldpgdir pgdir sz sp start =
     kseq (set_proc me (\<lambda>q. q\<lparr>p_name := copy_name 16 (last_elem pth) (p_name q)\<rparr>))
     (kseq (set_proc me (\<lambda>q. q\<lparr>p_pgdir := pgdir\<rparr>))
     (kseq (set_proc me (\<lambda>q. q\<lparr>p_sz := sz\<rparr>))
     (kbind (get_proc p_tf me) (\<lambda>tf.
      kseq (tf_set tf Rip start)
      (kseq (tf_set tf Rcx start)
      (kseq (tf_set tf Rsp sp)
      (kseq (switchuvm me)
      (kseq (freevm oldpgdir)
            (kret 0)))))))))"

text \<open>From \<open>sz = PGROUNDUP(sz)\<close> on, with the program loaded and the inode given up.\<close>

definition exec_stack :: "nat \<Rightarrow> uchar list \<Rightarrow> uchar list list \<Rightarrow> addr_t \<Rightarrow> addr_t \<Rightarrow> addr_t \<Rightarrow> uint64 \<Rightarrow> ('x cons_state_scheme, int) km" where
  "exec_stack me pth argv oldpgdir pgdir sz0 start =
     (let szr = PGROUNDUP sz0 in
      kbind (allocuvm pgdir szr (szr + of_nat (2 * PGSIZE))) (\<lambda>sz.
      if sz = 0 then exec_bad pgdir None
      else
        kseq (clearpteu pgdir (sz - of_nat (2 * PGSIZE)))
        (kbind (exec_args pgdir argv 0 sz) (\<lambda>r. case r of
           None \<Rightarrow> exec_bad pgdir None
         | Some (sp, us) \<Rightarrow>
             let argc = length us; sp' = sp - of_nat ((1 + argc + 1) * 8);
                 ustack = concat (map (le_put 8) (0xffffffffffffffff # us @ [0])) in
             kbind (get_proc p_tf me) (\<lambda>tf.
             kseq (tf_set tf Rdi (of_nat argc))
             (kseq (tf_set tf Rsi (sp - of_nat ((argc + 1) * 8)))
             (kbind (copyout pgdir sp' ustack) (\<lambda>c.
              if c < 0 then exec_bad pgdir None
              else exec_commit me pth oldpgdir pgdir sz sp' start))))))))"

definition exec :: "uchar list \<Rightarrow> uchar list list \<Rightarrow> ('x cons_state_scheme, int) km" where
  "exec pth argv =
     with_cur (\<lambda>me.
     kbind (get_proc p_pgdir me) (\<lambda>oldpgdir.
     kseq begin_op
     (kbind (namei pth) (\<lambda>ipo. case ipo of None \<Rightarrow> kseq end_op (kret (- 1)) | Some ip \<Rightarrow>
      kseq (ilock (Some ip))
      (kbind (readi ip 0 (of_nat sizeof_elfhdr)) (\<lambda>(r, elf).
       if r \<noteq> int sizeof_elfhdr then exec_bad 0 (Some ip)
       else if elf_magic elf \<noteq> ELF_MAGIC then exec_bad 0 (Some ip)
       else
         kbind setupkvm (\<lambda>pgdir.
         if pgdir = 0 then exec_bad 0 (Some ip)
         else
           kbind (exec_load ip pgdir (elf_phnum elf) (ucast (elf_phoff elf)) (of_nat PGSIZE)) (\<lambda>szo. case szo of
             None \<Rightarrow> exec_bad pgdir (Some ip)
           | Some sz \<Rightarrow>
               kseq (iunlockput (Some ip))
               (kseq end_op
                     (exec_stack me pth argv oldpgdir pgdir sz (elf_entry elf)))))))))))"

text \<open>The loop of \<open>sys_exec\<close>, with \<open>k\<close> slots of \<open>argv\<close> left.\<close>

primrec sys_exec_args :: "nat \<Rightarrow> addr_t \<Rightarrow> ('x proc_state_scheme, uchar list list option) km" where
  "sys_exec_args 0 ua = kret None"
| "sys_exec_args (Suc k) ua =
     kbind (fetchaddr ua) (\<lambda>uargo. case uargo of None \<Rightarrow> kret None | Some uarg \<Rightarrow>
     if uarg = 0 then kret (Some [])
     else kbind (fetchstr uarg) (\<lambda>so. case so of None \<Rightarrow> kret None | Some a \<Rightarrow>
       kbind (sys_exec_args k (ua + 8)) (\<lambda>rest. kret (map_option (\<lambda>as. a # as) rest))))"

definition sys_exec :: "('x cons_state_scheme, 32 word) km" where
  "sys_exec =
     kbind (argstr 0) (\<lambda>po. case po of None \<Rightarrow> kret (- 1) | Some pth \<Rightarrow>
     kbind (argaddr 1) (\<lambda>uargv.
     kbind (sys_exec_args MAXARG uargv) (\<lambda>argvo. case argvo of None \<Rightarrow> kret (- 1) | Some argv \<Rightarrow>
     kbind (exec pth argv) (\<lambda>r. kret (of_int r)))))"

end
