(* ===== verification/Trap.thy ===== *)
theory Trap
  imports Exec
begin

text \<open>
  \<^verbatim>\<open>sysproc.c\<close>, the dispatch of \<^verbatim>\<open>syscall.c\<close>, \<^verbatim>\<open>kbd.c\<close> and \<^verbatim>\<open>trap.c\<close>. The bytes waiting in the keyboard
  controller and in the serial port are arguments of their interrupt handlers. The interrupt controller
  (\<open>lapiceoi\<close>) is outside the model; \<open>ideintr\<close> is that of the memory disk, which does nothing.
\<close>

section \<open>Process system calls (sysproc.c)\<close>

definition sys_fork :: "('x file_state_scheme, 32 word) km" where
  "sys_fork = fork"

definition sys_exit :: "('x file_state_scheme, 32 word) km" where
  "sys_exit = exit"

definition sys_wait :: "('x proc_state_scheme, 32 word) km" where
  "sys_wait = wait"

definition sys_kill :: "('x proc_state_scheme, 32 word) km" where
  "sys_kill = kbind (argint 0) (\<lambda>pid. kbind (kill pid) (\<lambda>r. kret (of_int r)))"

definition sys_getpid :: "('x proc_state_scheme, 32 word) km" where
  "sys_getpid = with_cur (get_proc p_pid)"

definition sys_sbrk :: "('x proc_state_scheme, addr_t) km" where
  "sys_sbrk =
     kbind (argaddr 0) (\<lambda>n.
     kbind cur_sz (\<lambda>addr.
     kbind (growproc n) (\<lambda>r. kret (if r < 0 then - 1 else addr))))"

text \<open>The loop of \<open>sys_sleep\<close>; \<open>ticks - ticks0 < n\<close> compares unsigned. It resumes with \<open>sys_sleep_return\<close>.\<close>

definition sleep_loop :: "uint \<Rightarrow> 32 word \<Rightarrow> ('x sys_state_scheme, 32 word) km" where
  "sleep_loop ticks0 n =
     kbind (kget ticks) (\<lambda>t.
     if t - ticks0 < n then
       with_cur (\<lambda>me. kbind (get_proc p_killed me) (\<lambda>killed.
       if killed then kseq (release TicksLock) (kret (- 1))
       else sleep TicksChan (Some TicksLock)))
     else kseq (release TicksLock) (kret 0))"

definition sys_sleep :: "('x sys_state_scheme, 32 word) km" where
  "sys_sleep =
     kbind (argint 0) (\<lambda>n.
     kseq (acquire TicksLock)
     (kbind (kget ticks) (\<lambda>ticks0. sleep_loop ticks0 n)))"

definition sys_sleep_return :: "uint \<Rightarrow> 32 word \<Rightarrow> ('x sys_state_scheme, 32 word) km" where
  "sys_sleep_return ticks0 n = kseq (sleep_return TicksLock) (sleep_loop ticks0 n)"

definition sys_uptime :: "('x sys_state_scheme, 32 word) km" where
  "sys_uptime =
     kseq (acquire TicksLock)
     (kbind (kget ticks) (\<lambda>t.
      kseq (release TicksLock) (kret t)))"

section \<open>Dispatch (syscall.c, syscall.h)\<close>

text \<open>
  \<open>syscalls[num]()\<close>. The table declares every entry as returning an \<open>addr_t\<close>; of one that returns an \<open>int\<close>
  only the low half is defined, and the high half is zero here.
\<close>

definition int_call :: "('s, 32 word) km \<Rightarrow> ('s, uint64) km" where
  "int_call m = kbind m (\<lambda>r. kret (ucast r))"

definition syscalls :: "nat \<Rightarrow> ('x sys_state_scheme, uint64) km option" where
  "syscalls num =
     (if num = 1 then Some (int_call sys_fork) else if num = 2 then Some (int_call sys_exit)
      else if num = 3 then Some (int_call sys_wait) else if num = 4 then Some (int_call sys_pipe)
      else if num = 5 then Some (int_call sys_read) else if num = 6 then Some (int_call sys_kill)
      else if num = 7 then Some (int_call sys_exec) else if num = 8 then Some (int_call sys_fstat)
      else if num = 9 then Some (int_call sys_chdir) else if num = 10 then Some (int_call sys_dup)
      else if num = 11 then Some (int_call sys_getpid) else if num = 12 then Some sys_sbrk
      else if num = 13 then Some (int_call sys_sleep) else if num = 14 then Some (int_call sys_uptime)
      else if num = 15 then Some (int_call sys_open) else if num = 16 then Some (int_call sys_write)
      else if num = 17 then Some (int_call sys_mknod) else if num = 18 then Some (int_call sys_unlink)
      else if num = 19 then Some (int_call sys_link) else if num = 20 then Some (int_call sys_mkdir)
      else if num = 21 then Some (int_call sys_close) else None)"

definition proc_name :: "proc \<Rightarrow> fmtarg" where
  "proc_name q = ArgStr (Some (takeWhile (\<lambda>c. c \<noteq> 0) (p_name q)))"

definition syscall :: "addr_t \<Rightarrow> ('x sys_state_scheme, unit) km" where
  "syscall tf =
     with_cur (\<lambda>me.
     kseq (set_proc me (\<lambda>q. q\<lparr>p_tf := tf\<rparr>))
     (kbind (tf_get tf Rax) (\<lambda>num.
      kseq (case syscalls (unat num) of
              Some call \<Rightarrow> kbind call (\<lambda>r. tf_set tf Rax r)
            | None \<Rightarrow>
                kbind (get_proc (\<lambda>q. q) me) (\<lambda>q.
                kseq (cprintf (str ''%d %s: unknown sys call %d'' @ [10]) [ArgInt (p_pid q), proc_name q, ArgInt (ucast num)])
                     (tf_set tf Rax (- 1))))
      (kbind (get_proc p_killed me) (\<lambda>killed. kwhen killed exit)))))"

section \<open>Keyboard (kbd.h, kbd.c)\<close>

definition SHIFT :: uint where "SHIFT = 1"
definition CTL :: uint where "CTL = 2"
definition ALT :: uint where "ALT = 4"
definition CAPSLOCK :: uint where "CAPSLOCK = 8"
definition NUMLOCK :: uint where "NUMLOCK = 16"
definition SCROLLLOCK :: uint where "SCROLLLOCK = 32"
definition E0ESC :: uint where "E0ESC = 64"

definition shiftcode :: "nat \<Rightarrow> uint" where
  "shiftcode d =
     (if d = 0x1D then CTL else if d = 0x2A then SHIFT else if d = 0x36 then SHIFT
      else if d = 0x38 then ALT else if d = 0x9D then CTL else if d = 0xB8 then ALT else 0)"

definition togglecode :: "nat \<Rightarrow> uint" where
  "togglecode d = (if d = 0x3A then CAPSLOCK else if d = 0x45 then NUMLOCK else if d = 0x46 then SCROLLLOCK else 0)"

text \<open>A map: its leading entries, then the designated ones, which the three maps share but for two.\<close>

definition kbd_map :: "nat list \<Rightarrow> nat \<Rightarrow> nat \<Rightarrow> nat \<Rightarrow> nat" where
  "kbd_map base enter kdiv d =
     (if d < length base then base ! d
      else if d = 0x9C then enter else if d = 0xB5 then kdiv
      else if d = 0xC8 then 0xE2 else if d = 0xD0 then 0xE3
      else if d = 0xC9 then 0xE6 else if d = 0xD1 then 0xE7
      else if d = 0xCB then 0xE4 else if d = 0xCD then 0xE5
      else if d = 0x97 then 0xE0 else if d = 0xCF then 0xE1
      else if d = 0xD2 then 0xE8 else if d = 0xD3 then 0xE9 else 0)"

definition normalmap :: "nat \<Rightarrow> nat" where
  "normalmap = kbd_map
    [0, 27, 49, 50, 51, 52, 53, 54, 55, 56, 57, 48, 45, 61, 8, 9,
     113, 119, 101, 114, 116, 121, 117, 105, 111, 112, 91, 93, 10, 0, 97, 115,
     100, 102, 103, 104, 106, 107, 108, 59, 39, 96, 0, 92, 122, 120, 99, 118,
     98, 110, 109, 44, 46, 47, 0, 42, 0, 32, 0, 0, 0, 0, 0, 0,
     0, 0, 0, 0, 0, 0, 0, 55, 56, 57, 45, 52, 53, 54, 43, 49,
     50, 51, 48, 46, 0, 0, 0, 0] 10 47"

definition shiftmap :: "nat \<Rightarrow> nat" where
  "shiftmap = kbd_map
    [0, 27, 33, 64, 35, 36, 37, 94, 38, 42, 40, 41, 95, 43, 8, 9,
     81, 87, 69, 82, 84, 89, 85, 73, 79, 80, 123, 125, 10, 0, 65, 83,
     68, 70, 71, 72, 74, 75, 76, 58, 34, 126, 0, 124, 90, 88, 67, 86,
     66, 78, 77, 60, 62, 63, 0, 42, 0, 32, 0, 0, 0, 0, 0, 0,
     0, 0, 0, 0, 0, 0, 0, 55, 56, 57, 45, 52, 53, 54, 43, 49,
     50, 51, 48, 46, 0, 0, 0, 0] 10 47"

definition ctlmap :: "nat \<Rightarrow> nat" where
  "ctlmap = kbd_map
    [0, 0, 0, 0, 0, 0, 0, 0, 0, 0, 0, 0, 0, 0, 0, 0,
     17, 23, 5, 18, 20, 25, 21, 9, 15, 16, 0, 0, 13, 0, 1, 19,
     4, 6, 7, 8, 10, 11, 12, 0, 0, 0, 0, 28, 26, 24, 3, 22,
     2, 14, 13, 0, 0, 239, 0, 0] 13 239"

text \<open>\<open>charcode\<close>.\<close>

definition charcode :: "nat \<Rightarrow> nat \<Rightarrow> nat" where
  "charcode k = (if k = 0 then normalmap else if k = 1 then shiftmap else ctlmap)"

text \<open>What \<open>kbdgetc\<close> does with a byte of data: the new \<open>shift\<close> and the result.\<close>

definition kbdgetc :: "uint \<Rightarrow> uchar \<Rightarrow> uint \<times> nat" where
  "kbdgetc shift dat =
     (let d = unat dat in
      if d = 0xE0 then (shift OR E0ESC, 0)
      else if dat AND 0x80 \<noteq> 0 then
        (shift AND NOT (shiftcode (if shift AND E0ESC \<noteq> 0 then d else unat (dat AND 0x7F)) OR E0ESC), 0)
      else
        let (d1, sh1) = (if shift AND E0ESC \<noteq> 0 then (unat (dat OR 0x80), shift AND NOT E0ESC) else (d, shift));
            sh2 = (sh1 OR shiftcode d1) XOR togglecode d1;
            c = charcode (unat (sh2 AND (CTL OR SHIFT))) d1 in
        (sh2, if sh2 AND CAPSLOCK \<noteq> 0 then
                if 97 \<le> c \<and> c \<le> 122 then c - 32 else if 65 \<le> c \<and> c \<le> 90 then c + 32 else c
              else c))"

primrec kbd_keys :: "uint \<Rightarrow> uchar list \<Rightarrow> uint \<times> nat list" where
  "kbd_keys shift [] = (shift, [])"
| "kbd_keys shift (d # ds) =
     (let (sh, c) = kbdgetc shift d; (sh', cs) = kbd_keys sh ds in (sh', c # cs))"

definition kbdintr :: "uchar list \<Rightarrow> ('x sys_state_scheme, unit) km" where
  "kbdintr scan =
     kbind (kget kbd_shift) (\<lambda>shift.
     let (sh, keys) = kbd_keys shift scan in
     kseq (kmod (\<lambda>s. s\<lparr>kbd_shift := sh\<rparr>)) (consoleintr keys))"

text \<open>\<open>uartintr\<close>; \<open>uartgetc\<close> finds nothing when there is no port.\<close>

definition uartintr :: "uchar list \<Rightarrow> ('x cons_state_scheme, unit) km" where
  "uartintr rx = kbind (kget uart) (\<lambda>u. consoleintr (if u then map unat rx else []))"

section \<open>Traps (traps.h, trap.c)\<close>

definition T_IRQ0 :: nat where "T_IRQ0 = 32"
definition IRQ_TIMER :: nat where "IRQ_TIMER = 0"
definition IRQ_KBD :: nat where "IRQ_KBD = 1"
definition IRQ_COM1 :: nat where "IRQ_COM1 = 4"
definition IRQ_IDE :: nat where "IRQ_IDE = 14"
definition IRQ_SPURIOUS :: nat where "IRQ_SPURIOUS = 31"
definition DPL_USER :: uint64 where "DPL_USER = 3"
definition KERNEL_CS :: uint where "KERNEL_CS = 8"

definition mkgate :: "addr_t \<Rightarrow> nat \<Rightarrow> addr_t \<Rightarrow> uint \<Rightarrow> memory \<Rightarrow> memory" where
  "mkgate tab n kva pl m =
     store_bytes m (tab + of_nat (16 * n))
       (le_put 4 ((ucast (kva AND 0xFFFF) :: uint) OR push_bit 16 KERNEL_CS) @
        le_put 4 ((ucast (kva AND 0xFFFF0000) :: uint) OR 0x8E00 OR push_bit 13 (pl AND 3)) @
        le_put 4 (ucast (drop_bit 32 kva) :: uint) @
        le_put 4 (0 :: uint))"

text \<open>\<open>vectors\<close> is the table of entry points in the generated \<^verbatim>\<open>vectors.S\<close>.\<close>

definition tvinit :: "(nat \<Rightarrow> addr_t) \<Rightarrow> ('x sys_state_scheme, unit) km" where
  "tvinit vectors =
     kbind kalloc (\<lambda>p.
     kseq (kmod (\<lambda>s. s\<lparr>idt := p\<rparr>))
     (kseq (zero_page p)
           (kfor (\<lambda>n. kmod (\<lambda>s. s\<lparr>mem := mkgate p n (vectors n) 0 (mem s)\<rparr>)) [0..<256])))"

definition timer_tick :: "('x sys_state_scheme, unit) km" where
  "timer_tick =
     kbind (kget cpuid) (\<lambda>c.
     kwhen (c = 0)
       (kseq (acquire TicksLock)
       (kseq (kmod (\<lambda>s. s\<lparr>ticks := ticks s + 1\<rparr>))
       (kseq (wakeup TicksChan)
             (release TicksLock)))))"

text \<open>The default case of the switch; \<open>cr2\<close> is what \<open>rcr2()\<close> reads.\<close>

definition trap_default :: "addr_t \<Rightarrow> uint64 \<Rightarrow> addr_t \<Rightarrow> ('x sys_state_scheme, unit) km" where
  "trap_default tf no cr2 =
     kbind (kget (\<lambda>s. (cpuid s, myproc s))) (\<lambda>(c, po).
     kbind (tf_get tf Cs) (\<lambda>cs.
     kbind (tf_get tf Rip) (\<lambda>rip.
     kbind (tf_get tf Err) (\<lambda>err.
     case po of
       None \<Rightarrow>
         kseq (cprintf (str ''unexpected trap %d from cpu %d rip %p (cr2=0x%p)'' @ [10]) [ArgInt (ucast no), ArgInt (of_nat c), ArgPtr rip, ArgPtr cr2])
              (kpanic ''trap'')
     | Some me \<Rightarrow>
         kbind (get_proc (\<lambda>q. q) me) (\<lambda>q.
         if cs AND 3 = 0 then
           kseq (cprintf (str ''unexpected trap %d from cpu %d rip %p (cr2=0x%p)'' @ [10]) [ArgInt (ucast no), ArgInt (of_nat c), ArgPtr rip, ArgPtr cr2])
           (kseq (cprintf (str ''proc id: %d'' @ [10]) [ArgInt (p_pid q)])
                 (kpanic ''trap''))
         else
           kseq (cprintf (str ''pid %d %s: trap %d err %d on cpu %d rip 0x%p addr 0x%p--kill proc'' @ [10])
                   [ArgInt (p_pid q), proc_name q, ArgInt (ucast no), ArgInt (ucast err), ArgInt (of_nat c), ArgPtr rip, ArgPtr cr2])
                (set_proc me (\<lambda>q. q\<lparr>p_killed := True\<rparr>)))))))"

definition trap_cause :: "addr_t \<Rightarrow> uint64 \<Rightarrow> addr_t \<Rightarrow> uchar list \<Rightarrow> uchar list \<Rightarrow> ('x sys_state_scheme, unit) km" where
  "trap_cause tf no cr2 scan rx =
     (let n = unat no in
      if n = T_IRQ0 + IRQ_TIMER then timer_tick
      else if n = T_IRQ0 + IRQ_IDE then kret ()
      else if n = T_IRQ0 + IRQ_IDE + 1 then kret ()
      else if n = T_IRQ0 + IRQ_KBD then kbdintr scan
      else if n = T_IRQ0 + IRQ_COM1 then uartintr rx
      else if n = T_IRQ0 + 7 \<or> n = T_IRQ0 + IRQ_SPURIOUS then
        kbind (kget cpuid) (\<lambda>c.
        kbind (tf_get tf Cs) (\<lambda>cs.
        kbind (tf_get tf Rip) (\<lambda>rip.
        cprintf (str ''cpu%d: spurious interrupt at %p:%p'' @ [10]) [ArgInt (of_nat c), ArgPtr cs, ArgPtr rip])))
      else trap_default tf no cr2)"

text \<open>\<open>if(proc && proc->killed && (tf->cs&3) == DPL_USER) exit();\<close>, which also follows \<open>yield\<close>.\<close>

definition trap_killed :: "addr_t \<Rightarrow> ('x sys_state_scheme, unit) km" where
  "trap_killed tf =
     kbind (kget myproc) (\<lambda>po. case po of None \<Rightarrow> kret () | Some me \<Rightarrow>
     kbind (get_proc p_killed me) (\<lambda>killed.
     kbind (tf_get tf Cs) (\<lambda>cs.
     kwhen (killed \<and> cs AND 3 = DPL_USER) exit)))"

definition trap :: "addr_t \<Rightarrow> addr_t \<Rightarrow> uchar list \<Rightarrow> uchar list \<Rightarrow> ('x sys_state_scheme, unit) km" where
  "trap tf cr2 scan rx =
     kbind (tf_get tf Trapno) (\<lambda>no.
     kseq (trap_cause tf no cr2 scan rx)
     (kseq (trap_killed tf)
     (kbind (kget myproc) (\<lambda>po.
      kseq (case po of None \<Rightarrow> kret () | Some me \<Rightarrow>
              kbind (get_proc p_state me) (\<lambda>st.
              kwhen (st = RUNNING \<and> unat no = T_IRQ0 + IRQ_TIMER) yield))
           (trap_killed tf)))))"

definition trap_return :: "addr_t \<Rightarrow> ('x sys_state_scheme, unit) km" where
  "trap_return tf = kseq yield_return (trap_killed tf)"

end
