(* ===== verification/Keyboard.thy ===== *)
theory Keyboard
  imports Trap
begin

text \<open>
  The keyboard decoder against an abstract keyboard: one flag per modifier, driven by make and break
  codes. The flags are the bits of the static variable \<open>shift\<close> in \<^verbatim>\<open>kbd.c\<close>.
\<close>

unbundle bit_operations_syntax

section \<open>The abstract keyboard\<close>

record keyboard =
  kb_shift :: bool
  kb_ctl :: bool
  kb_alt :: bool
  kb_caps :: bool
  kb_num :: bool
  kb_scroll :: bool
  kb_esc :: bool

definition kb_of :: "uint \<Rightarrow> keyboard" where
  "kb_of sh = \<lparr>kb_shift = bit sh 0, kb_ctl = bit sh 1, kb_alt = bit sh 2, kb_caps = bit sh 3, kb_num = bit sh 4,
     kb_scroll = bit sh 5, kb_esc = bit sh 6\<rparr>"

text \<open>
  A byte is the escape prefix, a break code (\<open>128\<close> and up) or a make code. Control and Alt have an escaped
  twin on the right of the keyboard; the escaped Shift codes some keys send are not Shift, nor are the
  escaped lock codes locks.
\<close>

definition kb_step :: "nat \<Rightarrow> keyboard \<Rightarrow> keyboard" where
  "kb_step d k =
     (if d = 0xE0 then k\<lparr>kb_esc := True\<rparr>
      else if d \<ge> 0x80 then
        k\<lparr>kb_shift := kb_shift k \<and> (kb_esc k \<or> d \<noteq> 0xAA \<and> d \<noteq> 0xB6),
          kb_ctl := kb_ctl k \<and> d \<noteq> 0x9D, kb_alt := kb_alt k \<and> d \<noteq> 0xB8, kb_esc := False\<rparr>
      else
        k\<lparr>kb_shift := kb_shift k \<or> \<not> kb_esc k \<and> (d = 0x2A \<or> d = 0x36),
          kb_ctl := kb_ctl k \<or> d = 0x1D, kb_alt := kb_alt k \<or> d = 0x38,
          kb_caps := kb_caps k \<noteq> (\<not> kb_esc k \<and> d = 0x3A), kb_num := kb_num k \<noteq> (\<not> kb_esc k \<and> d = 0x45),
          kb_scroll := kb_scroll k \<noteq> (\<not> kb_esc k \<and> d = 0x46), kb_esc := False\<rparr>)"

section \<open>Codes\<close>

lemma shift_flags:
  "bit SHIFT n \<longleftrightarrow> n = 0" "bit CTL n \<longleftrightarrow> n = 1" "bit ALT n \<longleftrightarrow> n = 2" "bit CAPSLOCK n \<longleftrightarrow> n = 3"
  "bit NUMLOCK n \<longleftrightarrow> n = 4" "bit SCROLLLOCK n \<longleftrightarrow> n = 5" "bit E0ESC n \<longleftrightarrow> n = 6"
proof -
  have p: "bit ((2 :: uint) ^ k) n \<longleftrightarrow> n = k" if "k < 32" for k using that by (auto simp: bit_exp_iff)
  show "bit SHIFT n \<longleftrightarrow> n = 0" "bit CTL n \<longleftrightarrow> n = 1" "bit ALT n \<longleftrightarrow> n = 2" "bit CAPSLOCK n \<longleftrightarrow> n = 3"
    "bit NUMLOCK n \<longleftrightarrow> n = 4" "bit SCROLLLOCK n \<longleftrightarrow> n = 5" "bit E0ESC n \<longleftrightarrow> n = 6"
    using p[of 0] p[of 1] p[of 2] p[of 3] p[of 4] p[of 5] p[of 6]
    by (simp_all add: SHIFT_def CTL_def ALT_def CAPSLOCK_def NUMLOCK_def SCROLLLOCK_def E0ESC_def)
qed

lemma and_flag: "(sh :: uint) AND E0ESC \<noteq> 0 \<longleftrightarrow> bit sh 6"
  by (simp only: bit_eq_iff[of "sh AND E0ESC" 0]) (auto simp: bit_and_iff shift_flags)

lemma byte_bit7: "bit (x :: uchar) 7 \<longleftrightarrow> 0x80 \<le> unat x"
proof -
  have "bit x 7 \<longleftrightarrow> odd (unat x div 2 ^ 7)" 
    using bit_unsigned_iff[of x 7, where ?'a = nat] by (simp add: bit_iff_odd[of "unat x"])
  moreover have "unat x div 2 ^ 7 = (if 0x80 \<le> unat x then 1 else 0)"
    using unsigned_less[of x, where ?'a = nat] by (auto intro: div_nat_eqI)
  ultimately show ?thesis by simp
qed

lemma high_flag: "bit (0x80 :: uchar) n \<longleftrightarrow> n = 7"
  using bit_exp_iff[of 7 n, where ?'a = uchar] by auto

lemma high_bit: "(x :: uchar) AND 0x80 \<noteq> 0 \<longleftrightarrow> 0x80 \<le> unat x"
  unfolding byte_bit7[symmetric] by (simp only: bit_eq_iff[of "x AND 0x80" 0] bit_and_iff high_flag) auto

lemma low_bits: "unat ((x :: uchar) AND 0x7F) = unat x mod 0x80" "unat x < 0x80 \<Longrightarrow> unat (x OR 0x80) = unat x + 0x80"
proof -
  have "x AND 0x7F = take_bit 7 x" by (simp add: take_bit_eq_mask mask_eq_exp_minus_1)
  then show "unat (x AND 0x7F) = unat x mod 0x80" 
    by (simp only: unsigned_take_bit_eq) (simp add: take_bit_eq_mod)
  assume x: "unat x < 0x80"
  then have "x AND 0x80 = 0" using high_bit[of x] by auto
  then have "x OR 0x80 = x + 0x80" by (simp add: disjunctive_add_eq_or)
  then show "unat (x OR 0x80) = unat x + 0x80" 
    using x unat_add_lem[of x "0x80"] by simp
qed

lemma shiftcode_bit:
  "bit (shiftcode d) n \<longleftrightarrow> (n = 0 \<and> (d = 0x2A \<or> d = 0x36)) \<or> (n = 1 \<and> (d = 0x1D \<or> d = 0x9D)) \<or> (n = 2 \<and> (d = 0x38 \<or> d = 0xB8))"
  by (simp add: shiftcode_def shift_flags)

lemma togglecode_bit:
  "bit (togglecode d) n \<longleftrightarrow> (n = 3 \<and> d = 0x3A) \<or> (n = 4 \<and> d = 0x45) \<or> (n = 5 \<and> d = 0x46)"
  by (simp add: togglecode_def shift_flags)

lemmas key_bits = shiftcode_bit togglecode_bit shift_flags bit_and_iff bit_or_iff bit_xor_iff bit_not_iff

text \<open>Only the seven flags are ever set.\<close>

definition kb_flags :: "uint \<Rightarrow> bool" where
  "kb_flags sh \<longleftrightarrow> (\<forall>n. bit sh n \<longrightarrow> n < 7)"

text \<open>The result of the decoder is always an entry of one of the maps, as a byte.\<close>

lemma kbd_map_byte: "list_all (\<lambda>x. x < 256) base \<Longrightarrow> e < 256 \<Longrightarrow> k < 256 \<Longrightarrow> kbd_map base e k d < 256"
  by (simp add: kbd_map_def list_all_length)

lemma charcode_byte: "charcode k d < 256"
  by (simp add: charcode_def normalmap_def shiftmap_def ctlmap_def kbd_map_byte)

lemma kbdgetc_byte: "snd (kbdgetc sh dat) < 256"
  using charcode_byte by (auto simp: kbdgetc_def Let_def split: prod.splits if_splits intro: le_less_trans[OF diff_le_self])

lemma kbdgetc_flags: "kb_flags sh \<Longrightarrow> kb_flags (fst (kbdgetc sh dat))"
  by (auto simp: kb_flags_def kbdgetc_def Let_def key_bits split: prod.splits if_splits)

lemma kbdgetc_shift:
  "fst (kbdgetc sh dat) =
     (let d = unat dat in
      if d = 0xE0 then sh OR E0ESC
      else if 0x80 \<le> d then sh AND NOT (shiftcode (if bit sh 6 then d else d - 0x80) OR E0ESC)
      else if bit sh 6 then ((sh AND NOT E0ESC) OR shiftcode (d + 0x80)) XOR togglecode (d + 0x80)
      else (sh OR shiftcode d) XOR togglecode d)"
proof -
  have "unat dat mod 0x80 = unat dat - 0x80" if "0x80 \<le> unat dat"
    using that unsigned_less[of dat, where ?'a = nat] by (simp add: le_mod_geq)
  then show ?thesis
    by (simp add: kbdgetc_def Let_def high_bit and_flag low_bits)
qed

lemma kbdgetc_step: "kb_of (fst (kbdgetc sh dat)) = kb_step (unat dat) (kb_of sh)"
proof -
  define d where "d = unat dat"
  have n: "d < 256" using unsigned_less[of dat, where ?'a = nat] by (simp add: d_def)
  show ?thesis
    unfolding kbdgetc_shift d_def[symmetric] Let_def kb_of_def kb_step_def using n
    by (auto simp: key_bits)
qed

section \<open>Every sequence of scan codes\<close>

text \<open>
  Claim C22. Whatever bytes the keyboard sends, the decoder stays within its types: \<open>shift\<close> carries no
  bit but the seven flags, every byte gives one key code below 256, which is an entry of the maps, and the
  flags are those of the abstract keyboard after the same bytes.
\<close>

theorem kbd_keys_typed:
  assumes "kb_flags sh"
  shows "let (sh', cs) = kbd_keys sh ds in
    kb_flags sh' \<and> length cs = length ds \<and> (\<forall>c \<in> set cs. c < 256) \<and> kb_of sh' = fold kb_step (map unat ds) (kb_of sh)"
  using assms
proof (induction ds arbitrary: sh)
  case (Cons d ds)
  show ?case
    using Cons.IH[OF kbdgetc_flags[OF Cons.prems, of d]] kbdgetc_byte[of sh d] kbdgetc_step[of sh d]
    by (simp add: Let_def case_prod_beta)
qed simp

text \<open>Shift down, A, shift up, A, with Caps Lock off.\<close>

theorem kbd_keys_typed_witness:
  "kb_flags 0 \<and> (let (sh', cs) = kbd_keys 0 [0x2A, 0x1E, 0xAA, 0x1E] in
     kb_flags sh' \<and> length cs = 4 \<and> (\<forall>c \<in> set cs. c < 256) \<and> \<not> kb_shift (kb_of sh'))"
proof -
  have f: "kb_flags 0" by (simp add: kb_flags_def)
  then show ?thesis
    using kbd_keys_typed[of 0 "[0x2A, 0x1E, 0xAA, 0x1E]"] by (simp add: case_prod_beta Let_def kb_step_def kb_of_def)
qed

end
