(* ===== verification/Machine.thy ===== *)
theory Machine
  imports Trap
begin

text \<open>
  The machine around the kernel: the serial port's setup (\<^verbatim>\<open>uart.c\<close>), the interrupt controllers
  (\<^verbatim>\<open>ioapic.c\<close>, \<^verbatim>\<open>lapic.c\<close>), the search for processors (\<^verbatim>\<open>mp.c\<close>), the clock and the boot sequence
  (\<^verbatim>\<open>main.c\<close>). What the kernel writes to a device is recorded in order; what a device answers is part of the
  state: the bytes coming on each port, and the registers of the two interrupt controllers. Waiting for a
  device that never answers is \<open>ESpin\<close>.
\<close>

unbundle bit_operations_syntax

section \<open>Ports and registers (x86.h)\<close>

datatype ioev = OutB nat uchar | OutSL nat "uchar list" | LapicW nat uint

record io_state = sys_state +
  port_in :: "nat \<Rightarrow> uchar list"
  io_trace :: "ioev list"
  ioapic_regs :: "nat \<Rightarrow> uint"
  lapic :: addr_t              \<comment> \<open>0 until \<open>mpinit\<close> finds it\<close>
  lapic_regs :: "nat \<Rightarrow> uint"   \<comment> \<open>what a read of \<open>lapic[i]\<close> returns\<close>
  ncpu :: nat
  apicids :: "nat \<Rightarrow> uchar"
  cpu_started :: "nat \<Rightarrow> bool"
  ioapicid :: uchar
  cpunum_warned :: bool         \<comment> \<open>the static \<open>n\<close> of \<open>cpunum\<close> is not 0\<close>

definition io_emit :: "ioev \<Rightarrow> ('x io_state_scheme, unit) km" where
  "io_emit e = kmod (\<lambda>s. s\<lparr>io_trace := io_trace s @ [e]\<rparr>)"

definition outb :: "nat \<Rightarrow> uchar \<Rightarrow> ('x io_state_scheme, unit) km" where
  "outb port dat = io_emit (OutB port dat)"

definition inb :: "nat \<Rightarrow> ('x io_state_scheme, uchar) km" where
  "inb port = kbind (kget (\<lambda>s. port_in s port)) (\<lambda>bs. case bs of
     [] \<Rightarrow> (\<lambda>_. Fail ESpin)
   | b # bs' \<Rightarrow> kseq (kmod (\<lambda>s. s\<lparr>port_in := (port_in s)(port := bs')\<rparr>)) (kret b))"

definition outsl :: "nat \<Rightarrow> uchar list \<Rightarrow> ('x io_state_scheme, unit) km" where
  "outsl port bs = io_emit (OutSL port bs)"

text \<open>\<open>insl\<close> of \<open>n\<close> bytes.\<close>

definition insl :: "nat \<Rightarrow> nat \<Rightarrow> ('x io_state_scheme, uchar list) km" where
  "insl port n = kbind (kget (\<lambda>s. port_in s port)) (\<lambda>bs.
     if length bs < n then (\<lambda>_. Fail ESpin)
     else kseq (kmod (\<lambda>s. s\<lparr>port_in := (port_in s)(port := drop n bs)\<rparr>)) (kret (take n bs)))"

section \<open>The I/O interrupt controller (ioapic.c)\<close>

definition REG_ID :: nat where "REG_ID = 0"
definition REG_VER :: nat where "REG_VER = 1"
definition REG_TABLE :: nat where "REG_TABLE = 0x10"
definition INT_DISABLED :: uint where "INT_DISABLED = 0x10000"

definition ioapicread :: "nat \<Rightarrow> ('x io_state_scheme, uint) km" where
  "ioapicread reg = kget (\<lambda>s. ioapic_regs s reg)"

definition ioapicwrite :: "nat \<Rightarrow> uint \<Rightarrow> ('x io_state_scheme, unit) km" where
  "ioapicwrite reg dat = kmod (\<lambda>s. s\<lparr>ioapic_regs := (ioapic_regs s)(reg := dat)\<rparr>)"

definition ioapicinit :: "('x io_state_scheme, unit) km" where
  "ioapicinit =
     kbind (ioapicread REG_VER) (\<lambda>ver.
     kbind (ioapicread REG_ID) (\<lambda>rid.
     kbind (kget ioapicid) (\<lambda>me.
     kseq (kwhen (drop_bit 24 rid \<noteq> ucast me)
             (cprintf (str ''ioapicinit: id isn't equal to ioapicid; not a MP'' @ [10]) []))
          (kfor (\<lambda>i. kseq (ioapicwrite (REG_TABLE + 2 * i) (INT_DISABLED OR of_nat (T_IRQ0 + i)))
                          (ioapicwrite (REG_TABLE + 2 * i + 1) 0))
             [0..<unat (drop_bit 16 ver AND 0xFF) + 1]))))"

definition ioapicenable :: "nat \<Rightarrow> uint \<Rightarrow> ('x io_state_scheme, unit) km" where
  "ioapicenable irq c =
     kseq (ioapicwrite (REG_TABLE + 2 * irq) (of_nat (T_IRQ0 + irq)))
          (ioapicwrite (REG_TABLE + 2 * irq + 1) (push_bit 24 c))"

section \<open>The serial port's setup (uart.c)\<close>

definition COM1 :: nat where "COM1 = 0x3f8"

definition uartearlyinit :: "('x io_state_scheme, unit) km" where
  "uartearlyinit =
     kseq (outb (COM1 + 2) 0)
     (kseq (outb (COM1 + 3) 0x80)
     (kseq (outb COM1 (of_nat (115200 div 9600)))
     (kseq (outb (COM1 + 1) 0)
     (kseq (outb (COM1 + 3) 0x03)
     (kseq (outb (COM1 + 4) 0)
     (kseq (outb (COM1 + 1) 0x01)
     (kbind (inb (COM1 + 5)) (\<lambda>st.
      if st = 0xFF then kret ()
      else kseq (kmod (\<lambda>s. s\<lparr>uart := True\<rparr>))
                (kfor (\<lambda>c. uartputc (unat c)) (str ''xv6...'' @ [10]))))))))))"

definition uartinit :: "('x io_state_scheme, unit) km" where
  "uartinit =
     kbind (kget uart) (\<lambda>u.
     kwhen u
       (kbind (inb (COM1 + 2)) (\<lambda>_.
        kbind (inb COM1) (\<lambda>_.
        ioapicenable IRQ_COM1 0))))"

section \<open>The local interrupt controller (lapic.c)\<close>

text \<open>Register indices, as \<open>uint\<close> array indices.\<close>

definition LAPIC_ID :: nat where "LAPIC_ID = 0x20 div 4"
definition LAPIC_VER :: nat where "LAPIC_VER = 0x30 div 4"
definition LAPIC_TPR :: nat where "LAPIC_TPR = 0x80 div 4"
definition LAPIC_EOI :: nat where "LAPIC_EOI = 0xB0 div 4"
definition LAPIC_SVR :: nat where "LAPIC_SVR = 0xF0 div 4"
definition LAPIC_ESR :: nat where "LAPIC_ESR = 0x280 div 4"
definition LAPIC_ICRLO :: nat where "LAPIC_ICRLO = 0x300 div 4"
definition LAPIC_ICRHI :: nat where "LAPIC_ICRHI = 0x310 div 4"
definition LAPIC_TIMER :: nat where "LAPIC_TIMER = 0x320 div 4"
definition LAPIC_PCINT :: nat where "LAPIC_PCINT = 0x340 div 4"
definition LAPIC_LINT0 :: nat where "LAPIC_LINT0 = 0x350 div 4"
definition LAPIC_LINT1 :: nat where "LAPIC_LINT1 = 0x360 div 4"
definition LAPIC_ERROR :: nat where "LAPIC_ERROR = 0x370 div 4"
definition LAPIC_TICR :: nat where "LAPIC_TICR = 0x380 div 4"
definition LAPIC_TDCR :: nat where "LAPIC_TDCR = 0x3E0 div 4"
definition IRQ_ERROR :: nat where "IRQ_ERROR = 19"

definition lapicw :: "nat \<Rightarrow> uint \<Rightarrow> ('x io_state_scheme, unit) km" where
  "lapicw index v = io_emit (LapicW index v)"

text \<open>
  The last wait polls the delivery status; the controller's answer is \<open>lapic_regs\<close>, and if the bit never
  clears the loop never ends.
\<close>

definition lapicinit :: "('x io_state_scheme, unit) km" where
  "lapicinit =
     kbind (kget (\<lambda>s. s)) (\<lambda>s0.
     if lapic s0 = 0 then kret ()
     else
       kseq (lapicw LAPIC_SVR (0x100 OR of_nat (T_IRQ0 + IRQ_SPURIOUS)))
       (kseq (lapicw LAPIC_TDCR 0xB)
       (kseq (lapicw LAPIC_TIMER (0x20000 OR of_nat (T_IRQ0 + IRQ_TIMER)))
       (kseq (lapicw LAPIC_TICR 10000000)
       (kseq (lapicw LAPIC_LINT0 0x10000)
       (kseq (lapicw LAPIC_LINT1 0x10000)
       (kseq (kwhen (drop_bit 16 (lapic_regs s0 LAPIC_VER) AND 0xFF \<ge> 4) (lapicw LAPIC_PCINT 0x10000))
       (kseq (lapicw LAPIC_ERROR (of_nat (T_IRQ0 + IRQ_ERROR)))
       (kseq (lapicw LAPIC_ESR 0)
       (kseq (lapicw LAPIC_ESR 0)
       (kseq (lapicw LAPIC_EOI 0)
       (kseq (lapicw LAPIC_ICRHI 0)
       (kseq (lapicw LAPIC_ICRLO (0x80000 OR 0x500 OR 0x8000))
       (if lapic_regs s0 LAPIC_ICRLO AND 0x1000 \<noteq> 0 then (\<lambda>_. Fail ESpin)
        else lapicw LAPIC_TPR 0))))))))))))))"

text \<open>\<open>ra\<close> is the return address the warning prints.\<close>

definition cpunum :: "addr_t \<Rightarrow> ('x io_state_scheme, nat) km" where
  "cpunum ra =
     kseq (kbind (kget (\<lambda>s. (if_flag (cpus s (cpuid s)), cpunum_warned s))) (\<lambda>(ie, w).
           kwhen ie
             (kseq (kmod (\<lambda>s. s\<lparr>cpunum_warned := True\<rparr>))
                   (kwhen (\<not> w) (cprintf (str ''cpu called from %x with interrupts enabled'' @ [10]) [ArgHex (ucast ra)])))))
     (kbind (kget (\<lambda>s. s)) (\<lambda>s.
      if lapic s = 0 then kret 0
      else case find (\<lambda>i. ucast (apicids s i) = drop_bit 24 (lapic_regs s LAPIC_ID)) [0..<ncpu s] of
          Some i \<Rightarrow> kret i
        | None \<Rightarrow> kpanic (''unknown apicid'' @ [CHR 0x0A])))"

definition lapiceoi :: "('x io_state_scheme, unit) km" where
  "lapiceoi = kbind (kget lapic) (\<lambda>l. kwhen (l \<noteq> 0) (lapicw LAPIC_EOI 0))"

definition lapicstartap :: "uchar \<Rightarrow> uint \<Rightarrow> ('x io_state_scheme, unit) km" where
  "lapicstartap apicid addr =
     kseq (outb 0x70 0xF)
     (kseq (outb 0x71 0x0A)
     (kseq (kmod (\<lambda>s. s\<lparr>mem := store_bytes (mem s) (P2V 0x467) (le_put 2 (0 :: ushort) @ le_put 2 (ucast (drop_bit 4 addr) :: ushort))\<rparr>))
     (kseq (lapicw LAPIC_ICRHI (push_bit 24 (ucast apicid)))
     (kseq (lapicw LAPIC_ICRLO (0x500 OR 0x8000 OR 0x4000))
     (kseq (lapicw LAPIC_ICRLO (0x500 OR 0x8000))
           (kfor (\<lambda>_. kseq (lapicw LAPIC_ICRHI (push_bit 24 (ucast apicid)))
                           (lapicw LAPIC_ICRLO (0x600 OR drop_bit 12 addr))) [0..<2 :: nat]))))))"

section \<open>The clock (date.h, lapic.c)\<close>

record rtcdate =
  second :: uint
  minute :: uint
  hour :: uint
  day :: uint
  month :: uint
  year :: uint

definition cmos_read :: "uchar \<Rightarrow> ('x io_state_scheme, uint) km" where
  "cmos_read reg = kseq (outb 0x70 reg) (kbind (inb 0x71) (\<lambda>b. kret (ucast b)))"

definition fill_rtcdate :: "('x io_state_scheme, rtcdate) km" where
  "fill_rtcdate =
     kbind (cmos_read 0) (\<lambda>sec. kbind (cmos_read 2) (\<lambda>mn. kbind (cmos_read 4) (\<lambda>h.
     kbind (cmos_read 7) (\<lambda>d. kbind (cmos_read 8) (\<lambda>mo. kbind (cmos_read 9) (\<lambda>y.
     kret \<lparr>second = sec, minute = mn, hour = h, day = d, month = mo, year = y\<rparr>))))))"

text \<open>The loop that reads the clock until two readings agree; every turn consumes answers of the clock.\<close>

primrec cmos_loop :: "nat \<Rightarrow> ('x io_state_scheme, rtcdate) km" where
  "cmos_loop 0 = (\<lambda>_. Fail ESpin)"
| "cmos_loop (Suc fuel) =
     kbind fill_rtcdate (\<lambda>t1.
     kbind (cmos_read 0x0a) (\<lambda>sta.
     if sta AND 0x80 \<noteq> 0 then cmos_loop fuel
     else kbind fill_rtcdate (\<lambda>t2. if t1 = t2 then kret t1 else cmos_loop fuel)))"

definition bcd_conv :: "uint \<Rightarrow> uint" where
  "bcd_conv x = drop_bit 4 x * 10 + (x AND 0xf)"

definition cmostime :: "('x io_state_scheme, rtcdate) km" where
  "cmostime =
     kbind (cmos_read 0x0b) (\<lambda>stb.
     kbind (kget (\<lambda>s. length (port_in s 0x71))) (\<lambda>n.
     kbind (cmos_loop (Suc n)) (\<lambda>t1.
     let t = (if stb AND 4 = 0 then
                \<lparr>second = bcd_conv (second t1), minute = bcd_conv (minute t1), hour = bcd_conv (hour t1),
                 day = bcd_conv (day t1), month = bcd_conv (month t1), year = bcd_conv (year t1)\<rparr>
              else t1) in
     kret (t\<lparr>year := year t + 2000\<rparr>))))"

section \<open>Other processors (mp.h, mp.c)\<close>

definition sum_bytes :: "memory \<Rightarrow> addr_t \<Rightarrow> nat \<Rightarrow> uchar" where
  "sum_bytes m a n = sum_list (load_bytes m a n)"

definition mpsearch1 :: "memory \<Rightarrow> addr_t \<Rightarrow> nat \<Rightarrow> addr_t option" where
  "mpsearch1 m a len =
     find (\<lambda>p. load_bytes m p 4 = str ''_MP_'' \<and> sum_bytes m p 16 = 0)
       (map (\<lambda>k. P2V a + of_nat (16 * k)) [0..<(len + 15) div 16])"

definition mpsearch :: "memory \<Rightarrow> addr_t option" where
  "mpsearch m =
     (let bda = P2V 0x400;
          p = push_bit 4 (push_bit 8 (ucast (m (bda + 0x0F)) :: uint) OR ucast (m (bda + 0x0E)));
          q = (push_bit 8 (ucast (m (bda + 0x14)) :: uint) OR ucast (m (bda + 0x13))) * 1024;
          first = (if p \<noteq> 0 then mpsearch1 m (ucast p) 1024 else mpsearch1 m (ucast (q - 1024)) 1024) in
      case first of Some mp \<Rightarrow> Some mp | None \<Rightarrow> mpsearch1 m 0xF0000 0x10000)"

definition mpconfig :: "memory \<Rightarrow> (addr_t \<times> addr_t) option" where
  "mpconfig m =
     (case mpsearch m of None \<Rightarrow> None | Some mp \<Rightarrow>
      let physaddr = (le_get (load_bytes m (mp + 4) 4) :: uint); conf = P2V (ucast physaddr) in
      if physaddr = 0 then None
      else if load_bytes m conf 4 \<noteq> str ''PCMP'' then None
      else if m (conf + 6) \<noteq> 1 \<and> m (conf + 6) \<noteq> 4 then None
      else if sum_bytes m conf (unat (le_get (load_bytes m (conf + 4) 2) :: ushort)) \<noteq> 0 then None
      else Some (mp, conf))"

definition NCPU :: nat where "NCPU = 8"

text \<open>The table entries from \<open>p\<close> on, with \<open>n\<close> bytes to the end of the table.\<close>

function mp_entries :: "addr_t \<Rightarrow> nat \<Rightarrow> ('x io_state_scheme, unit) km" where
  "mp_entries p n =
     (if n = 0 then kret ()
      else kbind (kget (\<lambda>s. mem s)) (\<lambda>m.
        if m p = 0 then
          kseq (kmod (\<lambda>s. if ncpu s < NCPU then s\<lparr>apicids := (apicids s)(ncpu s := m (p + 1)), ncpu := ncpu s + 1\<rparr> else s))
               (mp_entries (p + 20) (n - 20))
        else if m p = 2 then
          kseq (kmod (\<lambda>s. s\<lparr>ioapicid := m (p + 1)\<rparr>)) (mp_entries (p + 8) (n - 8))
        else if m p = 1 \<or> m p = 3 \<or> m p = 4 then mp_entries (p + 8) (n - 8)
        else kpanic ''Major problem parsing mp config.''))"
  by pat_completeness auto
termination
  by (relation "measure (\<lambda>(_, n). n)") auto

declare mp_entries.simps [simp del]

definition mpinit :: "('x io_state_scheme, unit) km" where
  "mpinit =
     kbind (kget (\<lambda>s. mem s)) (\<lambda>m.
     case mpconfig m of
       None \<Rightarrow> cprintf (str ''No other CPUs found.'' @ [10]) []
     | Some (mp, conf) \<Rightarrow>
         kseq (kmod (\<lambda>s. s\<lparr>lapic := P2V (ucast (le_get (load_bytes m (conf + 36) 4) :: uint))\<rparr>))
         (kseq (mp_entries (conf + 44) (unat (le_get (load_bytes m (conf + 4) 2) :: ushort) - 44))
         (kseq (kbind (kget ncpu) (\<lambda>n. cprintf (str ''Seems we are SMP, ncpu = %d'' @ [10]) [ArgInt (of_nat n)]))
               (kwhen (m (mp + 12) \<noteq> 0)
                  (kseq (outb 0x22 0x70)
                        (kbind (inb 0x23) (\<lambda>b. outb 0x23 (b OR 1))))))))"

section \<open>Boot (main.c)\<close>

text \<open>
  \<open>startothers\<close>: \<open>code\<close> is the linked image of \<^verbatim>\<open>entryother.S\<close> and \<open>ent\<close> the address of \<open>entry32mp\<close>. The wait
  for the processor ends when it has set \<open>started\<close>.
\<close>

definition startothers :: "uchar list \<Rightarrow> addr_t \<Rightarrow> ('x io_state_scheme, unit) km" where
  "startothers code ent =
     kseq (kmod (\<lambda>s. s\<lparr>mem := store_bytes (mem s) (P2V 0x7000) code\<rparr>))
     (kbind (kget ncpu) (\<lambda>n.
      kfor (\<lambda>c.
        kbind (cpunum 0) (\<lambda>me.
        kwhen (c \<noteq> me)
          (kbind kalloc (\<lambda>stack.
           kseq (kmod (\<lambda>s. s\<lparr>mem := store_bytes (mem s) (P2V 0x7000 - 4) (le_put 4 (0x8000 :: uint))\<rparr>))
           (kseq (kmod (\<lambda>s. s\<lparr>mem := store_bytes (mem s) (P2V 0x7000 - 8) (le_put 4 (ucast (V2P ent) :: uint))\<rparr>))
           (kseq (kmod (\<lambda>s. s\<lparr>mem := store64 (mem s) (P2V 0x7000 - 16) (stack + 4096)\<rparr>))
           (kbind (kget (\<lambda>s. apicids s c)) (\<lambda>a.
            kseq (lapicstartap a 0x7000)
            (kbind (kget (\<lambda>s. cpu_started s c)) (\<lambda>up.
             if up then kret () else (\<lambda>_. Fail ESpin)))))))))))
        [0..<n]))"

text \<open>
  \<open>mpmain\<close> up to the call of \<open>scheduler\<close>, whose passes are \<open>sched_round\<close>. Loading the interrupt table, the
  system call registers and the segment registers changes nothing that is modelled.
\<close>

definition mpmain :: "('x io_state_scheme, unit) km" where
  "mpmain =
     kbind (cpunum 0) (\<lambda>c.
     kseq (cprintf (str ''cpu%d: starting'' @ [10]) [ArgInt (of_nat c)])
          (kmod (\<lambda>s. s\<lparr>cpu_started := (cpu_started s)(cpuid s := True)\<rparr>)))"

definition mpenter :: "('x io_state_scheme, unit) km" where
  "mpenter = kseq switchkvm (kseq lapicinit mpmain)"

text \<open>The arguments are what the linker and the build provide: the disk image, the code of the first
  process, the trap vectors, and the start code of the other processors.\<close>

definition kmain :: "uchar list \<Rightarrow> uchar list \<Rightarrow> (nat \<Rightarrow> addr_t) \<Rightarrow> uchar list \<Rightarrow> addr_t \<Rightarrow> ('x io_state_scheme, unit) km" where
  "kmain img initcode vectors entryother ent =
     kseq uartearlyinit
     (kseq (kbind (kget kend) (\<lambda>e. kinit1 e (P2V PHYSTOP)))
     (kseq kvmalloc
     (kseq mpinit
     (kseq lapicinit
     (kseq (tvinit vectors)
     (kseq (kbind (cpunum 0) (\<lambda>c. cprintf ([10] @ str ''cpu%d: starting Fall 2025 xv6'' @ [10, 10]) [ArgInt (of_nat c)]))
     (kseq ioapicinit
     (kseq (kseq consoleinit (ioapicenable IRQ_KBD 0))
     (kseq uartinit
     (kseq pinit
     (kseq binit
     (kseq fileinit
     (kseq (ideinit img)
     (kseq (startothers entryother ent)
     (kseq kinit2
     (kseq (userinit initcode)
           mpmain))))))))))))))))"

end
