(* ===== verification/Ide.thy ===== *)
theory Ide
  imports Machine
begin

text \<open>
  \<^verbatim>\<open>ide.c\<close>, the driver for a real disk, which takes the place of \<^verbatim>\<open>memide.c\<close> in the standard kernel. Requests
  wait in a queue linked through \<open>qnext\<close>; the first one is active. The names are prefixed with \<open>ide_\<close> where
  \<^verbatim>\<open>memide.c\<close> has the same function. The drive answers on its ports: the status on \<open>0x1f7\<close>, the data on \<open>0x1f0\<close>.
\<close>

unbundle bit_operations_syntax

section \<open>Waiting for the drive\<close>

record ide_state = io_state +
  idequeue :: "nat option"
  qnext :: "nat \<Rightarrow> nat option"
  havedisk1 :: bool

definition SECTOR_SIZE :: nat where "SECTOR_SIZE = 512"
definition IDE_BSY :: uchar where "IDE_BSY = 0x80"
definition IDE_DRDY :: uchar where "IDE_DRDY = 0x40"
definition IDE_DF :: uchar where "IDE_DF = 0x20"
definition IDE_ERR :: uchar where "IDE_ERR = 0x01"
definition IDE_CMD_READ :: uchar where "IDE_CMD_READ = 0x20"
definition IDE_CMD_WRITE :: uchar where "IDE_CMD_WRITE = 0x30"
definition IDE_CMD_RDMUL :: uchar where "IDE_CMD_RDMUL = 0xc4"
definition IDE_CMD_WRMUL :: uchar where "IDE_CMD_WRMUL = 0xc5"

text \<open>The polls of \<open>idewait\<close>: the first status with \<open>IDE_BSY\<close> clear and \<open>IDE_DRDY\<close> set, and what follows it.\<close>

primrec ide_poll :: "uchar list \<Rightarrow> (uchar \<times> uchar list) option" where
  "ide_poll [] = None"
| "ide_poll (r # rs) = (if r AND (IDE_BSY OR IDE_DRDY) = IDE_DRDY then Some (r, rs) else ide_poll rs)"

definition idewait :: "bool \<Rightarrow> ('x ide_state_scheme, int) km" where
  "idewait checkerr =
     kbind (kget (\<lambda>s. port_in s 0x1f7)) (\<lambda>st. case ide_poll st of
       None \<Rightarrow> (\<lambda>_. Fail ESpin)
     | Some (r, rest) \<Rightarrow>
         kseq (kmod (\<lambda>s. s\<lparr>port_in := (port_in s)(0x1f7 := rest)\<rparr>))
              (kret (if checkerr \<and> r AND (IDE_DF OR IDE_ERR) \<noteq> 0 then - 1 else 0)))"

definition ide_ideinit :: "('x ide_state_scheme, unit) km" where
  "ide_ideinit =
     kseq (initlock IdeLock ''ide'')
     (kseq (kbind (kget ncpu) (\<lambda>n. ioapicenable IRQ_IDE (of_nat n - 1)))
     (kbind (idewait False) (\<lambda>_.
      kseq (outb 0x1f6 (0xe0 OR push_bit 4 1))
      (kbind (kloop (\<lambda>_. kbind (inb 0x1f7) (\<lambda>b. kret (if b \<noteq> 0 then Some () else None))) [0..<1000 :: nat]) (\<lambda>r.
       kseq (kwhen (r \<noteq> None) (kmod (\<lambda>s. s\<lparr>havedisk1 := True\<rparr>)))
            (outb 0x1f6 (0xe0 OR push_bit 4 0)))))))"

section \<open>Requests\<close>

definition idestart :: "nat \<Rightarrow> ('x ide_state_scheme, unit) km" where
  "idestart b =
     kbind (get_buf (\<lambda>x. x) b) (\<lambda>x.
     if b_no x \<ge> FSSIZE then kpanic ''incorrect blockno''
     else let sector_per_block = BSIZE div SECTOR_SIZE;
              sector = (of_nat (b_no x * sector_per_block) :: uint);
              read_cmd = (if sector_per_block = 1 then IDE_CMD_READ else IDE_CMD_RDMUL);
              write_cmd = (if sector_per_block = 1 then IDE_CMD_WRITE else IDE_CMD_WRMUL) in
       if sector_per_block > 7 then kpanic ''idestart''
       else kbind (idewait False) (\<lambda>_.
       kseq (outb 0x3f6 0)
       (kseq (outb 0x1f2 (of_nat sector_per_block))
       (kseq (outb 0x1f3 (ucast (sector AND 0xff)))
       (kseq (outb 0x1f4 (ucast (drop_bit 8 sector AND 0xff)))
       (kseq (outb 0x1f5 (ucast (drop_bit 16 sector AND 0xff)))
       (kseq (outb 0x1f6 (ucast (0xe0 OR push_bit 4 (b_dev x AND 1) OR (drop_bit 24 sector AND 0x0f))))
       (if b_dirty x then kseq (outb 0x1f7 write_cmd) (outsl 0x1f0 (b_data x))
        else outb 0x1f7 read_cmd))))))))"

definition ideintr :: "('x ide_state_scheme, unit) km" where
  "ideintr =
     kseq (acquire IdeLock)
     (kbind (kget idequeue) (\<lambda>q. case q of
        None \<Rightarrow> release IdeLock
      | Some b \<Rightarrow>
          kseq (kmod (\<lambda>s. s\<lparr>idequeue := qnext s b\<rparr>))
          (kseq (kbind (get_buf b_dirty b) (\<lambda>dirty.
                 kwhen (\<not> dirty)
                   (kbind (idewait True) (\<lambda>r.
                    kwhen (r \<ge> 0) (kbind (insl 0x1f0 BSIZE) (\<lambda>d. set_buf b (\<lambda>x. x\<lparr>b_data := d\<rparr>)))))))
          (kseq (set_buf b (\<lambda>x. x\<lparr>b_valid := True\<rparr>))
          (kseq (set_buf b (\<lambda>x. x\<lparr>b_dirty := False\<rparr>))
          (kseq (wakeup (BufChan b))
          (kseq (kbind (kget idequeue) (\<lambda>q'. case q' of None \<Rightarrow> kret () | Some c \<Rightarrow> idestart c))
                (release IdeLock))))))))"

text \<open>The walk of \<open>iderw\<close> to the last request; a queue has at most \<open>NBUF\<close> of them.\<close>

primrec ide_last :: "nat \<Rightarrow> (nat \<Rightarrow> nat option) \<Rightarrow> nat \<Rightarrow> nat option" where
  "ide_last 0 nx b = None"
| "ide_last (Suc fuel) nx b = (case nx b of None \<Rightarrow> Some b | Some c \<Rightarrow> ide_last fuel nx c)"

definition ide_append :: "nat \<Rightarrow> ('x ide_state_scheme, unit) km" where
  "ide_append b =
     kseq (kmod (\<lambda>s. s\<lparr>qnext := (qnext s)(b := None)\<rparr>))
     (kbind (kget (\<lambda>s. s)) (\<lambda>s. case idequeue s of
        None \<Rightarrow> kmod (\<lambda>s. s\<lparr>idequeue := Some b\<rparr>)
      | Some h \<Rightarrow> (case ide_last (Suc NBUF) (qnext s) h of
            None \<Rightarrow> (\<lambda>_. Fail ESpin)
          | Some l \<Rightarrow> kmod (\<lambda>s. s\<lparr>qnext := (qnext s)(l := Some b)\<rparr>))))"

text \<open>The wait for the request; a process that slept resumes with \<open>ide_iderw_return\<close>.\<close>

definition ide_wait_done :: "nat \<Rightarrow> ('x ide_state_scheme, unit) km" where
  "ide_wait_done b =
     kbind (get_buf (\<lambda>x. x) b) (\<lambda>x.
     if b_valid x \<and> \<not> b_dirty x then release IdeLock
     else sleep (BufChan b) (Some IdeLock))"

definition ide_iderw :: "nat \<Rightarrow> ('x ide_state_scheme, unit) km" where
  "ide_iderw b =
     kbind (holdingsleep (BufSleep b)) (\<lambda>h.
     if \<not> h then kpanic ''iderw: buf not locked''
     else kbind (get_buf (\<lambda>x. x) b) (\<lambda>x.
       if b_valid x \<and> \<not> b_dirty x then kpanic ''iderw: nothing to do''
       else kbind (kget havedisk1) (\<lambda>d1.
         if b_dev x \<noteq> 0 \<and> \<not> d1 then kpanic ''iderw: ide disk 1 not present''
         else kseq (acquire IdeLock)
           (kseq (ide_append b)
           (kseq (kbind (kget idequeue) (\<lambda>q. kwhen (q = Some b) (idestart b)))
                 (ide_wait_done b))))))"

definition ide_iderw_return :: "nat \<Rightarrow> ('x ide_state_scheme, unit) km" where
  "ide_iderw_return b = kseq (sleep_return IdeLock) (ide_wait_done b)"

end
