(* ===== verification/Pipe.thy ===== *)
theory Pipe
  imports File Ring
begin

text \<open>
  The pipe as a queue of bytes. The locale \<open>bounded_queue\<close> is the interface the read and write loops of
  \<^verbatim>\<open>pipe.c\<close> rely on; the ring buffer in \<open>struct pipe\<close>, with its free-running counters, provides it.
\<close>

section \<open>Bounded queues\<close>

locale bounded_queue =
  fixes content :: "'q \<Rightarrow> 'b list" and ok :: "'q \<Rightarrow> bool" and cap :: nat
    and push :: "'b \<Rightarrow> 'q \<Rightarrow> 'q" and front :: "'q \<Rightarrow> 'b" and pop :: "'q \<Rightarrow> 'q"
  assumes push_law: "ok q \<Longrightarrow> length (content q) < cap \<Longrightarrow> ok (push b q) \<and> content (push b q) = content q @ [b]"
    and pop_law: "ok q \<Longrightarrow> content q \<noteq> [] \<Longrightarrow> ok (pop q) \<and> content q = front q # content (pop q)"
    and cap_law: "ok q \<Longrightarrow> length (content q) \<le> cap"
begin

lemma push_all:
  "ok q \<Longrightarrow> length (content q) + length bs \<le> cap \<Longrightarrow> ok (fold push bs q) \<and> content (fold push bs q) = content q @ bs"
proof (induction bs arbitrary: q)
  case (Cons b bs)
  then have "ok (push b q) \<and> content (push b q) = content q @ [b]" by (intro push_law) auto
  then show ?case using Cons.IH[of "push b q"] Cons.prems by simp
qed simp

lemma pop_all:
  "ok q \<Longrightarrow> n \<le> length (content q) \<Longrightarrow> ok ((pop ^^ n) q) \<and> content ((pop ^^ n) q) = drop n (content q)"
proof (induction n arbitrary: q)
  case (Suc n)
  then have "content q \<noteq> []" by auto
  then have p: "ok (pop q)" "content q = front q # content (pop q)" using pop_law Suc.prems(1) by auto
  then have "ok ((pop ^^ n) (pop q)) \<and> content ((pop ^^ n) (pop q)) = drop n (content (pop q))"
    using Suc.prems(2) by (intro Suc.IH) auto
  then show ?case using p(2) by (simp add: funpow_swap1)
qed simp

end

section \<open>The pipe provides one (pipe.c)\<close>

definition pipe_queue :: "pipe \<Rightarrow> uchar list" where
  "pipe_queue q = ring PIPESIZE (pi_data q) (pi_nread q) (unat (pi_nwrite q - pi_nread q))"

definition pipe_ok :: "pipe \<Rightarrow> bool" where
  "pipe_ok q \<longleftrightarrow> unat (pi_nwrite q - pi_nread q) \<le> PIPESIZE"

definition pipe_front :: "pipe \<Rightarrow> uchar" where
  "pipe_front q = pi_data q (unat (pi_nread q) mod PIPESIZE)"

definition pipe_get :: "pipe \<Rightarrow> pipe" where
  "pipe_get q = q\<lparr>pi_nread := pi_nread q + 1\<rparr>"

lemma length_pipe_queue: "length (pipe_queue q) = unat (pi_nwrite q - pi_nread q)"
  by (simp add: pipe_queue_def)

lemma pipe_empty: "pi_nread q = pi_nwrite q \<longleftrightarrow> pipe_queue q = []"
  by (metis length_0_conv length_pipe_queue right_minus_eq unat_eq_zero)

lemma pipe_full: "pipe_ok q \<Longrightarrow> pi_nwrite q = pi_nread q + of_nat PIPESIZE \<longleftrightarrow> length (pipe_queue q) = PIPESIZE"
proof
  assume "pi_nwrite q = pi_nread q + of_nat PIPESIZE"
  then show "length (pipe_queue q) = PIPESIZE" by (simp add: length_pipe_queue PIPESIZE_def)
next
  assume "length (pipe_queue q) = PIPESIZE"
  then have "of_nat (unat (pi_nwrite q - pi_nread q)) = (of_nat PIPESIZE :: uint)" by (simp only: length_pipe_queue)
  then have "pi_nwrite q - pi_nread q = of_nat PIPESIZE" by simp
  then show "pi_nwrite q = pi_nread q + of_nat PIPESIZE" by (simp add: algebra_simps)
qed

interpretation pq: bounded_queue pipe_queue pipe_ok PIPESIZE pipe_put pipe_front pipe_get
proof
  fix q b
  assume ok: "pipe_ok q" and room: "length (pipe_queue q) < PIPESIZE"
  let ?n = "unat (pi_nwrite q - pi_nread q)"
  have n: "?n < PIPESIZE" using room by (simp add: length_pipe_queue)
  have w: "pi_nwrite q = pi_nread q + of_nat ?n" by simp
  have s: "unat (pi_nwrite q + 1 - pi_nread q) = Suc ?n"
    using unat_suc_diff[of "pi_nwrite q" "pi_nread q"] n by (simp add: PIPESIZE_def)
  have "ring PIPESIZE ((pi_data q)(unat (pi_nwrite q) mod PIPESIZE := b)) (pi_nread q) (Suc ?n) = pipe_queue q @ [b]"
    using ring_push[of PIPESIZE ?n "pi_data q" "pi_nread q" b] n w by (simp add: pipe_queue_def PIPESIZE_def)
  then show "pipe_ok (pipe_put b q) \<and> pipe_queue (pipe_put b q) = pipe_queue q @ [b]"
    using s n by (simp add: pipe_ok_def pipe_put_def pipe_queue_def)
next
  fix q
  assume ok: "pipe_ok q" and ne: "pipe_queue q \<noteq> []"
  let ?n = "unat (pi_nwrite q - pi_nread q)"
  obtain k where k: "?n = Suc k" using ne by (cases ?n) (auto simp: pipe_queue_def)
  have "pi_nwrite q - (pi_nread q + 1) = (pi_nwrite q - pi_nread q) - 1" by simp
  moreover have "unat ((pi_nwrite q - pi_nread q) - 1) = k"
    using k unat_minus_one[of "pi_nwrite q - pi_nread q"] by (cases "pi_nwrite q - pi_nread q = 0") (simp_all only: unat_0, simp)
  ultimately have u: "unat (pi_nwrite q - (pi_nread q + 1)) = k" by (simp only:)
  show "pipe_ok (pipe_get q) \<and> pipe_queue q = pipe_front q # pipe_queue (pipe_get q)"
    using ok ring_pop[of PIPESIZE "pi_data q" "pi_nread q" k] k u
    by (simp add: pipe_ok_def pipe_get_def pipe_queue_def pipe_front_def)
qed (simp add: pipe_ok_def length_pipe_queue)

section \<open>The loops\<close>

definition put_pipe :: "addr_t \<Rightarrow> pipe \<Rightarrow> 'x file_state_scheme \<Rightarrow> 'x file_state_scheme" where
  "put_pipe p q s = s\<lparr>pipes := (pipes s)(p := q)\<rparr>"

lemma put_pipe_sel [simp]:
  "pipes (put_pipe p q s) p = q" "same_locks (put_pipe p q s) t = same_locks s t" "ptable (put_pipe p q s) = ptable s"
  "put_pipe p q' (put_pipe p q s) = put_pipe p q' s" "myproc (put_pipe p q s) = myproc s" "put_pipe p (pipes s p) s = s"
  by (simp_all add: put_pipe_def same_locks_def myproc_def)

lemma write_loop_fits:
  "pipe_ok (pipes s p) \<Longrightarrow> length (pipe_queue (pipes s p)) + length bs \<le> PIPESIZE \<Longrightarrow>
     pipewrite_loop p (bs @ cs) s = pipewrite_loop p cs (put_pipe p (fold pipe_put bs (pipes s p)) s)"
proof (induction bs arbitrary: s)
  case (Cons b bs)
  let ?q = "pipes s p"
  have room: "length (pipe_queue ?q) < PIPESIZE" using Cons.prems(2) by simp
  have "pi_nwrite ?q \<noteq> pi_nread ?q + of_nat PIPESIZE" using pipe_full[OF Cons.prems(1)] room by simp
  then have "pipewrite_loop p ((b # bs) @ cs) s = pipewrite_loop p (bs @ cs) (put_pipe p (pipe_put b ?q) s)"
    by (simp add: get_pipe_def set_pipe_def put_pipe_def k_simps)
  also have "\<dots> = pipewrite_loop p cs (put_pipe p (fold pipe_put bs (pipe_put b ?q)) s)"
    using Cons.IH[of "put_pipe p (pipe_put b ?q) s"] pq.push_law[OF Cons.prems(1) room, of b] Cons.prems(2) by simp
  finally show ?case by simp
qed simp

lemma read_copy:
  "pipe_ok (pipes s p) \<Longrightarrow>
     piperead_copy p n s = Ok (take n (pipe_queue (pipes s p)))
       (put_pipe p ((pipe_get ^^ min n (length (pipe_queue (pipes s p)))) (pipes s p)) s)"
proof (induction n arbitrary: s)
  case (Suc n)
  let ?q = "pipes s p"
  show ?case
  proof (cases "pipe_queue ?q = []")
    case True
    then show ?thesis using pipe_empty[of ?q] by (simp add: get_pipe_def k_simps)
  next
    case False
    then have p: "pipe_ok (pipe_get ?q)" "pipe_queue ?q = pipe_front ?q # pipe_queue (pipe_get ?q)"
      using pq.pop_law[OF Suc.prems] by auto
    have "pi_nread ?q \<noteq> pi_nwrite ?q" using False pipe_empty[of ?q] by simp
    moreover have "set_pipe p (\<lambda>q. q\<lparr>pi_nread := pi_nread q + 1\<rparr>) s = Ok () (put_pipe p (pipe_get ?q) s)"
      by (simp add: set_pipe_def put_pipe_def pipe_get_def k_simps)
    moreover have "piperead_copy p n (put_pipe p (pipe_get ?q) s) =
        Ok (take n (pipe_queue (pipe_get ?q)))
          (put_pipe p ((pipe_get ^^ min n (length (pipe_queue (pipe_get ?q)))) (pipe_get ?q)) s)"
      using Suc.IH[of "put_pipe p (pipe_get ?q) s"] p(1) by simp
    ultimately show ?thesis
      using p(2) by (simp add: get_pipe_def k_simps pipe_front_def[symmetric] funpow_swap1)
  qed
qed (simp add: k_simps)


section \<open>Going to sleep on a pipe\<close>

text \<open>
  A process that holds one lock and sleeps on it gives that lock back and leaves the CPU asleep on its
  channel; nothing but locks and the process table changes.
\<close>

lemma sleep_switches:
  assumes q: "quiet s" "ncli (cpus s (cpuid s)) = 0" and lk: "lk \<noteq> PtableLock"
    and u: "same_locks u (taken lk s)" and me: "myproc u = Some me"
  shows "\<exists>cp lks pt. sleep ch (Some lk) u = Switch (u\<lparr>cpus := cp, locks := lks, ptable := pt\<rparr>) \<and>
    p_state (pt me) = SLEEPING \<and> p_chan (pt me) = Some ch \<and> locked (lks lk) = 0"
proof -
  have c: "cpuid u = cpuid s" "cpus u = cpus (taken lk s)" "locks u = locks (taken lk s)"
    using u by (simp_all add: same_locks_def)
  have "lock_free PtableLock u" using q(1) lk c by (simp add: quiet_def lock_free_def taken_def)
  then have a: "acquire PtableLock u = Ok () (taken PtableLock u)" by (rule acquire_free)
  obtain r where r: "release lk (taken PtableLock u) = Ok () r"
    and rc: "r = u\<lparr>cpus := cpus r, locks := locks r\<rparr>" "cpus r (cpuid s) = (pushed (cpus s (cpuid s)))"
    and rl: "locked (locks r lk) = 0" "holding PtableLock r"
    using q(2) lk c by (simp add: release_def popcli_def spin_defs k_simps taken_def pushed_def)
  have rme: "myproc r = Some me" "cpuid r = cpuid s" using me c(1) by (subst rc(1), simp add: myproc_def)+
  let ?v = "r\<lparr>ptable := (ptable r)(me := (ptable r me)\<lparr>p_chan := Some ch, p_state := SLEEPING\<rparr>)\<rparr>"
  have h: "holding PtableLock ?v" "myproc ?v = Some me"
    using rl(2) rme by (simp_all add: holding_def myproc_def)
  have "sleep ch (Some lk) u = sched ?v"
    using me lk a r by (simp add: sleep_def k_simps proc_ops)
  also have "\<dots> = Switch (?v\<lparr>ptable := (ptable ?v)(me := (ptable ?v me)\<lparr>p_stk_intena := intena (cpus ?v (cpuid ?v))\<rparr>)\<rparr>)"
    using h rc(2) rme(2) q(2) by (simp add: sched_def k_simps with_cur_def proc_ops pushed_def)
  also have "\<dots> = Switch (u\<lparr>cpus := cpus r, locks := locks r, ptable := (ptable r)(me := (ptable r me)
      \<lparr>p_chan := Some ch, p_state := SLEEPING, p_stk_intena := intena (cpus r (cpuid r))\<rparr>)\<rparr>)"
    by (subst (1) rc(1)) simp
  finally show ?thesis using rl(1)
    by (intro exI[of _ "cpus r"] exI[of _ "locks r"] exI conjI) (assumption | simp)+
qed


section \<open>Writing and reading\<close>

lemma same_locks_wake [simp]: "same_locks (wake_all ch s) t = same_locks s t"
  by (simp add: same_locks_def)

lemma pipes_wake [simp]: "pipes (wake_all ch s) = pipes s"
  by (simp add: wake_all_def)

text \<open>Inside the pipe's critical section: the processor runs \<open>me\<close> and only the pipe's lock is taken.\<close>

definition in_pipe :: "addr_t \<Rightarrow> 'x file_state_scheme \<Rightarrow> 'x file_state_scheme \<Rightarrow> bool" where
  "in_pipe p s u \<longleftrightarrow> quiet s \<and> same_locks u (taken (PipeLock p) s)"

lemma in_pipe_enter:
  assumes "quiet s"
  shows "acquire (PipeLock p) s = Ok () (taken (PipeLock p) s)" "in_pipe p s (taken (PipeLock p) s)"
    "pipes (taken (PipeLock p) s) = pipes s" "ptable (taken (PipeLock p) s) = ptable s"
    "myproc (taken (PipeLock p) s) = myproc s"
  using assms by (simp_all add: quiet_def acquire_free in_pipe_def same_locks_def, simp_all add: taken_def myproc_def)

lemma in_pipe_wakeup:
  assumes "in_pipe p s u"
  shows "wakeup ch u = Ok () (wake_all (Some ch) u)" "in_pipe p s (wake_all (Some ch) u)"
proof -
  have "irq_ok (taken (PipeLock p) s)" "lock_free PtableLock (taken (PipeLock p) s)"
    using assms by (auto simp: in_pipe_def quiet_def irq_ok_taken lock_free_taken)
  then have "irq_ok u" "lock_free PtableLock u"
    using assms same_locks_cong[of u "taken (PipeLock p) s"] by (auto simp: in_pipe_def)
  then show "wakeup ch u = Ok () (wake_all (Some ch) u)" by (rule wakeup_eq)
  show "in_pipe p s (wake_all (Some ch) u)" using assms by (simp add: in_pipe_def)
qed

lemma in_pipe_leave:
  assumes "in_pipe p s u"
  shows "\<exists>t. release (PipeLock p) u = Ok () t \<and> quiet t \<and> pipes t = pipes u"
proof -
  have "release (PipeLock p) u = Ok () (restore_locks s u)"
    using assms by (intro release_taken) (auto simp: in_pipe_def quiet_def)
  moreover have "quiet (restore_locks s u)" "pipes (restore_locks s u) = pipes u"
    using assms by (simp_all add: in_pipe_def quiet_def irq_ok_def lock_free_def same_locks_def restore_locks_def)
  ultimately show ?thesis by blast
qed

lemma in_pipe_put: "in_pipe p s u \<Longrightarrow> in_pipe p s (put_pipe p q u)"
  by (simp add: in_pipe_def)

lemma in_pipe_sleep:
  assumes "in_pipe p s u" "ncli (cpus s (cpuid s)) = 0" "myproc u = Some me"
  shows "\<exists>t. sleep ch (Some (PipeLock p)) u = Switch t \<and> pipes t = pipes u \<and>
    p_state (ptable t me) = SLEEPING \<and> p_chan (ptable t me) = Some ch \<and> locked (locks t (PipeLock p)) = 0"
  using sleep_switches[of s "PipeLock p" u me ch] assms by (auto simp: in_pipe_def)

lemma fold_pipe_put_open [simp]: "pi_readopen (fold pipe_put bs q) = pi_readopen q"
  by (induction bs arbitrary: q) (simp_all add: pipe_put_def)

text \<open>A write of more bytes than the pipe has room for fills it and stops at the first byte that does not fit.\<close>

lemma write_loop_full:
  assumes "pipe_ok (pipes s p)" "PIPESIZE < length (pipe_queue (pipes s p)) + length bs"
  defines "k \<equiv> PIPESIZE - length (pipe_queue (pipes s p))"
  shows "\<exists>b cs q. pipewrite_loop p bs s = pipewrite_loop p (b # cs) (put_pipe p q s) \<and> pipe_ok q \<and>
    pipe_queue q = pipe_queue (pipes s p) @ take k bs \<and> pi_nwrite q = pi_nread q + of_nat PIPESIZE \<and>
    pi_readopen q = pi_readopen (pipes s p)"
proof -
  let ?q = "fold pipe_put (take k bs) (pipes s p)"
  have c: "length (pipe_queue (pipes s p)) \<le> PIPESIZE" using pq.cap_law assms(1) .
  have len: "length (pipe_queue (pipes s p)) + length (take k bs) = PIPESIZE"
    using c assms(2) by (simp add: k_def)
  then have q: "pipe_ok ?q" "pipe_queue ?q = pipe_queue (pipes s p) @ take k bs"
    using pq.push_all[OF assms(1), of "take k bs"] by auto
  then have "pi_nwrite ?q = pi_nread ?q + of_nat PIPESIZE"
    using pipe_full[of ?q] len by simp
  moreover obtain b cs where d: "drop k bs = b # cs"
    using c assms(2) by (cases "drop k bs") (auto simp: k_def)
  have "pipewrite_loop p bs s = pipewrite_loop p (b # cs) (put_pipe p ?q s)"
    using write_loop_fits[OF assms(1) eq_imp_le[OF len], of "drop k bs"]
    by (simp only: append_take_drop_id, simp only: d)
  ultimately show ?thesis using q fold_pipe_put_open by blast
qed

text \<open>
  Claim C20. \<open>pipewrite\<close> appends to the pipe's queue, also where the counters wrap: bytes that fit are
  all appended and counted; where they do not fit, the room is filled first, and then the writer gives
  up with \<open>-1\<close> if no reader is left or it was killed, and otherwise sleeps on the write channel with the
  pipe unlocked.
\<close>

theorem pipewrite_appends:
  fixes s :: "'x file_state_scheme"
  assumes "quiet s" "ncli (cpus s (cpuid s)) = 0" "myproc s = Some me" "pipe_ok (pipes s p)"
  shows "let q = pipe_queue (pipes s p); room = PIPESIZE - length q in
    if length bs \<le> room
    then \<exists>t. pipewrite p bs s = Ok (int (length bs)) t \<and> quiet t \<and> pipe_ok (pipes t p) \<and> pipe_queue (pipes t p) = q @ bs
    else if \<not> pi_readopen (pipes s p) \<or> p_killed (ptable s me)
    then \<exists>t. pipewrite p bs s = Ok (- 1) t \<and> quiet t \<and> pipe_ok (pipes t p) \<and> pipe_queue (pipes t p) = q @ take room bs
    else \<exists>t. pipewrite p bs s = Switch t \<and> pipe_ok (pipes t p) \<and> pipe_queue (pipes t p) = q @ take room bs \<and>
      p_state (ptable t me) = SLEEPING \<and> p_chan (ptable t me) = Some (PipeWriteChan p) \<and> locked (locks t (PipeLock p)) = 0"
proof -
  let ?u = "taken (PipeLock p) s" and ?q = "pipe_queue (pipes s p)"
  note e = in_pipe_enter[OF assms(1), of p]
  have c: "length ?q \<le> PIPESIZE" using pq.cap_law assms(4) .
  show ?thesis
  proof (cases "length bs \<le> PIPESIZE - length ?q")
    case True
    let ?v = "put_pipe p (fold pipe_put bs (pipes s p)) ?u"
    have "pipewrite_loop p bs ?u = Ok True ?v"
      using write_loop_fits[of ?u p bs "[]"] assms(4) True c e by (simp add: k_simps)
    moreover obtain t where "release (PipeLock p) (wake_all (Some (PipeReadChan p)) ?v) = Ok () t"
        "quiet t" "pipes t = pipes ?v"
      using in_pipe_leave[OF in_pipe_wakeup(2)[OF in_pipe_put[OF e(2)]], of "PipeReadChan p"] by auto
    ultimately show ?thesis
      using True c e in_pipe_wakeup(1)[OF in_pipe_put[OF e(2)]] pq.push_all[OF assms(4), of bs]
      by (simp add: Let_def pipewrite_def pipewrite_end_def k_simps)
  next
    case False
    then have "PIPESIZE < length ?q + length bs" using c by simp
    then obtain b cs q where l: "pipewrite_loop p bs ?u = pipewrite_loop p (b # cs) (put_pipe p q ?u)" "pipe_ok q"
        "pipe_queue q = ?q @ take (PIPESIZE - length ?q) bs" "pi_nwrite q = pi_nread q + of_nat PIPESIZE"
        "pi_readopen q = pi_readopen (pipes s p)"
      using write_loop_full[of ?u p bs] assms(4) e(3) c by (auto simp del: pipewrite_loop.simps)
    let ?v = "put_pipe p q ?u"
    note v = in_pipe_put[OF e(2), of q]
    have me: "myproc ?v = Some me" "ptable ?v = ptable s" using e assms(3) by simp_all
    show ?thesis
    proof (cases "\<not> pi_readopen (pipes s p) \<or> p_killed (ptable s me)")
      case True
      then have "pipewrite_loop p bs ?u = Ok False ?v"
        unfolding l(1) using l(4,5) me by (auto simp: get_pipe_def k_simps with_cur_def get_proc_def)
      moreover obtain t where "release (PipeLock p) ?v = Ok () t" "quiet t" "pipes t = pipes ?v"
        using in_pipe_leave[OF v] by auto
      ultimately show ?thesis
        using True False e l by (simp add: Let_def pipewrite_def pipewrite_end_def k_simps)
    next
      case stays: False
      have "pipewrite_loop p bs ?u = sleep (PipeWriteChan p) (Some (PipeLock p)) (wake_all (Some (PipeReadChan p)) ?v)"
        unfolding l(1) using l(4,5) me stays in_pipe_wakeup(1)[OF v]
        by (simp add: get_pipe_def k_simps with_cur_def get_proc_def)
      moreover obtain t where t: "sleep (PipeWriteChan p) (Some (PipeLock p)) (wake_all (Some (PipeReadChan p)) ?v) =
          (Switch t :: (bool, _) outcome)" "pipes t = pipes ?v" "p_state (ptable t me) = SLEEPING"
          "p_chan (ptable t me) = Some (PipeWriteChan p)" "locked (locks t (PipeLock p)) = 0"
        using in_pipe_sleep[OF in_pipe_wakeup(2)[OF v] assms(2), of "PipeReadChan p" me "PipeWriteChan p"] me by auto
      ultimately have "pipewrite p bs s = Switch t" using e(1) by (simp add: pipewrite_def k_simps)
      then show ?thesis using False stays l t by (simp add: Let_def)
    qed
  qed
qed

text \<open>
  An empty pipe at page 4096 whose counters are two short of wrapping, and process 0 running.
\<close>

definition boot_pipe :: pipe where
  "boot_pipe = \<lparr>pi_data = (\<lambda>_. 0), pi_nread = 0xFFFFFFFE, pi_nwrite = 0xFFFFFFFE, pi_readopen = True, pi_writeopen = True\<rparr>"

definition pipe_state :: "bool \<Rightarrow> file_state" where
  "pipe_state killed =
     (cons_state.extend boot_cons
       \<lparr>ftable = (\<lambda>_. \<lparr>f_type = FD_NONE, f_ref = 0, f_readable = False, f_writable = False, f_pipe = 0, f_ip = None, f_off = 0\<rparr>),
        pipes = (\<lambda>_. boot_pipe), \<dots> = ()\<rparr>)
     \<lparr>cpu_proc := (\<lambda>_. Some 0), ptable := (\<lambda>i. (ptable boot_cons i)\<lparr>p_killed := killed, p_state := RUNNING\<rparr>)\<rparr>"

lemma pipe_state_ok:
  "quiet (pipe_state k)" "ncli (cpus (pipe_state k) (cpuid (pipe_state k))) = 0" "myproc (pipe_state k) = Some 0"
  "pipes (pipe_state k) p = boot_pipe" "p_killed (ptable (pipe_state k) i) = k"
proof -
  show "quiet (pipe_state k)"
    using boot_cons_ok(1) by (simp add: pipe_state_def cons_state.defs quiet_def irq_ok_def lock_free_def)
  show "ncli (cpus (pipe_state k) (cpuid (pipe_state k))) = 0"
    by (simp add: pipe_state_def cons_state.defs boot_cons_def fs_state.defs boot_fs_def log_state.defs boot_log_def
        bio_state.defs boot_bio_simps)
qed (simp_all add: pipe_state_def cons_state.defs myproc_def)

lemma boot_pipe_ok: "pipe_ok boot_pipe" "pipe_queue boot_pipe = []" "pi_readopen boot_pipe" "pi_writeopen boot_pipe"
  by (simp_all add: boot_pipe_def pipe_ok_def pipe_queue_def)

theorem pipewrite_appends_witness:
  "(\<exists>t. pipewrite 4096 [1, 2, 3] (pipe_state False) = Ok 3 t \<and> pipe_queue (pipes t 4096) = [1, 2, 3]) \<and>
   (\<exists>t. pipewrite 4096 (replicate 513 7) (pipe_state False) = Switch t \<and> pipe_queue (pipes t 4096) = replicate 512 7 \<and>
      p_chan (ptable t 0) = Some (PipeWriteChan 4096)) \<and>
   (\<exists>t. pipewrite 4096 (replicate 513 7) (pipe_state True) = Ok (- 1) t \<and> pipe_queue (pipes t 4096) = replicate 512 7)"
  using pipewrite_appends[of "pipe_state False" 0 4096 "[1, 2, 3]"] pipewrite_appends[of "pipe_state False" 0 4096 "replicate 513 7"]
    pipewrite_appends[of "pipe_state True" 0 4096 "replicate 513 7"]
  by (auto simp: pipe_state_ok boot_pipe_ok PIPESIZE_def Let_def)

text \<open>
  Claim C21. \<open>piperead\<close> takes from the front of the pipe's queue: with bytes waiting, or with no
  writer left, it returns as many of the oldest bytes as there are and were asked for, and removes them;
  on an empty pipe with a writer it fails with \<open>-1\<close> if the reader was killed and otherwise sleeps on the
  read channel with the pipe unlocked.
\<close>

theorem piperead_takes:
  fixes s :: "'x file_state_scheme"
  assumes "quiet s" "ncli (cpus s (cpuid s)) = 0" "myproc s = Some me" "pipe_ok (pipes s p)"
  shows "let q = pipe_queue (pipes s p) in
    if q \<noteq> [] \<or> \<not> pi_writeopen (pipes s p)
    then \<exists>t. piperead p n s = Ok (int (min n (length q)), take n q) t \<and> quiet t \<and> pipe_ok (pipes t p) \<and>
      pipe_queue (pipes t p) = drop n q
    else if p_killed (ptable s me)
    then \<exists>t. piperead p n s = Ok (- 1, []) t \<and> quiet t \<and> pipes t p = pipes s p
    else \<exists>t. piperead p n s = Switch t \<and> pipes t p = pipes s p \<and>
      p_state (ptable t me) = SLEEPING \<and> p_chan (ptable t me) = Some (PipeReadChan p) \<and> locked (locks t (PipeLock p)) = 0"
proof -
  let ?u = "taken (PipeLock p) s" and ?q = "pipe_queue (pipes s p)"
  note e = in_pipe_enter[OF assms(1), of p]
  note em = pipe_empty[of "pipes s p"]
  have me: "myproc ?u = Some me" using e assms(3) by simp
  show ?thesis
  proof (cases "?q \<noteq> [] \<or> \<not> pi_writeopen (pipes s p)")
    case True
    let ?k = "min n (length ?q)"
    let ?v = "put_pipe p ((pipe_get ^^ ?k) (pipes s p)) ?u"
    have w: "piperead_wait p ?u = Ok True ?u"
      using True em e by (auto simp: piperead_wait_def get_pipe_def k_simps)
    have r: "piperead_copy p n ?u = Ok (take n ?q) ?v"
      using read_copy[of ?u p n] assms(4) e by simp
    obtain t where t: "release (PipeLock p) (wake_all (Some (PipeWriteChan p)) ?v) = Ok () t" "quiet t" "pipes t = pipes ?v"
      using in_pipe_leave[OF in_pipe_wakeup(2)[OF in_pipe_put[OF e(2)]], of "PipeWriteChan p"] by auto
    have "pipe_ok (pipes t p)" "pipe_queue (pipes t p) = drop n ?q"
      using t(3) pq.pop_all[OF assms(4), of ?k] by (auto simp: min_def)
    moreover have "piperead p n s = Ok (int ?k, take n ?q) t"
      using e w r t(1) in_pipe_wakeup(1)[OF in_pipe_put[OF e(2)]]
      by (simp add: piperead_def piperead_end_def k_simps min.commute)
    ultimately show ?thesis using True t(2) by (simp add: Let_def)
  next
    case False
    show ?thesis
    proof (cases "p_killed (ptable s me)")
      case True
      have "piperead_wait p ?u = Ok False ?u"
        using False True em e(3,4) me by (simp add: piperead_wait_def get_pipe_def k_simps with_cur_def get_proc_def)
      then show ?thesis
        using in_pipe_leave[OF e(2)] e False True by (auto simp: Let_def piperead_def piperead_end_def k_simps)
    next
      case alive: False
      have "piperead_wait p ?u = sleep (PipeReadChan p) (Some (PipeLock p)) ?u"
        using False alive em e(3,4) me by (simp add: piperead_wait_def get_pipe_def k_simps with_cur_def get_proc_def)
      moreover obtain t where t: "sleep (PipeReadChan p) (Some (PipeLock p)) ?u = (Switch t :: (bool, _) outcome)"
          "pipes t = pipes ?u" "p_state (ptable t me) = SLEEPING" "p_chan (ptable t me) = Some (PipeReadChan p)"
          "locked (locks t (PipeLock p)) = 0"
        using in_pipe_sleep[OF e(2) assms(2) me, of "PipeReadChan p"] by auto
      ultimately have "piperead p n s = Switch t" using e(1) by (simp add: piperead_def k_simps)
      then show ?thesis using False alive t e(3) by (simp add: Let_def)
    qed
  qed
qed

theorem piperead_takes_witness:
  "(\<exists>t. piperead 4096 5 (pipe_state False) = Switch t \<and> p_chan (ptable t 0) = Some (PipeReadChan 4096)) \<and>
   (\<exists>t. piperead 4096 5 (pipe_state True) = Ok (- 1, []) t) \<and>
   (\<exists>t. piperead 4096 5 (put_pipe 4096 (boot_pipe\<lparr>pi_nwrite := 1\<rparr>) (pipe_state False)) = Ok (3, [0, 0, 0]) t)"
proof -
  let ?s = "put_pipe 4096 (boot_pipe\<lparr>pi_nwrite := 1\<rparr>) (pipe_state False)"
  have q: "pipe_queue (boot_pipe\<lparr>pi_nwrite := 1\<rparr>) = [0, 0, 0]" "pipe_ok (boot_pipe\<lparr>pi_nwrite := 1\<rparr>)"
    by (simp_all add: pipe_queue_def pipe_ok_def boot_pipe_def PIPESIZE_def ring_def upt_rec)
  have "quiet ?s" using pipe_state_ok(1)[of False] by (simp add: put_pipe_def quiet_def irq_ok_def lock_free_def)
  moreover have "ncli (cpus ?s (cpuid ?s)) = 0" "myproc ?s = Some 0"
    using pipe_state_ok(2,3)[of False] by (simp_all add: put_pipe_def myproc_def)
  ultimately have "\<exists>t. piperead 4096 5 ?s = Ok (3, [0, 0, 0]) t"
    using piperead_takes[of ?s 0 4096 5] q by (auto simp: Let_def)
  then show ?thesis
    using piperead_takes[of "pipe_state False" 0 4096 5] piperead_takes[of "pipe_state True" 0 4096 5]
    by (auto simp: pipe_state_ok boot_pipe_ok Let_def)
qed

end
