(* ===== verification/Idequeue.thy ===== *)
theory Idequeue
  imports Ide Pipe
begin

text \<open>
  The request queue of \<^verbatim>\<open>ide.c\<close> is a queue: \<open>iderw\<close> adds a request at its end and starts the drive if the queue was
  empty, \<open>ideintr\<close> removes the first one and starts the drive on the next.
\<close>

unbundle bit_operations_syntax

section \<open>The queue as a list\<close>

text \<open>\<open>ide_list nx q xs\<close>: from \<open>q\<close>, the links lead through the requests \<open>xs\<close>.\<close>

fun ide_list :: "(nat \<Rightarrow> nat option) \<Rightarrow> nat option \<Rightarrow> nat list \<Rightarrow> bool" where
  "ide_list nx q [] \<longleftrightarrow> q = None"
| "ide_list nx q (x # xs) \<longleftrightarrow> q = Some x \<and> ide_list nx (nx x) xs"

lemma ide_last_list:
  "ide_list nx (Some b) xs \<Longrightarrow> length xs \<le> fuel \<Longrightarrow> ide_last fuel nx b = Some (last xs)"
proof (induction fuel arbitrary: b xs)
  case 0
  then show ?case by (cases xs) auto
next
  case (Suc fuel)
  then obtain ys where xs: "xs = b # ys" "ide_list nx (nx b) ys" by (cases xs) auto
  show ?case
  proof (cases ys)
    case Nil
    then show ?thesis using xs by simp
  next
    case (Cons c zs)
    then show ?thesis using xs Suc.IH[of c ys] Suc.prems(2) by simp
  qed
qed

lemma ide_list_snoc:
  "ide_list nx q xs \<Longrightarrow> distinct xs \<Longrightarrow> b \<notin> set xs \<Longrightarrow> nx b = None \<Longrightarrow>
   (if xs = [] then ide_list nx (Some b) [b] else ide_list (nx(last xs := Some b)) q (xs @ [b]))"
proof (induction xs arbitrary: q)
  case (Cons x xs)
  show ?case
  proof (cases xs)
    case Nil
    then show ?thesis using Cons.prems by auto
  next
    case (Cons y ys)
    then have "x \<noteq> last xs" using Cons.prems(2) \<open>xs = y # ys\<close> by auto
    then show ?thesis using Cons.IH[of "nx x"] Cons.prems \<open>xs = y # ys\<close> by auto
  qed
qed simp

text \<open>The requests of a driver that is at rest, oldest first.\<close>

definition ide_queue :: "'x ide_state_scheme \<Rightarrow> nat list \<Rightarrow> bool" where
  "ide_queue s xs \<longleftrightarrow> ide_list (qnext s) (idequeue s) xs \<and> distinct xs \<and> length xs \<le> NBUF"

lemma ide_list_cong: "ide_list nx q xs \<Longrightarrow> (\<And>x. x \<in> set xs \<Longrightarrow> ny x = nx x) \<Longrightarrow> ide_list ny q xs"
  by (induction xs arbitrary: q) auto

lemma ide_append_ok:
  assumes q: "ide_queue s xs" and b: "b \<notin> set xs" and n: "length xs < NBUF"
  shows "\<exists>nx q. ide_append b s = Ok () (s\<lparr>idequeue := q, qnext := nx\<rparr>) \<and> ide_list nx q (xs @ [b]) \<and> (q = Some b \<longleftrightarrow> xs = [])"
proof -
  let ?n = "(qnext s)(b := None)"
  have l: "ide_list ?n (idequeue s) xs" using q b by (auto simp: ide_queue_def intro: ide_list_cong)
  show ?thesis
  proof (cases xs)
    case Nil
    then have "idequeue s = None" using l by simp
    then have "ide_append b s = Ok () (s\<lparr>idequeue := Some b, qnext := ?n\<rparr>)" by (simp add: ide_append_def k_simps)
    then show ?thesis using Nil by auto
  next
    case (Cons h ys)
    then have h: "idequeue s = Some h" using l by simp
    then have "ide_last (Suc NBUF) ?n h = Some (last xs)" using l n by (intro ide_last_list) simp_all
    then have "ide_append b s = Ok () (s\<lparr>idequeue := Some h, qnext := ?n(last xs := Some b)\<rparr>)"
      using h by (simp add: ide_append_def k_simps del: ide_last.simps)
    moreover have "ide_list (?n(last xs := Some b)) (Some h) (xs @ [b])"
      using ide_list_snoc[OF l] q b h Cons by (simp add: ide_queue_def)
    moreover have "Some h \<noteq> Some b" using b Cons by auto
    ultimately show ?thesis using Cons by blast
  qed
qed

section \<open>Starting the drive\<close>

text \<open>The commands for a buffer: the registers hold its block number and its drive.\<close>

definition started :: "buf \<Rightarrow> ioev list \<Rightarrow> bool" where
  "started x ev \<longleftrightarrow> (\<exists>r3 r4 r5 r6. ev = [OutB 0x3f6 0, OutB 0x1f2 1, OutB 0x1f3 r3, OutB 0x1f4 r4, OutB 0x1f5 r5, OutB 0x1f6 r6] @
       (if b_dirty x then [OutB 0x1f7 IDE_CMD_WRITE, OutSL 0x1f0 (b_data x)] else [OutB 0x1f7 IDE_CMD_READ]) \<and>
     unat r3 + 256 * unat r4 + 65536 * unat r5 + 16777216 * unat (r6 AND 0x0f) = b_no x \<and> (bit r6 4 \<longleftrightarrow> odd (b_dev x)))"

lemma low_byte: "unat (ucast (w AND 0xff :: uint) :: uchar) = unat w mod 256"
proof -
  have "w AND 0xff = take_bit 8 w" by (simp add: take_bit_eq_mask mask_eq_exp_minus_1)
  then have "ucast (w AND 0xff) = (ucast w :: uchar)" by (auto intro!: bit_word_eqI simp: bit_simps)
  then show ?thesis by (simp add: unsigned_ucast_eq take_bit_eq_mod)
qed

lemma idestart_ok:
  assumes b: "b_no (bufs s b) < FSSIZE" and w: "ide_poll (port_in s 0x1f7) = Some (r, rest)"
  shows "\<exists>ev. idestart b s = Ok () (s\<lparr>port_in := (port_in s)(0x1f7 := rest), io_trace := io_trace s @ ev\<rparr>) \<and> started (bufs s b) ev"
proof -
  let ?x = "bufs s b"
  define sec :: uint where "sec = of_nat (b_no ?x)"
  have u: "unat sec = b_no ?x" "b_no ?x < 1000" using b by (simp_all add: sec_def FSSIZE_def unat_of_nat)
  have d: "unat (drop_bit k sec) = b_no ?x div 2 ^ k" for k
    unfolding unsigned_drop_bit_eq u(1) using u(2) by (simp add: drop_bit_eq_div take_bit_nat_eq_self)
  have z: "drop_bit 24 sec = 0"
    using d[of 24] u(2) by (intro word_unat_eq_iff[THEN iffD2]) simp
  define r6 :: uchar where "r6 = ucast (0xe0 OR push_bit 4 (b_dev ?x AND 1) OR (drop_bit 24 sec AND 0x0f))"
  have "b_dev ?x AND 1 = (if odd (b_dev ?x) then 1 else 0)" by (simp add: and_one_eq mod_2_eq_odd)
  then have r6: "r6 AND 0x0f = 0" "bit r6 4 \<longleftrightarrow> odd (b_dev ?x)" by (auto simp: r6_def z bit_simps)
  define r3 r4 r5 :: uchar where "r3 = ucast (sec AND 0xff)" and "r4 = ucast (drop_bit 8 sec AND 0xff)" and "r5 = ucast (drop_bit 16 sec AND 0xff)"
  note rs = r3_def r4_def r5_def
  have "unat r3 = b_no ?x mod 256" "unat r4 = b_no ?x div 256 mod 256" "unat r5 = b_no ?x div 65536 mod 256"
    unfolding rs low_byte d u(1) by simp_all
  then have sum: "unat r3 + 256 * unat r4 + 65536 * unat r5 = b_no ?x" using u(2) by simp
  define ev where "ev = [OutB 0x3f6 0, OutB 0x1f2 1, OutB 0x1f3 r3, OutB 0x1f4 r4, OutB 0x1f5 r5, OutB 0x1f6 r6] @
       (if b_dirty ?x then [OutB 0x1f7 IDE_CMD_WRITE, OutSL 0x1f0 (b_data ?x)] else [OutB 0x1f7 IDE_CMD_READ])"
  have "started ?x ev" unfolding started_def ev_def
    using r6 sum by (intro exI[of _ r3] exI[of _ r4] exI[of _ r5] exI[of _ r6]) simp
  moreover have "idestart b s = Ok () (s\<lparr>port_in := (port_in s)(0x1f7 := rest), io_trace := io_trace s @ ev\<rparr>)"
    using b w by (simp add: idestart_def Let_def idewait_def get_buf_def k_simps outb_def outsl_def io_emit_def ev_def rs sec_def r6_def BSIZE_def SECTOR_SIZE_def)
  ultimately show ?thesis by blast
qed

section \<open>Requests and interrupts\<close>

lemma taken_ide:
  fixes s :: "'x ide_state_scheme"
  shows "idequeue (taken lk s) = idequeue s" "qnext (taken lk s) = qnext s" "bufs (taken lk s) = bufs s" "port_in (taken lk s) = port_in s"
    "io_trace (taken lk s) = io_trace s" "ptable (taken lk s) = ptable s" "myproc (taken lk s) = myproc s" "havedisk1 (taken lk s) = havedisk1 s"
  by (simp_all add: taken_def myproc_def)

text \<open>The drive is started on the first request of a queue, if it has one.\<close>

definition start_ready :: "'x ide_state_scheme \<Rightarrow> uchar list \<Rightarrow> nat list \<Rightarrow> bool" where
  "start_ready s st xs \<longleftrightarrow> (case xs of [] \<Rightarrow> True | c # _ \<Rightarrow> b_no (bufs s c) < FSSIZE \<and> ide_poll st \<noteq> None)"

definition starts :: "'x ide_state_scheme \<Rightarrow> nat list \<Rightarrow> ioev list \<Rightarrow> bool" where
  "starts s xs ev \<longleftrightarrow> (case xs of [] \<Rightarrow> ev = [] | c # _ \<Rightarrow> started (bufs s c) ev)"

definition asks :: "nat \<Rightarrow> nat \<Rightarrow> nat list \<Rightarrow> 'x ide_state_scheme \<Rightarrow> bool" where
  "asks me b xs s \<longleftrightarrow> myproc s = Some me \<and> ncli (cpus s (cpuid s)) = 0 \<and> sl_locked (slocks s (BufSleep b)) \<noteq> 0 \<and>
     \<not> (b_valid (bufs s b) \<and> \<not> b_dirty (bufs s b)) \<and> (b_dev (bufs s b) = 0 \<or> havedisk1 s) \<and>
     b \<notin> set xs \<and> length xs < NBUF \<and> (xs = [] \<longrightarrow> start_ready s (port_in s 0x1f7) [b])"

lemma ide_iderw_ok:
  fixes s :: "'x ide_state_scheme"
  assumes q: "quiet s" and xs: "ide_queue s xs" and a: "asks me b xs s"
  shows "\<exists>t ev. ide_iderw b s = Switch t \<and> ide_queue t (xs @ [b]) \<and> bufs t = bufs s \<and> io_trace t = io_trace s @ ev \<and>
    starts s (if xs = [] then [b] else []) ev \<and> p_state (ptable t me) = SLEEPING \<and> p_chan (ptable t me) = Some (BufChan b) \<and> locked (locks t IdeLock) = 0"
proof -
  let ?u = "taken IdeLock s"
  have lf: "lock_free IdeLock s" using q by (simp add: quiet_def)
  have as: "myproc s = Some me" "ncli (cpus s (cpuid s)) = 0" "sl_locked (slocks s (BufSleep b)) \<noteq> 0"
      "\<not> (b_valid (bufs s b) \<and> \<not> b_dirty (bufs s b))" "b_dev (bufs s b) = 0 \<or> havedisk1 s" "b \<notin> set xs" "length xs < NBUF"
      "xs = [] \<Longrightarrow> b_no (bufs s b) < FSSIZE" "xs = [] \<Longrightarrow> ide_poll (port_in s 0x1f7) \<noteq> None"
    using a by (simp_all add: asks_def start_ready_def)
  have "ide_queue ?u xs" using xs by (simp add: ide_queue_def taken_ide)
  then obtain nx h where ap: "ide_append b ?u = Ok () (?u\<lparr>idequeue := h, qnext := nx\<rparr>)" "ide_list nx h (xs @ [b])" "h = Some b \<longleftrightarrow> xs = []"
    using ide_append_ok[of ?u xs b] as(6,7) by blast
  let ?v = "?u\<lparr>idequeue := h, qnext := nx\<rparr>"
  obtain po ev where st: "kbind (kget idequeue) (\<lambda>q. kwhen (q = Some b) (idestart b)) ?v = Ok () (?v\<lparr>port_in := po, io_trace := io_trace s @ ev\<rparr>)"
    and ev: "starts s (if xs = [] then [b] else []) ev"
  proof (cases "xs = []")
    case True
    then obtain r rest where r: "ide_poll (port_in s 0x1f7) = Some (r, rest)" using as(9) by auto
    then show thesis using idestart_ok[of ?v b r rest] as(8) True ap(3) that by (auto simp: taken_ide k_simps starts_def)
  next
    case False
    then have "kbind (kget idequeue) (\<lambda>q. kwhen (q = Some b) (idestart b)) ?v = Ok () ?v" using ap(3) by (simp add: k_simps)
    moreover have "?v\<lparr>port_in := port_in s, io_trace := io_trace s @ []\<rparr> = ?v" by (simp add: taken_def)
    ultimately show thesis using that[where po = "port_in s" and ev = "[]"] False by (simp add: starts_def)
  qed
  let ?w = "?v\<lparr>port_in := po, io_trace := io_trace s @ ev\<rparr>"
  have sl: "same_locks ?w ?u" "myproc ?w = Some me" using as(1) by (simp_all add: same_locks_def taken_def myproc_def)
  obtain cp lks pt where sw: "sleep (BufChan b) (Some IdeLock) ?w = (Switch (?w\<lparr>cpus := cp, locks := lks, ptable := pt\<rparr>) :: (unit, _) outcome)"
      "p_state (pt me) = SLEEPING" "p_chan (pt me) = Some (BufChan b)" "locked (lks IdeLock) = 0"
    using sleep_switches[OF q as(2) _ sl, of "BufChan b"] by auto
  have "ide_iderw b s = Switch (?w\<lparr>cpus := cp, locks := lks, ptable := pt\<rparr>)"
    using as(3-5) ap(1) st sw(1)
    by (auto simp: ide_iderw_def kbind_apply kseq_apply holdingsleep_quiet[OF q] acquire_free[OF lf] get_buf_def kget_apply
        ide_wait_done_def taken_ide)
  moreover have "ide_queue (?w\<lparr>cpus := cp, locks := lks, ptable := pt\<rparr>) (xs @ [b])"
    using ap(2) xs as(6,7) by (simp add: ide_queue_def)
  ultimately show ?thesis using sw(2-4) ev by (intro exI[of _ "?w\<lparr>cpus := cp, locks := lks, ptable := pt\<rparr>"] exI[of _ ev]) (simp add: taken_ide)
qed

text \<open>
  What an interrupt does to the first request: the data that were read, unless the request was a write or
  the drive reports an error; and the status bytes that are left.
\<close>

definition ide_data :: "'x ide_state_scheme \<Rightarrow> nat \<Rightarrow> uchar list" where
  "ide_data s b = (if b_dirty (bufs s b) then b_data (bufs s b) else case ide_poll (port_in s 0x1f7) of
     Some (r, _) \<Rightarrow> if r AND (IDE_DF OR IDE_ERR) = 0 then take BSIZE (port_in s 0x1f0) else b_data (bufs s b) | None \<Rightarrow> [])"

definition ide_status :: "'x ide_state_scheme \<Rightarrow> nat \<Rightarrow> uchar list" where
  "ide_status s b = (if b_dirty (bufs s b) then port_in s 0x1f7 else case ide_poll (port_in s 0x1f7) of Some (_, rest) \<Rightarrow> rest | None \<Rightarrow> [])"

definition answers :: "nat \<Rightarrow> nat list \<Rightarrow> 'x ide_state_scheme \<Rightarrow> bool" where
  "answers b ys s \<longleftrightarrow> (b_dirty (bufs s b) \<or> (ide_poll (port_in s 0x1f7) \<noteq> None \<and> BSIZE \<le> length (port_in s 0x1f0))) \<and>
     start_ready s (ide_status s b) ys"

lemma ideintr_reads:
  fixes u :: "'x ide_state_scheme"
  assumes "b_dirty (bufs u b) \<or> (ide_poll (port_in u 0x1f7) \<noteq> None \<and> BSIZE \<le> length (port_in u 0x1f0))"
  shows "\<exists>po. kbind (get_buf b_dirty b) (\<lambda>dirty. kwhen (\<not> dirty) (kbind (idewait True) (\<lambda>r.
      kwhen (r \<ge> 0) (kbind (insl 0x1f0 BSIZE) (\<lambda>d. set_buf b (\<lambda>x. x\<lparr>b_data := d\<rparr>)))))) u =
    Ok () (u\<lparr>bufs := (bufs u)(b := (bufs u b)\<lparr>b_data := ide_data u b\<rparr>), port_in := po\<rparr>) \<and> po 0x1f7 = ide_status u b"
proof (cases "b_dirty (bufs u b)")
  case True
  then show ?thesis by (intro exI[of _ "port_in u"]) (simp add: k_simps buf_ops ide_data_def ide_status_def)
next
  case False
  then obtain r rest where r: "ide_poll (port_in u 0x1f7) = Some (r, rest)" "BSIZE \<le> length (port_in u 0x1f0)" using assms by auto
  show ?thesis
  proof (cases "r AND (IDE_DF OR IDE_ERR) = 0")
    case True
    then show ?thesis using False r
      by (intro exI[of _ "(port_in u)(0x1f7 := rest, 0x1f0 := drop BSIZE (port_in u 0x1f0))"])
        (simp add: k_simps buf_ops ide_data_def ide_status_def idewait_def insl_def)
  next
    case err: False
    then show ?thesis using False r
      by (intro exI[of _ "(port_in u)(0x1f7 := rest)"]) (simp add: k_simps buf_ops ide_data_def ide_status_def idewait_def)
  qed
qed

lemma idestart_next:
  fixes s u :: "'x ide_state_scheme"
  assumes l: "ide_list (qnext u) (idequeue u) ys" and r: "start_ready s (port_in u 0x1f7) ys" and b: "\<And>c. c \<in> set ys \<Longrightarrow> bufs u c = bufs s c"
  shows "\<exists>po ev. kbind (kget idequeue) (\<lambda>q. case q of None \<Rightarrow> kret () | Some c \<Rightarrow> idestart c) u =
    Ok () (u\<lparr>port_in := po, io_trace := io_trace u @ ev\<rparr>) \<and> starts s ys ev"
proof (cases ys)
  case Nil
  then show ?thesis using l by (intro exI[of _ "port_in u"] exI[of _ "[]"]) (simp add: k_simps starts_def)
next
  case (Cons c zs)
  then obtain x rest where "ide_poll (port_in u 0x1f7) = Some (x, rest)" "b_no (bufs u c) < FSSIZE" "idequeue u = Some c"
    using r l b[of c] by (auto simp: start_ready_def)
  then show ?thesis using idestart_ok[of u c x rest] b[of c] Cons by (auto simp: k_simps starts_def)
qed

lemma ideintr_ok:
  fixes s :: "'x ide_state_scheme"
  assumes q: "quiet s" and xs: "ide_queue s (b # ys)" and a: "answers b ys s"
  shows "\<exists>t ev. ideintr s = Ok () t \<and> quiet t \<and> ide_queue t ys \<and>
    bufs t = (bufs s)(b := (bufs s b)\<lparr>b_data := ide_data s b, b_valid := True, b_dirty := False\<rparr>) \<and>
    io_trace t = io_trace s @ ev \<and> starts s ys ev \<and> ptable t = ptable (wake_all (Some (BufChan b)) s)"
proof -
  let ?u = "(taken IdeLock s)\<lparr>idequeue := qnext s b\<rparr>"
  have lf: "lock_free IdeLock s" using q by (simp add: quiet_def)
  have h: "idequeue s = Some b" "ide_list (qnext s) (qnext s b) ys" "b \<notin> set ys" "distinct ys" "length ys \<le> NBUF"
    using xs by (auto simp: ide_queue_def)
  have sd: "ide_data ?u b = ide_data s b" "ide_status ?u b = ide_status s b" by (simp_all add: ide_data_def ide_status_def taken_ide cong: if_cong option.case_cong prod.case_cong)
  obtain po where po: "kbind (get_buf b_dirty b) (\<lambda>dirty. kwhen (\<not> dirty) (kbind (idewait True) (\<lambda>r.
      kwhen (r \<ge> 0) (kbind (insl 0x1f0 BSIZE) (\<lambda>d. set_buf b (\<lambda>x. x\<lparr>b_data := d\<rparr>)))))) ?u =
      Ok () (?u\<lparr>bufs := (bufs s)(b := (bufs s b)\<lparr>b_data := ide_data s b\<rparr>), port_in := po\<rparr>)" "po 0x1f7 = ide_status s b"
    using ideintr_reads[of ?u b] a unfolding sd by (auto simp: answers_def taken_ide)
  define v where "v = ?u\<lparr>port_in := po, bufs := (bufs s)(b := (bufs s b)\<lparr>b_data := ide_data s b, b_valid := True, b_dirty := False\<rparr>)\<rparr>"
  have sv: "same_locks v (taken IdeLock s)" by (simp add: v_def same_locks_def)
  have "irq_ok (taken IdeLock s)" "lock_free PtableLock (taken IdeLock s)" using q by (auto simp: quiet_def irq_ok_taken lock_free_taken)
  then have "irq_ok v" "lock_free PtableLock v" using same_locks_cong[OF sv] by auto
  then have wk: "wakeup (BufChan b) v = Ok () (wake_all (Some (BufChan b)) v)" by (rule wakeup_eq)
  let ?w = "wake_all (Some (BufChan b)) v"
  have w: "qnext ?w = qnext s" "idequeue ?w = qnext s b" "port_in ?w = po" "io_trace ?w = io_trace s" "\<And>c. c \<in> set ys \<Longrightarrow> bufs ?w c = bufs s c"
    using h(3) by (auto simp: wake_all_def v_def taken_ide)
  obtain po' ev where st: "kbind (kget idequeue) (\<lambda>q. case q of None \<Rightarrow> kret () | Some c \<Rightarrow> idestart c) ?w =
      Ok () (?w\<lparr>port_in := po', io_trace := io_trace s @ ev\<rparr>)" "starts s ys ev"
    using idestart_next[of ?w ys s] w h(2) a po(2) by (auto simp: answers_def)
  let ?x = "?w\<lparr>port_in := po', io_trace := io_trace s @ ev\<rparr>"
  have sx: "same_locks ?x (taken IdeLock s)" using sv by (simp add: same_locks_def wake_all_def)
  have rel: "release IdeLock ?x = Ok () (restore_locks s ?x)" using q sx by (intro release_taken) (auto simp: quiet_def)
  have "ideintr s = Ok () (restore_locks s ?x)"
    unfolding ideintr_def kseq_Ok[where m = "acquire IdeLock" and s = s, OF acquire_free[OF lf]]
    using po(1) wk st(1) rel h(1) by (simp add: kbind_apply kseq_apply kget_apply kmod_apply taken_ide set_buf_def v_def)
  moreover have "quiet (restore_locks s ?x)" using q sx by (simp add: quiet_def irq_ok_def lock_free_def same_locks_def restore_locks_def)
  moreover have "ptable (restore_locks s ?x) = ptable (wake_all (Some (BufChan b)) s)"
    by (simp add: restore_locks_def wake_all_def v_def taken_ide cong: if_cong)
  moreover have "bufs (restore_locks s ?x) = (bufs s)(b := (bufs s b)\<lparr>b_data := ide_data s b, b_valid := True, b_dirty := False\<rparr>)"
    by (simp add: restore_locks_def wake_all_def v_def)
  moreover have "ide_queue (restore_locks s ?x) ys" using w h by (simp add: ide_queue_def restore_locks_def)
  ultimately show ?thesis using st(2) by (intro exI[of _ "restore_locks s ?x"] exI[of _ ev]) (simp add: restore_locks_def)
qed

text \<open>
  Claim C23. The driver serves requests in the order they are made. \<open>iderw\<close> of a locked buffer that needs the disk
  puts it at the end of the queue, programs the drive for it (its block number and drive in the registers, and the data of
  a write) exactly if the queue was empty, and leaves the caller asleep on the buffer. An interrupt completes exactly
  the first request: its buffer becomes valid and clean, with the bytes of the drive in it if it was a read that
  did not fail, its sleepers are woken, and the drive is programmed for the next request if there is one.
\<close>

theorem ide_fifo:
  fixes s :: "'x ide_state_scheme"
  assumes "quiet s" "ide_queue s xs"
  shows "(asks me b xs s \<longrightarrow> (\<exists>t ev. ide_iderw b s = Switch t \<and> ide_queue t (xs @ [b]) \<and> bufs t = bufs s \<and>
      io_trace t = io_trace s @ ev \<and> starts s (if xs = [] then [b] else []) ev \<and>
      p_state (ptable t me) = SLEEPING \<and> p_chan (ptable t me) = Some (BufChan b) \<and> locked (locks t IdeLock) = 0)) \<and>
    (\<forall>c ys. xs = c # ys \<and> answers c ys s \<longrightarrow> (\<exists>t ev. ideintr s = Ok () t \<and> quiet t \<and> ide_queue t ys \<and>
      bufs t = (bufs s)(c := (bufs s c)\<lparr>b_data := ide_data s c, b_valid := True, b_dirty := False\<rparr>) \<and>
      io_trace t = io_trace s @ ev \<and> starts s ys ev \<and> ptable t = ptable (wake_all (Some (BufChan c)) s)))"
proof (intro conjI impI allI)
  assume "asks me b xs s"
  then show "\<exists>t ev. ide_iderw b s = Switch t \<and> ide_queue t (xs @ [b]) \<and> bufs t = bufs s \<and>
      io_trace t = io_trace s @ ev \<and> starts s (if xs = [] then [b] else []) ev \<and>
      p_state (ptable t me) = SLEEPING \<and> p_chan (ptable t me) = Some (BufChan b) \<and> locked (locks t IdeLock) = 0"
    by (rule ide_iderw_ok[OF assms])
next
  fix c ys
  assume "xs = c # ys \<and> answers c ys s"
  then show "\<exists>t ev. ideintr s = Ok () t \<and> quiet t \<and> ide_queue t ys \<and>
      bufs t = (bufs s)(c := (bufs s c)\<lparr>b_data := ide_data s c, b_valid := True, b_dirty := False\<rparr>) \<and>
      io_trace t = io_trace s @ ev \<and> starts s ys ev \<and> ptable t = ptable (wake_all (Some (BufChan c)) s)"
    using ideintr_ok[of s c ys] assms by blast
qed

text \<open>A read of buffer 0 that is active, with a request for buffer 1 to come.\<close>

definition demo_ide :: ide_state where
  "demo_ide = io_state.extend (sys_state.extend (file_state.extend
       ((pipe_state False)\<lparr>slocks := (\<lambda>_. \<lparr>sl_locked = 1, sl_name = [], sl_pid = 1\<rparr>)\<rparr>)
         \<lparr>forkret_first = False, ticks = 0, kbd_shift = 0, idt = 0, \<dots> = ()\<rparr>)
         \<lparr>port_in = (\<lambda>p. if p = 0x1f7 then [0x80, 0x40] else replicate BSIZE 7), io_trace = [], ioapic_regs = (\<lambda>_. 0), lapic = 0,
          lapic_regs = (\<lambda>_. 0), ncpu = 1, apicids = (\<lambda>_. 0), cpu_started = (\<lambda>_. False), ioapicid = 0, cpunum_warned = False, \<dots> = ()\<rparr>)
         \<lparr>idequeue = Some 0, qnext = (\<lambda>_. None), havedisk1 = False, \<dots> = ()\<rparr>"

lemma demo_ide_ok:
  "quiet demo_ide" "ide_queue demo_ide [0]" "asks 0 1 [0] demo_ide" "answers 0 [] demo_ide" "ide_data demo_ide 0 = replicate BSIZE 7"
proof -
  note ex = demo_ide_def io_state.defs sys_state.defs file_state.defs
  note ps = pipe_state_ok[of False]
  have buf: "bufs demo_ide b = boot_buf" for b
    by (simp add: ex pipe_state_def cons_state.defs boot_cons_def fs_state.defs boot_fs_def log_state.defs boot_log_def bio_state.defs boot_bio_def
        sleep_state.defs)
  have po: "ide_poll (port_in demo_ide 0x1f7) = Some (0x40, [])" "port_in demo_ide 0x1f0 = replicate BSIZE 7"
    by (simp_all add: ex IDE_BSY_def IDE_DRDY_def)
  show "quiet demo_ide" using ps(1) by (simp add: ex quiet_def irq_ok_def lock_free_def)
  show "ide_queue demo_ide [0]" by (simp add: ide_queue_def ex NBUF_def)
  have "ncli (cpus demo_ide (cpuid demo_ide)) = 0" "myproc demo_ide = Some 0" using ps(2,3) by (simp_all add: ex myproc_def)
  moreover have "sl_locked (slocks demo_ide (BufSleep 1)) \<noteq> 0" by (simp add: ex)
  ultimately show "asks 0 1 [0] demo_ide" by (simp add: asks_def buf boot_buf_def NBUF_def)
  show "answers 0 [] demo_ide" using po by (simp add: answers_def start_ready_def)
  show "ide_data demo_ide 0 = replicate BSIZE 7" by (simp add: ide_data_def buf boot_buf_def po IDE_DF_def IDE_ERR_def)
qed

theorem ide_fifo_witness:
  "(\<exists>t. ide_iderw 1 demo_ide = Switch t \<and> ide_queue t [0, 1] \<and> p_chan (ptable t 0) = Some (BufChan 1)) \<and>
   (\<exists>t. ideintr demo_ide = Ok () t \<and> ide_queue t [] \<and> b_data (bufs t 0) = replicate BSIZE 7 \<and> b_valid (bufs t 0))"
  using ide_fifo[OF demo_ide_ok(1,2), of 0 1] demo_ide_ok(3-5) by auto

end
