(* ===== verification/Content.thy ===== *)
theory Content
  imports Dir
begin

text \<open>
  The contents of a file. On top of the log's view of the disk, an inode gives a file's bytes: block
  \<open>bn\<close> of the file is block \<open>fblock s ip bn\<close> of the disk. \<open>readi\<close> and \<open>writei\<close> read and change exactly these
  bytes, whatever block boundaries the range crosses and whether or not the blocks are reached through the
  indirect block.
\<close>

section \<open>Reading and logging blocks\<close>

text \<open>\<open>reads s t\<close>: the step only read blocks. \<open>logs k s t\<close>: it changed blocks through the log, at most \<open>k\<close> new ones.\<close>

definition reads :: "'x fs_state_scheme \<Rightarrow> 'x fs_state_scheme \<Rightarrow> bool" where
  "reads s t \<longleftrightarrow> log_ok t \<and> bio_frame s t \<and> babs t = babs s"

definition logs :: "nat \<Rightarrow> 'x fs_state_scheme \<Rightarrow> 'x fs_state_scheme \<Rightarrow> bool" where
  "logs k s t \<longleftrightarrow> log_ok t \<and> log_frame_rel s t \<and> lh_n t \<le> lh_n s + int k \<and> dblock (memdisk t) = dblock (memdisk s)"

lemma more_fs:
  assumes "log_state.more t = log_state.more s"
  shows "icache t = icache s" "fs_sb t = fs_sb s" "devsw t = devsw s" "fs_state.more t = fs_state.more s"
  using assms by (cases s; cases t; simp)+

lemma reads_logs: "reads s t \<Longrightarrow> logs 0 s t"
  using log_frame(6)[of s t] by (auto simp: reads_def logs_def babs_def intro: log_frame_bio)

lemma reads_refl: "log_ok s \<Longrightarrow> reads s s"
  by (simp add: reads_def bio_frame.frame_refl)

lemma reads_trans: "reads s t \<Longrightarrow> reads t u \<Longrightarrow> reads s u"
  by (auto simp: reads_def intro: bio_frame.frame_trans)

lemma logs_trans: "logs j s t \<Longrightarrow> logs k t u \<Longrightarrow> logs (j + k) s u"
  by (auto simp: logs_def intro: log_frame_trans)

lemma logsD:
  assumes "logs k s t"
  shows "log_ok t" "icache t = icache s" "fs_sb t = fs_sb s" "disksize t = disksize s" "lg_start t = lg_start s"
    "lg_size t = lg_size s" "devsw t = devsw s" "can_log s (k + j) \<Longrightarrow> can_log t j" "quiet t"
proof -
  have f: "log_frame_rel s t" using assms by (simp add: logs_def)
  note g = log_frame_relD[OF f] and m = more_fs[OF log_frame_relD(6)[OF f]]
  show "log_ok t" using assms by (simp add: logs_def)
  then show "quiet t" using log_okD(2) by (auto simp: bc_inv_def)
  show "icache t = icache s" "fs_sb t = fs_sb s" "disksize t = disksize s" "lg_start t = lg_start s"
    "lg_size t = lg_size s" "devsw t = devsw s" using g m by simp_all
  show "can_log s (k + j) \<Longrightarrow> can_log t j" using assms g by (auto simp: logs_def can_log_def)
qed

lemma readsD:
  assumes "reads s t"
  shows "log_ok t" "icache t = icache s" "fs_sb t = fs_sb s" "disksize t = disksize s" "lg_start t = lg_start s"
    "lg_size t = lg_size s" "devsw t = devsw s" "can_log t j \<longleftrightarrow> can_log s j" "view t = view s" "dirty t = dirty s" "lh_n t = lh_n s"
proof -
  have b: "bio_frame s t" "babs t = babs s" using assms by (simp_all add: reads_def)
  show "view t = view s" "dirty t = dirty s" using b(2) by (simp_all add: babs_def)
  show "lh_n t = lh_n s" using log_frame(6)[OF b(1)] .
  then show "can_log t j \<longleftrightarrow> can_log s j" using log_frame[OF b(1)] by (simp add: can_log_def)
qed (use logsD[OF reads_logs[OF assms]] in simp_all)

lemma can_log_le: "can_log s k \<Longrightarrow> j \<le> k \<Longrightarrow> can_log s j"
  by (auto simp: can_log_def)

definition read_block :: "nat \<Rightarrow> ('x log_state_scheme, uchar list) km" where
  "read_block n = kbind (bread 1 n) (\<lambda>b. kbind (get_buf b_data b) (\<lambda>d. kseq (brelse b) (kret d)))"

lemma log_read:
  fixes s :: "'x fs_state_scheme"
  assumes "log_ok s" and "n < disksize s"
  shows "\<exists>t. read_block n s = Ok (view s n) t \<and> reads s t"
proof -
  note g = log_okD[OF assms(1)]
  obtain t where t: "read_block n s = Ok (view s n) t" "bc_inv t" "babs t = babs s" "bio_frame s t"
    using bc.read_block[OF g(2) assms(2), of "\<lambda>d. d"] log_room(1)[OF assms(1)] g(4) by (auto simp: read_block_def get_buf_def)
  have "dirty t = dirty s" "dblock (memdisk t) = dblock (memdisk s)" "held t = held s" using t(3) by (simp_all add: babs_def)
  then have "log_ok t" using log_core_cong[OF _ t(2,4)] assms(1) g(4) by (simp add: log_ok_def)
  then show ?thesis using t by (auto simp: reads_def)
qed

text \<open>Blocks that the file system may change: on the disk, not in the log, with a number the header can hold.\<close>

definition data_block :: "'x log_state_scheme \<Rightarrow> nat \<Rightarrow> bool" where
  "data_block s n \<longleftrightarrow> home (lg_start s) (lg_size s) n \<and> n < 2 ^ 32 \<and> n < disksize s"

lemma data_block_logs: "logs k s t \<Longrightarrow> data_block t n \<longleftrightarrow> data_block s n"
  using logsD(4-6)[of k s t] by (simp add: data_block_def)

lemma log_change:
  fixes s :: "'x fs_state_scheme"
  assumes "log_ok s" and "data_block s n" and "can_log s 1" and "length (f (view s n)) = BSIZE"
  shows "\<exists>t. update_block n f s = Ok () t \<and> logs 1 s t \<and> view t = (view s)(n := f (view s n))"
proof -
  obtain t where t: "update_block n f s = Ok () t" "log_ok t" "log_frame_rel s t"
      "babs t = (babs s)\<lparr>bc_view := (view s)(n := f (view s n)), bc_dirty := insert n (dirty s)\<rparr>"
      "lh_n t = (if n \<in> dirty s then lh_n s else lh_n s + 1)"
    using log_update[OF assms(1) _ _ _ assms(3), of n f] assms(2,4) by (auto simp: data_block_def)
  then have "logs 1 s t" "view t = (view s)(n := f (view s n))" by (auto simp: logs_def babs_def)
  then show ?thesis using t(1) by blast
qed

section \<open>The blocks of a file\<close>

definition fblock :: "'x fs_state_scheme \<Rightarrow> nat \<Rightarrow> nat \<Rightarrow> nat" where
  "fblock s ip bn =
     (if bn < NDIRECT then i_addrs (icache s ip) bn
      else unat (get32 (4 * (bn - NDIRECT)) (view s (i_addrs (icache s ip) NDIRECT))))"

definition ind_block :: "'x fs_state_scheme \<Rightarrow> nat \<Rightarrow> nat" where
  "ind_block s ip = i_addrs (icache s ip) NDIRECT"

text \<open>The first \<open>N\<close> blocks of the file are allocated, distinct, and none of them is the indirect block.\<close>

definition file_ok :: "'x fs_state_scheme \<Rightarrow> nat \<Rightarrow> nat \<Rightarrow> bool" where
  "file_ok s ip N \<longleftrightarrow> i_dev (icache s ip) = 1 \<and> N \<le> MAXFILE \<and> (\<forall>bn<N. fblock s ip bn \<noteq> 0 \<and> data_block s (fblock s ip bn)) \<and>
     inj_on (fblock s ip) {..<N} \<and>
     (NDIRECT < N \<longrightarrow> ind_block s ip \<noteq> 0 \<and> ind_block s ip < disksize s \<and> ind_block s ip \<notin> fblock s ip ` {..<N})"

lemma bmap_mapped:
  assumes "log_ok s" "file_ok s ip N" "bn < N"
  shows "\<exists>t. bmap ip bn s = Ok (fblock s ip bn) t \<and> reads s t"
proof (cases "bn < NDIRECT")
  case True
  then show ?thesis
    using assms reads_refl[OF assms(1)] by (auto simp: bmap_def k_simps get_inode_def fblock_def file_ok_def)
next
  case False
  then have i: "ind_block s ip \<noteq> 0" "ind_block s ip < disksize s" "bn - NDIRECT < NINDIRECT" "i_dev (icache s ip) = 1"
    using assms(2,3) by (auto simp: file_ok_def MAXFILE_def)
  have a: "get32 (4 * (bn - NDIRECT)) (view s (ind_block s ip)) \<noteq> 0"
    using assms(2,3) False by (auto simp: file_ok_def fblock_def ind_block_def)
  obtain t where t: "read_block (ind_block s ip) s = Ok (view s (ind_block s ip)) t" "reads s t"
    using log_read[OF assms(1) i(2)] by blast
  then have "bmap ip bn s = Ok (fblock s ip bn) t"
    using i a False unfolding read_block_def
    by (auto simp: bmap_def k_simps get_inode_def get_buf_def fblock_def ind_block_def split: outcome.splits)
  then show ?thesis using t(2) by blast
qed

text \<open>Byte \<open>i\<close> of the file.\<close>

definition fbyte :: "'x fs_state_scheme \<Rightarrow> nat \<Rightarrow> nat \<Rightarrow> uchar" where
  "fbyte s ip i = view s (fblock s ip (i div BSIZE)) ! (i mod BSIZE)"

lemma BSIZE_pos [simp]: "0 < BSIZE" "BSIZE \<noteq> 0"
  by (simp_all add: BSIZE_def)

lemma in_block:
  assumes "off mod BSIZE + m \<le> BSIZE" "off \<le> i" "i < off + m"
  shows "i div BSIZE = off div BSIZE" "i mod BSIZE = off mod BSIZE + (i - off)"
proof -
  have "i = off div BSIZE * BSIZE + (off mod BSIZE + (i - off))" using assms(2) by (simp add: div_mult_mod_eq)
  moreover have "off mod BSIZE + (i - off) < BSIZE" using assms by linarith
  ultimately show "i div BSIZE = off div BSIZE" "i mod BSIZE = off mod BSIZE + (i - off)"
    by (metis add.right_neutral add_cancel_right_right div_less div_mult_self3 BSIZE_pos(2) mod_less mod_mult_self3 mult.commute)+
qed

lemma chunk_bytes:
  assumes "off mod BSIZE + m \<le> BSIZE" "length (view s (fblock s ip (off div BSIZE))) = BSIZE"
  shows "chunk (off mod BSIZE) m (view s (fblock s ip (off div BSIZE))) = map (fbyte s ip) [off..<off + m]"
proof (rule nth_equalityI)
  fix i
  assume "i < length (chunk (off mod BSIZE) m (view s (fblock s ip (off div BSIZE))))"
  then have "i < m" using assms by simp
  then show "chunk (off mod BSIZE) m (view s (fblock s ip (off div BSIZE))) ! i = map (fbyte s ip) [off..<off + m] ! i"
    using assms in_block[OF assms(1), of "off + i"] by (simp add: nth_chunk fbyte_def)
qed (use assms in simp)

lemma block_below: "off < N * BSIZE \<Longrightarrow> off div BSIZE < N"
  by (simp add: div_less_iff_less_mult mult.commute)

lemma file_ok_reads: "reads s t \<Longrightarrow> file_ok t ip N \<longleftrightarrow> file_ok s ip N" "reads s t \<Longrightarrow> fblock t ip = fblock s ip"
  "reads s t \<Longrightarrow> fbyte t ip = fbyte s ip"
proof -
  assume r: "reads s t"
  then show f: "fblock t ip = fblock s ip" using readsD[OF r] by (auto simp: fblock_def)
  then show "file_ok t ip N \<longleftrightarrow> file_ok s ip N"
    using readsD[OF r] by (simp add: file_ok_def ind_block_def data_block_def)
  show "fbyte t ip = fbyte s ip" using f readsD[OF r] by (auto simp: fbyte_def)
qed

lemma file_block_len:
  assumes "log_ok s" "file_ok s ip N" "bn < N"
  shows "length (view s (fblock s ip bn)) = BSIZE"
  using view_len[OF log_okD(2)[OF assms(1)]] assms(2,3) by (auto simp: file_ok_def data_block_def)

lemma readi_loop_bytes:
  "log_ok s \<Longrightarrow> file_ok s ip N \<Longrightarrow> off + n \<le> N * BSIZE \<Longrightarrow>
     \<exists>t. readi_loop ip off n s = Ok (map (fbyte s ip) [off..<off + n]) t \<and> reads s t"
proof (induction n arbitrary: off s rule: less_induct)
  case (less n)
  show ?case
  proof (cases "n = 0")
    case True
    then show ?thesis using reads_refl[OF less.prems(1)] by (simp add: readi_loop.simps k_simps)
  next
    case False
    define m where "m = min n (BSIZE - off mod BSIZE)"
    have lt: "off mod BSIZE < BSIZE" by simp
    have m: "0 < m" "m \<le> n" "off mod BSIZE + m \<le> BSIZE" using False lt unfolding m_def by linarith+
    have bn: "off div BSIZE < N" using less.prems(3) False by (intro block_below) simp
    obtain t where t: "bmap ip (off div BSIZE) s = Ok (fblock s ip (off div BSIZE)) t" "reads s t"
      using bmap_mapped[OF less.prems(1,2) bn] by blast
    note rt = readsD[OF t(2)]
    have dev: "i_dev (icache s ip) = 1" "fblock s ip (off div BSIZE) < disksize s"
      using less.prems(2) bn by (auto simp: file_ok_def data_block_def)
    obtain u where u: "read_block (fblock s ip (off div BSIZE)) t = Ok (view s (fblock s ip (off div BSIZE))) u" "reads t u"
      using log_read[OF rt(1), of "fblock s ip (off div BSIZE)"] dev rt by auto
    have su: "reads s u" using reads_trans[OF t(2) u(2)] .
    obtain v where v: "readi_loop ip (off + m) (n - m) u = Ok (map (fbyte u ip) [off + m..<off + m + (n - m)]) v" "reads u v"
      using less.IH[of "n - m" u "off + m"] readsD(1)[OF su] file_ok_reads(1)[OF su] less.prems m by auto
    have "chunk (off mod BSIZE) m (view s (fblock s ip (off div BSIZE))) = map (fbyte s ip) [off..<off + m]"
      using chunk_bytes[OF m(3)] file_block_len[OF less.prems(1,2) bn] .
    moreover have "[off..<off + n] = [off..<off + m] @ [off + m..<off + m + (n - m)]"
      using m(2) upt_add_eq_append[of off "off + m" "n - m"] by simp
    moreover have "readi_loop ip off n s = Ok (chunk (off mod BSIZE) m (view s (fblock s ip (off div BSIZE))) @
        map (fbyte u ip) [off + m..<off + m + (n - m)]) v"
      using False t(1) u(1) v(1) dev rt(2) unfolding read_block_def
      by (subst readi_loop.simps)
        (auto simp: k_simps get_inode_def get_buf_def Let_def m_def[symmetric] split: outcome.splits)
    ultimately show ?thesis
      using reads_trans[OF su v(2)] file_ok_reads(3)[OF su] by auto
  qed
qed

section \<open>Writing\<close>

text \<open>What the first \<open>N\<close> blocks look like after bytes \<open>ys\<close> were written at \<open>off\<close>, and nothing else was changed.\<close>

definition wrote :: "nat \<Rightarrow> nat \<Rightarrow> nat \<Rightarrow> uchar list \<Rightarrow> 'x fs_state_scheme \<Rightarrow> 'x fs_state_scheme \<Rightarrow> bool" where
  "wrote ip N off ys s t \<longleftrightarrow> (\<forall>bn<N. fblock t ip bn = fblock s ip bn) \<and>
     (\<forall>i<N * BSIZE. fbyte t ip i = (if off \<le> i \<and> i < off + length ys then ys ! (i - off) else fbyte s ip i)) \<and>
     (\<forall>b. b \<notin> fblock s ip ` {..<N} \<longrightarrow> view t b = view s b)"

lemma wrote_append:
  assumes "wrote ip N off xs s t" "wrote ip N (off + length xs) ys t u"
  shows "wrote ip N off (xs @ ys) s u"
proof -
  have "fblock t ip ` {..<N} = fblock s ip ` {..<N}" using assms(1) by (auto simp: wrote_def)
  then show ?thesis
    using assms unfolding wrote_def by (auto simp: nth_append)
qed

lemma wrote_file_ok:
  assumes "logs k s t" "wrote ip N off ys s t" "file_ok s ip N"
  shows "file_ok t ip N"
proof -
  have f: "\<forall>bn<N. fblock t ip bn = fblock s ip bn" using assms(2) by (simp add: wrote_def)
  then have "fblock t ip ` {..<N} = fblock s ip ` {..<N}" "inj_on (fblock t ip) {..<N} \<longleftrightarrow> inj_on (fblock s ip) {..<N}"
    by (auto simp: inj_on_def)
  then show ?thesis
    using f assms(3) logsD(2,4)[OF assms(1)] data_block_logs[OF assms(1)] by (simp add: file_ok_def ind_block_def)
qed

lemma wrote_block:
  assumes ok: "log_ok s" "file_ok s ip N" and l: "logs k s t" and o1: "off div BSIZE < N" "off mod BSIZE + length ys \<le> BSIZE"
    and v: "view t = (view s)(fblock s ip (off div BSIZE) := patch (off mod BSIZE) ys (view s (fblock s ip (off div BSIZE))))"
  shows "wrote ip N off ys s t"
proof -
  let ?a = "fblock s ip (off div BSIZE)"
  have len: "length (view s ?a) = BSIZE" using file_block_len[OF ok o1(1)] .
  have "?a \<in> fblock s ip ` {..<N}" using o1(1) by simp
  then have "?a \<noteq> ind_block s ip" if "NDIRECT < N" using ok(2) that by (metis file_ok_def)
  then have f: "fblock t ip bn = fblock s ip bn" if "bn < N" for bn
    using that logsD(2)[OF l] by (auto simp: fblock_def v ind_block_def)
  have b: "fbyte t ip i = (if off \<le> i \<and> i < off + length ys then ys ! (i - off) else fbyte s ip i)" if i: "i < N * BSIZE" for i
  proof (cases "i div BSIZE = off div BSIZE")
    case True
    have lt: "i mod BSIZE < BSIZE" by simp
    have "i = off div BSIZE * BSIZE + i mod BSIZE" "off = off div BSIZE * BSIZE + off mod BSIZE"
      using True div_mult_mod_eq[of i BSIZE] by simp_all
    then have "off \<le> i \<and> i < off + length ys \<longleftrightarrow> off mod BSIZE \<le> i mod BSIZE \<and> i mod BSIZE < off mod BSIZE + length ys"
      and "off mod BSIZE \<le> i mod BSIZE \<Longrightarrow> i mod BSIZE - off mod BSIZE = i - off" by linarith+
    then show ?thesis
      using True f[OF o1(1)] nth_patch[of "off mod BSIZE" ys "view s ?a" "i mod BSIZE"] len o1(2) lt
      by (auto simp: fbyte_def v)
  next
    case False
    then have "fblock s ip (i div BSIZE) \<noteq> ?a"
      using ok(2) block_below[OF i] o1(1) by (auto simp: file_ok_def inj_on_def)
    moreover have "\<not> (off \<le> i \<and> i < off + length ys)" using False in_block(1)[OF o1(2)] by blast
    ultimately show ?thesis using f[OF block_below[OF i]] by (auto simp: fbyte_def v)
  qed
  show ?thesis
    using f b o1(1) by (auto simp: wrote_def v)
qed

lemma wrote_nil: "reads s t \<Longrightarrow> wrote ip N off [] s t"
  using file_ok_reads(2,3)[of s t ip] readsD(9)[of s t] by (auto simp: wrote_def)

text \<open>The number of blocks that \<open>n\<close> bytes at \<open>off\<close> touch.\<close>

definition touched :: "nat \<Rightarrow> nat \<Rightarrow> nat" where
  "touched off n = (if n = 0 then 0 else Suc ((off + n - 1) div BSIZE - off div BSIZE))"

lemma touched_step:
  assumes "n \<noteq> 0" and "m = min n (BSIZE - off mod BSIZE)"
  shows "touched off n = Suc (touched (off + m) (n - m))"
proof (cases "n \<le> BSIZE - off mod BSIZE")
  case True
  have lt: "off mod BSIZE < BSIZE" by simp
  have "off mod BSIZE + n \<le> BSIZE" using True lt by linarith
  then have "(off + n - 1) div BSIZE = off div BSIZE"
    using in_block(1)[of off n "off + n - 1"] assms(1) by simp
  then show ?thesis using True assms by (simp add: touched_def)
next
  case False
  have lt: "off mod BSIZE < BSIZE" by simp
  have m: "m = BSIZE - off mod BSIZE" using False assms(2) by simp
  have "off + m = (off div BSIZE + 1) * BSIZE" using lt m div_mult_mod_eq[of off BSIZE]
    unfolding distrib_right by linarith
  then have d: "(off + m) div BSIZE = off div BSIZE + 1" by simp
  have mn: "m < n" using False m by simp
  then have "(off + m) div BSIZE \<le> (off + n - 1) div BSIZE" by (intro div_le_mono) simp
  moreover have "off + m + (n - m) - 1 = off + n - 1" using mn by simp
  ultimately show ?thesis using mn d assms(1) unfolding touched_def by simp
qed

lemma writei_loop_bytes:
  "log_ok s \<Longrightarrow> file_ok s ip N \<Longrightarrow> off + length bs \<le> N * BSIZE \<Longrightarrow> can_log s (touched off (length bs)) \<Longrightarrow>
     \<exists>t. writei_loop ip off bs s = Ok () t \<and> logs (touched off (length bs)) s t \<and> wrote ip N off bs s t"
proof (induction "length bs" arbitrary: off bs s rule: less_induct)
  case less
  show ?case
  proof (cases "bs = []")
    case True
    then show ?thesis
      using reads_logs[OF reads_refl[OF less.prems(1)]] wrote_nil[OF reads_refl[OF less.prems(1)]]
      by (simp add: writei_loop.simps k_simps touched_def)
  next
    case False
    define m where "m = min (length bs) (BSIZE - off mod BSIZE)"
    have lt: "off mod BSIZE < BSIZE" by simp
    have m: "0 < m" "m \<le> length bs" "off mod BSIZE + m \<le> BSIZE" using False lt unfolding m_def by (simp_all, linarith)
    have c: "touched off (length bs) = 1 + touched (off + m) (length bs - m)" using touched_step[OF _ m_def] False by simp
    have "off < N * BSIZE" using less.prems(3) False by (cases bs) simp_all
    then have bn: "off div BSIZE < N" by (rule block_below)
    obtain t where t: "bmap ip (off div BSIZE) s = Ok (fblock s ip (off div BSIZE)) t" "reads s t"
      using bmap_mapped[OF less.prems(1,2) bn] by blast
    note rt = readsD[OF t(2)]
    let ?a = "fblock s ip (off div BSIZE)" and ?f = "patch (off mod BSIZE) (take m bs)"
    have dev: "i_dev (icache s ip) = 1" "data_block s ?a" using less.prems(2) bn by (auto simp: file_ok_def)
    have len: "length (view s ?a) = BSIZE" using file_block_len[OF less.prems(1,2) bn] .
    have "can_log t 1" using rt(8) can_log_le[OF less.prems(4), of 1] c by simp
    then obtain u where u: "update_block ?a ?f t = Ok () u" "logs 1 t u" "view u = (view t)(?a := ?f (view t ?a))"
      using log_change[OF rt(1), of ?a ?f] dev(2) data_block_logs[OF reads_logs[OF t(2)]] rt(9) len m by auto
    have su: "logs 1 s u" using logs_trans[OF reads_logs[OF t(2)] u(2)] by simp
    have w: "wrote ip N off (take m bs) s u"
      using wrote_block[OF less.prems(1,2) su bn, of "take m bs"] m u(3) rt(9) by simp
    have "length (drop m bs) < length bs" using m(1) False by (simp add: diff_less)
    then obtain v where v: "writei_loop ip (off + m) (drop m bs) u = Ok () v" "logs (touched (off + m) (length bs - m)) u v"
        "wrote ip N (off + m) (drop m bs) u v"
      using less.hyps[of "drop m bs" u "off + m"] m logsD(1,8)[OF su] wrote_file_ok[OF su w less.prems(2)] less.prems(3,4) c by auto
    have "writei_loop ip off bs s = Ok () v"
      using False t(1) u(1) v(1) dev rt(2) unfolding update_block_def
      by (subst writei_loop.simps)
        (auto simp: k_simps get_inode_def get_buf_def Let_def m_def[symmetric] split: outcome.splits)
    moreover have "wrote ip N off bs s v" using wrote_append[OF w, of "drop m bs" v] v(3) m(2) by simp
    ultimately show ?thesis using logs_trans[OF su v(2)] c by auto
  qed
qed

section \<open>The inode itself\<close>

definition put_inode :: "nat \<Rightarrow> inode \<Rightarrow> 'x fs_state_scheme \<Rightarrow> 'x fs_state_scheme" where
  "put_inode ip i s = s\<lparr>icache := (icache s)(ip := i)\<rparr>"

lemma put_inode_cache [simp]:
  "babs (put_inode ip i s) = babs s" "bc_inv (put_inode ip i s) = bc_inv s" "view (put_inode ip i s) = view s"
  "dirty (put_inode ip i s) = dirty s" "held (put_inode ip i s) = held s"
  using cache_cong[of "put_inode ip i s" s] by (simp_all add: put_inode_def)

lemma put_inode_sel [simp]:
  "icache (put_inode ip i s) = (icache s)(ip := i)" "fs_sb (put_inode ip i s) = fs_sb s" "disksize (put_inode ip i s) = disksize s"
  "lg_start (put_inode ip i s) = lg_start s" "lg_size (put_inode ip i s) = lg_size s" "lh_n (put_inode ip i s) = lh_n s"
  "lg_outstanding (put_inode ip i s) = lg_outstanding s" "memdisk (put_inode ip i s) = memdisk s"
  "can_log (put_inode ip i s) k = can_log s k" "log_ok (put_inode ip i s) = log_ok s" "data_block (put_inode ip i s) n = data_block s n"
proof -
  have "log_core (put_inode ip i s) = log_core s"
    unfolding log_core_def log_area_def put_inode_cache by (simp add: put_inode_def)
  then show "log_ok (put_inode ip i s) = log_ok s" by (simp add: log_ok_def)
qed (simp_all add: put_inode_def can_log_def data_block_def)

definition inode_block :: "'x fs_state_scheme \<Rightarrow> nat \<Rightarrow> nat" where
  "inode_block s ip = IBLOCK (i_inum (icache s ip)) (fs_sb s)"

lemma length_put16 [simp]: "off + 2 \<le> length d \<Longrightarrow> length (put16 off w d) = length d"
  by (simp add: put16_def)

lemma length_put32' [simp]: "off + 4 \<le> length d \<Longrightarrow> length (put32 off w d) = length d"
  by (simp add: put32_def)

lemma length_put_addrs [simp]: "off + 4 * k \<le> length d \<Longrightarrow> length (put_addrs off f k d) = length d"
  by (induction k) simp_all

lemma dip_off_le: "dip_off n + 64 \<le> BSIZE"
proof -
  have "n mod 8 < 8" by simp
  then show ?thesis unfolding dip_off_def IPB_def BSIZE_def by simp
qed

lemma length_dip_put [simp]: "length d = BSIZE \<Longrightarrow> length (dip_put i d) = BSIZE"
  using dip_off_le[of "i_inum i"] by (simp add: dip_put_def Let_def NDIRECT_def)

lemma iupdate_block: "i_dev (icache s ip) = 1 \<Longrightarrow> iupdate ip s = update_block (inode_block s ip) (dip_put (icache s ip)) s"
  by (simp add: iupdate_def update_block_def k_simps inode_block_def)

lemma iupdate_logs:
  assumes "log_ok s" "i_dev (icache s ip) = 1" "data_block s (inode_block s ip)" "can_log s 1"
  shows "\<exists>t. iupdate ip s = Ok () t \<and> logs 1 s t \<and>
    view t = (view s)(inode_block s ip := dip_put (icache s ip) (view s (inode_block s ip)))"
  using log_change[OF assms(1,3,4), of "dip_put (icache s ip)"] assms view_len[OF log_okD(2)[OF assms(1)]]
  by (simp add: iupdate_block data_block_def)

section \<open>readi and writei\<close>

definition contents :: "'x fs_state_scheme \<Rightarrow> nat \<Rightarrow> uchar list" where
  "contents s ip = map (fbyte s ip) [0..<unat (i_size (icache s ip))]"

text \<open>The inode is not a device and its bytes are in its first \<open>N\<close> blocks.\<close>

definition plain :: "'x fs_state_scheme \<Rightarrow> nat \<Rightarrow> nat \<Rightarrow> bool" where
  "plain s ip N \<longleftrightarrow> log_ok s \<and> file_ok s ip N \<and> i_type (icache s ip) \<noteq> T_DEV \<and> unat (i_size (icache s ip)) \<le> N * BSIZE"

lemma file_bytes_small:
  assumes "file_ok s ip N" "k \<le> N * BSIZE"
  shows "k \<le> MAXFILE * BSIZE" "k < 2 ^ 31"
proof -
  have "N * BSIZE \<le> MAXFILE * BSIZE" using assms(1) by (intro mult_right_mono) (simp_all add: file_ok_def)
  then show "k \<le> MAXFILE * BSIZE" using assms(2) by linarith
  then show "k < 2 ^ 31" by (simp add: MAXFILE_def NDIRECT_def NINDIRECT_def BSIZE_def)
qed

lemma unat_small: "n < 2 ^ 32 \<Longrightarrow> unat (of_nat n :: uint) = n"
  by (simp add: unat_of_nat)

lemma sint_small: "n < 2 ^ 31 \<Longrightarrow> sint (of_nat n :: uint) = int n"
  by (simp add: sint_uint uint_nat unat_of_nat signed_take_bit_int_eq_self)

lemma readi_contents:
  fixes s :: "'x cons_state_scheme"
  assumes "plain s ip N"
  defines "sz \<equiv> unat (i_size (icache s ip))"
  shows "if unat off > sz \<or> unat off + unat n \<ge> 2 ^ 32 then readi ip off n s = Ok (- 1, []) s
    else \<exists>t. readi ip off n s = Ok (int (min (unat n) (sz - unat off)), chunk (unat off) (unat n) (contents s ip)) t \<and> reads s t"
proof (cases "unat off > sz \<or> unat off + unat n \<ge> 2 ^ 32")
  case True
  have "off + n < off" if "unat off + unat n \<ge> 2 ^ 32"
    using that unsigned_less[of n, where ?'a = nat] unsigned_less[of off, where ?'a = nat]
    by (simp add: word_less_nat_alt unat_word_ariths mod_if) linarith
  then show ?thesis
    using True assms by (auto simp: plain_def readi_def k_simps get_inode_def word_less_nat_alt sz_def)
next
  case False
  have pl: "log_ok s" "file_ok s ip N" "i_type (icache s ip) \<noteq> T_DEV" "sz \<le> N * BSIZE"
    using assms(1) by (simp_all add: plain_def sz_def)
  have add: "unat (off + n) = unat off + unat n" using False unat_add_lem[of off n] by simp
  then have w: "\<not> off + n < off" "\<not> i_size (icache s ip) < off" using False by (auto simp: word_less_nat_alt sz_def)
  define n' where "n' = (if off + n > i_size (icache s ip) then i_size (icache s ip) - off else n)"
  have n': "unat n' = min (unat n) (sz - unat off)"
    using False add by (auto simp: n'_def word_less_nat_alt sz_def unat_sub word_le_nat_alt)
  have fit: "unat off + unat n' \<le> sz" using n' False by linarith
  obtain t where t: "readi_loop ip (unat off) (unat n') s = Ok (map (fbyte s ip) [unat off..<unat off + unat n']) t" "reads s t"
    using readi_loop_bytes[OF pl(1,2), of "unat off" "unat n'"] fit pl(4) by auto
  have "take (unat n) [unat off..<sz] = [unat off..<unat off + unat n']"
  proof (cases "unat n \<le> sz - unat off")
    case True
    then have "unat off + unat n \<le> sz" using False by linarith
    then show ?thesis using True n' by (simp add: take_upt)
  qed (use n' False in simp)
  then have "map (fbyte s ip) [unat off..<unat off + unat n'] = chunk (unat off) (unat n) (contents s ip)"
    by (simp add: chunk_def contents_def sz_def[symmetric] drop_map take_map)
  moreover have "sint n' = int (min (unat n) (sz - unat off))"
  proof -
    have "unat n' < 2 ^ 31" using file_bytes_small(2)[OF pl(2), of "unat n'"] fit pl(4) by simp
    then have "sint n' = int (unat n')" using sint_small[of "unat n'"] by simp
    then show ?thesis using n' by simp
  qed
  ultimately show ?thesis
    using False w pl(3) t by (simp add: readi_def k_simps get_inode_def n'_def[symmetric] Let_def)
qed

text \<open>The inode's own block is neither a block of the file nor its indirect block.\<close>

definition inode_apart :: "'x fs_state_scheme \<Rightarrow> nat \<Rightarrow> nat \<Rightarrow> bool" where
  "inode_apart s ip N \<longleftrightarrow> data_block s (inode_block s ip) \<and> inode_block s ip \<notin> fblock s ip ` {..<N} \<and>
     (NDIRECT < N \<longrightarrow> inode_block s ip \<noteq> ind_block s ip)"

text \<open>What \<open>writei\<close> leaves: the inode with its new size, the file with its new bytes, every other block as it was.\<close>

definition written :: "nat \<Rightarrow> nat \<Rightarrow> nat \<Rightarrow> uchar list \<Rightarrow> 'x fs_state_scheme \<Rightarrow> 'x fs_state_scheme \<Rightarrow> bool" where
  "written ip N off bs s t \<longleftrightarrow> plain t ip N \<and> contents t ip = patch off bs (contents s ip) \<and>
     icache t = (icache s)(ip := (icache s ip)\<lparr>i_size := of_nat (max (unat (i_size (icache s ip))) (off + length bs))\<rparr>) \<and>
     (\<forall>b. b \<notin> fblock s ip ` {..<N} \<and> b \<noteq> inode_block s ip \<longrightarrow> view t b = view s b)"

lemma patch_bytes:
  assumes "length xs = n" "off \<le> n"
    "\<And>i. i < max n (off + length bs) \<Longrightarrow> g i = (if off \<le> i \<and> i < off + length bs then bs ! (i - off) else xs ! i)"
  shows "map g [0..<max n (off + length bs)] = patch off bs xs"
  using assms by (intro nth_equalityI) (auto simp: patch_def nth_append)

lemma wrote_contents:
  assumes w: "wrote ip N off bs s t" and ic: "icache t = icache s" and sz: "off \<le> unat (i_size (icache s ip))"
    and fit: "max (unat (i_size (icache s ip))) (off + length bs) \<le> N * BSIZE"
  shows "map (fbyte t ip) [0..<max (unat (i_size (icache s ip))) (off + length bs)] = patch off bs (contents s ip)"
  using w fit sz by (intro patch_bytes) (auto simp: wrote_def contents_def)

lemma fblock_same:
  assumes "i_addrs (icache t ip) = i_addrs (icache s ip)" "view t = (view s)(n := d)"
    "NDIRECT < N \<longrightarrow> n \<noteq> ind_block s ip" "n \<notin> fblock s ip ` {..<N}"
  shows "bn < N \<Longrightarrow> fblock t ip bn = fblock s ip bn" "i < N * BSIZE \<Longrightarrow> fbyte t ip i = fbyte s ip i"
proof -
  show f: "fblock t ip bn = fblock s ip bn" if "bn < N" for bn using assms that by (auto simp: fblock_def ind_block_def)
  show "i < N * BSIZE \<Longrightarrow> fbyte t ip i = fbyte s ip i"
    using f block_below[of i N] assms(2,4) by (auto simp: fbyte_def)
qed

lemma written_grow:
  fixes s t u :: "'x fs_state_scheme"
  assumes pl: "plain s ip N" and ap: "inode_apart s ip N" and l: "logs k s t" and w: "wrote ip N off bs s t"
    and sz: "off \<le> unat (i_size (icache s ip))" "unat (i_size (icache s ip)) < off + length bs" "off + length bs \<le> N * BSIZE"
  defines "i' \<equiv> (icache s ip)\<lparr>i_size := of_nat (off + length bs)\<rparr>"
  assumes u: "logs 1 (put_inode ip i' t) u" "view u = (view t)(inode_block s ip := d)"
  shows "written ip N off bs s u"
proof -
  note tD = logsD[OF l] and uD = logsD[OF u(1)]
  have pD: "file_ok s ip N" "i_type (icache s ip) \<noteq> T_DEV" using pl by (simp_all add: plain_def)
  have ok: "file_ok t ip N" using wrote_file_ok[OF l w pD(1)] .
  have small: "off + length bs < 2 ^ 32" using file_bytes_small(2)[OF pD(1) sz(3)] by simp
  have ic: "icache u = (icache s)(ip := i')" using uD(2) tD(2) by simp
  have im: "fblock t ip ` {..<N} = fblock s ip ` {..<N}" using w by (auto simp: wrote_def)
  have a: "i_addrs (icache u ip) = i_addrs (icache t ip)" using ic tD(2) by (simp add: i'_def)
  have "NDIRECT < N \<longrightarrow> inode_block s ip \<noteq> ind_block t ip" "inode_block s ip \<notin> fblock t ip ` {..<N}"
    using ap im tD(2) by (auto simp: inode_apart_def ind_block_def)
  note fs = fblock_same[OF a u(2) this]
  have fu: "\<forall>bn<N. fblock u ip bn = fblock s ip bn" using fs(1) w by (simp add: wrote_def)
  then have "fblock u ip ` {..<N} = fblock s ip ` {..<N}" "inj_on (fblock u ip) {..<N} \<longleftrightarrow> inj_on (fblock s ip) {..<N}"
    by (auto simp: inj_on_def)
  moreover have "data_block u n = data_block s n" for n using data_block_logs[OF u(1)] data_block_logs[OF l] by simp
  ultimately have oku: "file_ok u ip N"
    using pD(1) fu ic uD(4) tD(4) by (simp add: file_ok_def ind_block_def i'_def)
  have size: "unat (i_size (icache u ip)) = off + length bs" using ic unat_small[OF small] by (simp add: i'_def del: of_nat_add)
  have m: "max (unat (i_size (icache s ip))) (off + length bs) = off + length bs" using sz(2) by simp
  have "contents u ip = map (fbyte t ip) [0..<off + length bs]"
    unfolding contents_def size using fs(2) sz(3) by auto
  then have "contents u ip = patch off bs (contents s ip)"
    using wrote_contents[OF w tD(2) sz(1)] sz(3) m by simp
  moreover have "\<forall>b. b \<notin> fblock s ip ` {..<N} \<and> b \<noteq> inode_block s ip \<longrightarrow> view u b = view s b"
    using u(2) w by (auto simp: wrote_def)
  ultimately show ?thesis
    using oku uD(1) pD(2) ic m size sz(3) by (simp add: written_def plain_def i'_def)
qed

lemma writei_contents:
  fixes s :: "'x cons_state_scheme"
  assumes pl: "plain s ip N" and ap: "inode_apart s ip N" and sz: "unat off \<le> unat (i_size (icache s ip))"
    and fit: "unat off + length bs \<le> N * BSIZE" and can: "can_log s (touched (unat off) (length bs) + 1)"
  shows "\<exists>t. writei ip off bs s = Ok (int (length bs)) t \<and> written ip N (unat off) bs s t"
proof -
  have pD: "log_ok s" "file_ok s ip N" "i_type (icache s ip) \<noteq> T_DEV" "unat (i_size (icache s ip)) \<le> N * BSIZE"
    using pl by (simp_all add: plain_def)
  let ?n = "of_nat (length bs) :: uint"
  note small = file_bytes_small[OF pD(2) fit]
  have n: "unat ?n = length bs" "sint ?n = int (length bs)" using small(2) sint_small[of "length bs"] by (simp_all add: unat_of_nat)
  have add: "unat (off + ?n) = unat off + length bs"
    using unat_add_lem[of off ?n] n(1) small(2) by simp
  have g: "\<not> i_size (icache s ip) < off" "\<not> off + ?n < off" "\<not> MAXFILE * BSIZE < unat (off + ?n)"
    using sz add small(1) by (auto simp: word_less_nat_alt)
  obtain t where t: "writei_loop ip (unat off) bs s = Ok () t" "logs (touched (unat off) (length bs)) s t" "wrote ip N (unat off) bs s t"
    using writei_loop_bytes[OF pD(1,2) fit] can_log_le[OF can] by auto
  note tD = logsD[OF t(2)]
  have run: "writei ip off bs s =
      kseq (kbind (get_inode i_size ip) (\<lambda>sz. kwhen (?n > 0 \<and> off + ?n > sz)
        (kseq (set_inode ip (\<lambda>i. i\<lparr>i_size := off + ?n\<rparr>)) (iupdate ip)))) (kret (int (length bs))) t"
    using pD(3) g t(1) n(2) by (simp add: writei_def k_simps get_inode_def Let_def)
  show ?thesis
  proof (cases "unat (i_size (icache s ip)) < unat off + length bs")
    case True
    let ?i = "(icache s ip)\<lparr>i_size := of_nat (unat off + length bs)\<rparr>"
    have i: "of_nat (unat off + length bs) = off + ?n" by simp
    have c: "0 < ?n" "i_size (icache s ip) < off + ?n"
      using True sz n(1) add by (auto simp: word_less_nat_alt)
    have dev: "i_dev (icache s ip) = 1" using pD(2) by (simp add: file_ok_def)
    have ib: "inode_block (put_inode ip ?i t) ip = inode_block s ip" using tD by (simp add: inode_block_def)
    have "data_block t (inode_block s ip)" using ap data_block_logs[OF t(2)] by (simp add: inode_apart_def)
    moreover have "can_log t 1" using tD(8) can by simp
    ultimately obtain u where u: "iupdate ip (put_inode ip ?i t) = Ok () u" "logs 1 (put_inode ip ?i t) u"
        "view u = (view t)(inode_block s ip := dip_put ?i (view t (inode_block s ip)))"
      using iupdate_logs[of "put_inode ip ?i t" ip] tD(1) dev ib by auto
    have "writei ip off bs s = Ok (int (length bs)) u"
      unfolding run using c tD(2) u(1) by (simp add: k_simps get_inode_def set_inode_def put_inode_def)
    then show ?thesis using written_grow[OF pl ap t(2,3) sz True fit u(2,3)] by blast
  next
    case False
    then have m: "max (unat (i_size (icache s ip))) (unat off + length bs) = unat (i_size (icache s ip))" by simp
    have "writei ip off bs s = Ok (int (length bs)) t"
      unfolding run using False tD(2) add by (simp add: k_simps get_inode_def word_less_nat_alt)
    moreover have "written ip N (unat off) bs s t"
      using tD(1,2) wrote_file_ok[OF t(2,3) pD(2)] pD(3,4) t(3) wrote_contents[OF t(3) tD(2) sz] m
      by (simp add: written_def plain_def contents_def wrote_def)
    ultimately show ?thesis by blast
  qed
qed

text \<open>
  Claim C5. Files hold what is written into them: \<open>writei\<close> at an offset within the file or at its end
  returns the number of bytes, replaces exactly that range of the contents, extends the size where the
  range passes the end, and changes no block but the file's own and the inode's; \<open>readi\<close> of the range then
  returns the bytes. The range may cross blocks and reach into those of the indirect block.
\<close>

theorem writei_readi:
  fixes s :: "'x cons_state_scheme"
  assumes "plain s ip N" "inode_apart s ip N" "unat off \<le> unat (i_size (icache s ip))" "unat off + length bs \<le> N * BSIZE"
    "can_log s (touched (unat off) (length bs) + 1)"
  shows "\<exists>t u. writei ip off bs s = Ok (int (length bs)) t \<and> log_ok t \<and>
    unat (i_size (icache t ip)) = max (unat (i_size (icache s ip))) (unat off + length bs) \<and>
    contents t ip = patch (unat off) bs (contents s ip) \<and>
    (\<forall>b. b \<notin> fblock s ip ` {..<N} \<and> b \<noteq> inode_block s ip \<longrightarrow> view t b = view s b) \<and>
    readi ip off (of_nat (length bs)) t = Ok (int (length bs), bs) u \<and> contents u ip = contents t ip"
proof -
  obtain t where t: "writei ip off bs s = Ok (int (length bs)) t" "written ip N (unat off) bs s t"
    using writei_contents[OF assms] by blast
  have w: "plain t ip N" "contents t ip = patch (unat off) bs (contents s ip)"
    using t(2) by (simp_all add: written_def)
  have f: "file_ok s ip N" and sz: "unat (i_size (icache s ip)) \<le> N * BSIZE" using assms(1) by (simp_all add: plain_def)
  note small = file_bytes_small[OF f assms(4)]
  have "max (unat (i_size (icache s ip))) (unat off + length bs) < 2 ^ 32"
    using file_bytes_small(2)[OF f sz] small(2) by simp
  then have size: "unat (i_size (icache t ip)) = max (unat (i_size (icache s ip))) (unat off + length bs)"
    using t(2) unat_small by (simp add: written_def)
  have n: "unat (of_nat (length bs) :: uint) = length bs" using small(2) by (intro unat_small) simp
  have "chunk (unat off) (length bs) (contents t ip) = bs"
    using w(2) assms(3) by (simp add: chunk_def patch_def contents_def)
  moreover have "min (length bs) (unat (i_size (icache t ip)) - unat off) = length bs" using size by simp
  moreover have "unat off \<le> unat (i_size (icache t ip))" "unat off + length bs < 2 ^ 32" using size assms(3) small(2) by simp_all
  ultimately obtain u where u: "readi ip off (of_nat (length bs)) t = Ok (int (length bs), bs) u" "reads t u"
    using readi_contents[OF w(1), of off "of_nat (length bs)"] n by auto
  have "contents u ip = contents t ip"
    using readsD(2)[OF u(2)] file_ok_reads(3)[OF u(2)] by (simp add: contents_def)
  then show ?thesis using t u(1) size by (auto simp: written_def plain_def)
qed

text \<open>A file of 600 bytes in blocks 500 and 501 of the freshly booted disk.\<close>

definition demo_inode :: inode where
  "demo_inode = no_inode\<lparr>i_dev := 1, i_inum := 5, i_ref := 1, i_valid := True, i_type := T_FILE, i_nlink := 1, i_size := 600,
     i_addrs := (\<lambda>_. 0)(0 := 500, 1 := 501)\<rparr>"

definition demo_fs :: "log_state \<Rightarrow> cons_state" where
  "demo_fs v = fs_state.extend (log_state.extend (v\<lparr>lg_outstanding := 1\<rparr>)
      \<lparr>fs_sb = (sb_decode sb_image)\<lparr>sb_inodestart := 32\<rparr>, icache = (\<lambda>_. no_inode)(0 := demo_inode), devsw = (\<lambda>_. None), \<dots> = ()\<rparr>)
      \<lparr>panicked = False, cons_locking = True, crt = (\<lambda>_. 0), crt_pos = 0, uart = True, com1 = [], inp = boot_inp, \<dots> = ()\<rparr>"

lemma log_ok_ext:
  fixes s :: "'x log_state_scheme" and t :: "'y log_state_scheme"
  assumes "bufs t = bufs s" "memdisk t = memdisk s" "disksize t = disksize s" "slocks t = slocks s"
    "cpuid t = cpuid s" "cpus t = cpus s" "locks t = locks s" "cpu_proc t = cpu_proc s"
    "lg_start t = lg_start s" "lg_size t = lg_size s" "lg_dev t = lg_dev s" "lh_n t = lh_n s" "lh_block t = lh_block s"
  shows "log_ok t = log_ok s"
proof -
  have l: "lookup t = lookup s" using assms by (simp add: lookup_def fun_eq_iff)
  have h: "held t = held s" "dirty t = dirty s" using assms by (simp_all add: held_def dirty_def l fun_eq_iff cong: option.case_cong)
  have q: "quiet t = quiet s" using assms by (simp add: quiet_def irq_ok_def lock_free_def)
  have "bc_inv t = bc_inv s"
    unfolding bc_inv_def q one_each_def buf_ok_def myproc_def assms ..
  then show ?thesis
    unfolding log_ok_def log_core_def log_area_def h assms by simp
qed

theorem writei_readi_witness:
  "\<exists>(s :: cons_state) t u. writei 0 510 [1, 2, 3, 4, 5] s = Ok 5 t \<and> contents t 0 = patch 510 [1, 2, 3, 4, 5] (contents s 0) \<and>
     readi 0 510 5 t = Ok (5, [1, 2, 3, 4, 5]) u"
proof -
  obtain v :: log_state where v: "log_ok v" "lh_n v = 0" "lg_start v = 2" "lg_size v = 30" "disksize v = 1000"
    using boot_log_ready by blast
  let ?s = "demo_fs v"
  have sel: "icache ?s 0 = demo_inode" "lh_n ?s = 0" "lg_start ?s = 2" "lg_size ?s = 30" "disksize ?s = 1000" "lg_outstanding ?s = 1"
      "fs_sb ?s = (sb_decode sb_image)\<lparr>sb_inodestart := 32\<rparr>"
    using v by (simp_all add: demo_fs_def fs_state.defs log_state.defs)
  have "log_ok ?s = log_ok v"
    by (rule log_ok_ext) (simp_all add: demo_fs_def fs_state.defs log_state.defs)
  then have ok: "log_ok ?s" using v(1) by simp
  have fb: "fblock ?s 0 0 = 500" "fblock ?s 0 (Suc 0) = 501"
    by (simp_all add: fblock_def sel demo_inode_def NDIRECT_def)
  have lt: "bn < 2 \<longleftrightarrow> bn = 0 \<or> bn = Suc 0" for bn :: nat by auto
  have "file_ok ?s 0 2"
    using fb by (auto simp: file_ok_def sel demo_inode_def data_block_def home_def MAXFILE_def NDIRECT_def lt inj_on_def)
  then have "plain ?s 0 2" using ok by (simp add: plain_def sel demo_inode_def T_FILE_def T_DEV_def BSIZE_def)
  moreover have "inode_apart ?s 0 2"
    using fb by (auto simp: inode_apart_def inode_block_def IBLOCK_def IPB_def BSIZE_def sel demo_inode_def data_block_def home_def NDIRECT_def lt)
  moreover have "can_log ?s (touched (unat (510 :: uint)) (length [1, 2, 3, 4, 5 :: uchar]) + 1)" by (simp add: can_log_def sel LOGSIZE_def touched_def BSIZE_def)
  moreover have "510 \<le> unat (i_size (icache ?s 0))" "510 + length [1, 2, 3, 4, 5 :: uchar] \<le> 2 * BSIZE"
    by (simp_all add: sel demo_inode_def BSIZE_def)
  ultimately have "\<exists>t u. writei 0 510 [1, 2, 3, 4, 5] ?s = Ok 5 t \<and> contents t 0 = patch 510 [1, 2, 3, 4, 5] (contents ?s 0) \<and>
      readi 0 510 5 t = Ok (5, [1, 2, 3, 4, 5]) u"
    using writei_readi[of ?s 0 2 510 "[1, 2, 3, 4, 5]"] by auto
  then show ?thesis by blast
qed

end
