(* ===== verification/Alloc.thy ===== *)
theory Alloc
  imports Content
begin

text \<open>
  The block allocator as a set of free blocks: the blocks whose bit in the bitmap, as the log shows it, is
  clear. \<open>balloc\<close> takes the least of them and \<open>bfree\<close> gives one back.
\<close>

unbundle bit_operations_syntax

section \<open>Bitmaps\<close>

lemma mask_bit: "bit (2 ^ (i mod 8) :: uchar) n \<longleftrightarrow> n = i mod 8"
proof -
  have "i mod 8 < 8" by simp
  then show ?thesis by (auto simp: bit_exp_iff)
qed

lemma bm_bit_iff: "bm_bit d i \<longleftrightarrow> bit (d ! (i div 8)) (i mod 8)"
  unfolding bm_bit_def bit_eq_iff[of "d ! (i div 8) AND push_bit (i mod 8) 1" 0] by (auto simp: bit_and_iff mask_bit)

lemma bm_set_bit: "i < 8 * length d \<Longrightarrow> j < 8 * length d \<Longrightarrow> bm_bit (bm_set d i) j \<longleftrightarrow> j = i \<or> bm_bit d j"
  and bm_clear_bit: "i < 8 * length d \<Longrightarrow> j < 8 * length d \<Longrightarrow> bm_bit (bm_clear d i) j \<longleftrightarrow> j \<noteq> i \<and> bm_bit d j"
proof -
  have lt: "i mod 8 < 8" "j mod 8 < 8" by simp_all
  have e: "j = i \<longleftrightarrow> j div 8 = i div 8 \<and> j mod 8 = i mod 8" by (metis div_mult_mod_eq)
  assume l: "i < 8 * length d" "j < 8 * length d"
  show "bm_bit (bm_set d i) j \<longleftrightarrow> j = i \<or> bm_bit d j"
    using l lt by (cases "j div 8 = i div 8") (auto simp: bm_bit_iff bm_set_def bit_or_iff mask_bit e)
  show "bm_bit (bm_clear d i) j \<longleftrightarrow> j \<noteq> i \<and> bm_bit d j"
    using l lt by (cases "j div 8 = i div 8") (auto simp: bm_bit_iff bm_clear_def bit_and_iff bit_not_iff mask_bit e)
qed

lemma length_bm [simp]: "length (bm_set d i) = length d" "length (bm_clear d i) = length d"
  by (simp_all add: bm_set_def bm_clear_def)

section \<open>The free blocks\<close>

definition free_blocks :: "'x fs_state_scheme \<Rightarrow> nat set" where
  "free_blocks s = {b. b < sb_size (fs_sb s) \<and> \<not> bm_bit (view s (BBLOCK b (fs_sb s))) (b mod BPB)}"

text \<open>The bitmap can be logged, and no block of it, nor of the log, is free.\<close>

definition bitmap_ok :: "'x fs_state_scheme \<Rightarrow> bool" where
  "bitmap_ok s \<longleftrightarrow> (\<forall>b < sb_size (fs_sb s). data_block s (BBLOCK b (fs_sb s))) \<and>
     (\<forall>b \<in> free_blocks s. data_block s b \<and> (\<forall>c < sb_size (fs_sb s). b \<noteq> BBLOCK c (fs_sb s)))"

lemma BPB_pos [simp]: "0 < BPB" "BPB \<noteq> 0"
  by (simp_all add: BPB_def BSIZE_def)

lemma finite_free: "finite (free_blocks s)"
  by (simp add: free_blocks_def)

lemma bitmap_len:
  assumes "log_ok s" "bitmap_ok s" "b < sb_size (fs_sb s)"
  shows "length (view s (BBLOCK b (fs_sb s))) = BSIZE" "b mod BPB < 8 * length (view s (BBLOCK b (fs_sb s)))"
proof -
  show l: "length (view s (BBLOCK b (fs_sb s))) = BSIZE"
    using view_len[OF log_okD(2)[OF assms(1)]] assms(2,3) by (simp add: bitmap_ok_def data_block_def)
  have "b mod BPB < BPB" by simp
  then show "b mod BPB < 8 * length (view s (BBLOCK b (fs_sb s)))" unfolding l by (simp add: BPB_def mult.commute)
qed

lemma same_bitmap_block: "BBLOCK b sb = BBLOCK c sb \<Longrightarrow> b mod BPB = c mod BPB \<Longrightarrow> b = c"
  by (metis BBLOCK_def add_right_cancel div_mult_mod_eq)

text \<open>Changing one bit of the bitmap.\<close>

lemma free_blocks_set:
  assumes ok: "log_ok s" "bitmap_ok s" and b: "b < sb_size (fs_sb s)" and sb: "fs_sb t = fs_sb s"
    and v: "\<And>c. c < sb_size (fs_sb s) \<Longrightarrow> view t (BBLOCK c (fs_sb s)) =
      ((view s)(BBLOCK b (fs_sb s) := bm_set (view s (BBLOCK b (fs_sb s))) (b mod BPB))) (BBLOCK c (fs_sb s))"
  shows "free_blocks t = free_blocks s - {b}"
proof -
  have "c \<in> free_blocks t \<longleftrightarrow> c \<in> free_blocks s \<and> c \<noteq> b" if c: "c < sb_size (fs_sb s)" for c
  proof (cases "BBLOCK c (fs_sb s) = BBLOCK b (fs_sb s)")
    case True
    then show ?thesis
      using bm_set_bit[OF bitmap_len(2)[OF ok b], of "c mod BPB"] bitmap_len(2)[OF ok c] same_bitmap_block[OF True] c v[OF c]
      by (auto simp: free_blocks_def sb)
  next
    case False
    then show ?thesis using v[OF c] c by (auto simp: free_blocks_def sb)
  qed
  then show ?thesis using sb by (auto simp: free_blocks_def)
qed

lemma free_blocks_clear:
  assumes ok: "log_ok s" "bitmap_ok s" and b: "b < sb_size (fs_sb s)" and sb: "fs_sb t = fs_sb s"
    and v: "view t = (view s)(BBLOCK b (fs_sb s) := bm_clear (view s (BBLOCK b (fs_sb s))) (b mod BPB))"
  shows "free_blocks t = insert b (free_blocks s)"
proof -
  have "c \<in> free_blocks t \<longleftrightarrow> c \<in> free_blocks s \<or> c = b" if c: "c < sb_size (fs_sb s)" for c
  proof (cases "BBLOCK c (fs_sb s) = BBLOCK b (fs_sb s)")
    case True
    then show ?thesis
      using bm_clear_bit[OF bitmap_len(2)[OF ok b], of "c mod BPB"] bitmap_len(2)[OF ok c] same_bitmap_block[OF True] c
      by (auto simp: free_blocks_def sb v)
  next
    case False
    then show ?thesis using c by (auto simp: free_blocks_def sb v)
  qed
  then show ?thesis using sb b by (auto simp: free_blocks_def)
qed

section \<open>Allocation\<close>

text \<open>Block \<open>b\<close> was taken: marked, zeroed, and nothing else changed.\<close>

definition took :: "nat \<Rightarrow> 'x fs_state_scheme \<Rightarrow> 'x fs_state_scheme \<Rightarrow> bool" where
  "took b s t \<longleftrightarrow> logs 2 s t \<and> bitmap_ok t \<and> free_blocks t = free_blocks s - {b} \<and> view t b = replicate BSIZE 0 \<and>
     (\<forall>n. n \<noteq> b \<and> n \<noteq> BBLOCK b (fs_sb s) \<longrightarrow> view t n = view s n)"

lemma bzero_block: "bzero 1 b = update_block b (\<lambda>_. replicate BSIZE 0)"
proof
  fix s :: "'x log_state_scheme"
  show "bzero 1 b s = update_block b (\<lambda>_. replicate BSIZE 0) s"
    by (auto simp: bzero_def update_block_def k_simps get_buf_def split: outcome.split)
qed

lemma take_block:
  fixes s :: "'x fs_state_scheme"
  assumes ok: "log_ok s" "bitmap_ok s" and b: "b \<in> free_blocks s" and can: "can_log s 2"
  shows "\<exists>t. kseq (update_block (BBLOCK b (fs_sb s)) (\<lambda>d. bm_set d (b mod BPB))) (bzero 1 b) s = Ok () t \<and> took b s t"
proof -
  let ?B = "BBLOCK b (fs_sb s)"
  have lt: "b < sb_size (fs_sb s)" using b by (simp add: free_blocks_def)
  have d: "data_block s ?B" "data_block s b" "\<And>c. c < sb_size (fs_sb s) \<Longrightarrow> BBLOCK c (fs_sb s) \<noteq> b"
    using ok(2) b lt by (auto simp: bitmap_ok_def)
  obtain t where t: "update_block ?B (\<lambda>d. bm_set d (b mod BPB)) s = Ok () t" "logs 1 s t"
      "view t = (view s)(?B := bm_set (view s ?B) (b mod BPB))"
    using log_change[OF ok(1) d(1) can_log_le[OF can], of "\<lambda>d. bm_set d (b mod BPB)"] bitmap_len(1)[OF ok lt] by auto
  note tD = logsD[OF t(2)]
  obtain u where u: "bzero 1 b t = Ok () u" "logs 1 t u" "view u = (view t)(b := replicate BSIZE 0)"
    using log_change[OF tD(1), of b "\<lambda>_. replicate BSIZE 0"] data_block_logs[OF t(2)] d(2) tD(8)[of 1] can
    by (auto simp: bzero_block numeral_2_eq_2)
  have su: "logs 2 s u" using logs_trans[OF t(2) u(2)] by (simp add: numeral_2_eq_2)
  have sb: "fs_sb u = fs_sb s" using logsD(3)[OF su] .
  have f: "free_blocks u = free_blocks s - {b}"
    by (rule free_blocks_set[OF ok lt sb]) (use d(3) u(3) t(3) in auto)
  then have "bitmap_ok u"
    using ok(2) data_block_logs[OF su] sb by (auto simp: bitmap_ok_def)
  then have "took b s u" using su f u(3) t(3) by (simp add: took_def)
  then show ?thesis using t(1) u(1) by (auto simp: k_simps)
qed

text \<open>One bitmap block: its first free block is taken, and without one the search goes on.\<close>

lemma window: "k * BPB \<le> b \<Longrightarrow> b < k * BPB + BPB \<Longrightarrow> b div BPB = k \<and> b mod BPB = b - k * BPB"
proof -
  assume "k * BPB \<le> b" "b < k * BPB + BPB"
  then have "b = k * BPB + (b - k * BPB)" "b - k * BPB < BPB" by linarith+
  then show ?thesis by (metis add.right_neutral add_cancel_right_right div_less div_mult_self3 BPB_pos(2) mod_less mod_mult_self3)
qed

lemma balloc_try_spec:
  fixes s :: "'x fs_state_scheme"
  assumes ok: "log_ok s" "bitmap_ok s" and can: "can_log s 2" and k: "k * BPB < sb_size (fs_sb s)"
    and low: "\<forall>b \<in> free_blocks s. k * BPB \<le> b"
  shows "if \<exists>b \<in> free_blocks s. b < k * BPB + BPB
    then \<exists>t. balloc_try 1 (k * BPB) s = Ok (Some (Min (free_blocks s))) t \<and> took (Min (free_blocks s)) s t
    else \<exists>t. balloc_try 1 (k * BPB) s = Ok None t \<and> reads s t"
proof -
  define n where "n = BBLOCK (k * BPB) (fs_sb s)"
  have n: "BBLOCK b (fs_sb s) = n" if "k * BPB \<le> b" "b < k * BPB + BPB" for b
    using window[OF that] by (simp add: n_def BBLOCK_def)
  let ?P = "\<lambda>bi. \<not> bm_bit (view s n) bi" and ?m = "min BPB (sb_size (fs_sb s) - k * BPB)"
  have free: "k * BPB + i \<in> free_blocks s \<longleftrightarrow> ?P i" if "i < ?m" for i
    using that n[of "k * BPB + i"] window[of k "k * BPB + i"] by (simp add: free_blocks_def) linarith
  have "n < disksize s" using ok(2) k by (auto simp: n_def bitmap_ok_def data_block_def)
  then obtain t where t: "read_block n s = Ok (view s n) t" "reads s t" using log_read[OF ok(1)] by blast
  show ?thesis
  proof (cases "find ?P [0..<?m]")
    case None
    have "b \<notin> free_blocks s" if "b < k * BPB + BPB" for b
    proof
      assume b: "b \<in> free_blocks s"
      then have "k * BPB \<le> b" "b < sb_size (fs_sb s)" using low by (auto simp: free_blocks_def)
      then have "b - k * BPB < ?m" "k * BPB + (b - k * BPB) = b" using that by linarith+
      then show False using free[of "b - k * BPB"] None b by (simp add: find_upt_None)
    qed
    moreover have "balloc_try 1 (k * BPB) s = Ok None t"
      using t(1) None unfolding read_block_def
      by (auto simp: balloc_try_def k_simps get_buf_def n_def[symmetric] split: outcome.splits)
    ultimately show ?thesis using t(2) by auto
  next
    case (Some i)
    then have i: "i < ?m" "?P i" "\<forall>j<i. \<not> ?P j" by (auto simp: find_upt_Some)
    let ?b = "k * BPB + i"
    have b: "?b \<in> free_blocks s" using free[OF i(1)] i(2) by simp
    have min: "Min (free_blocks s) = ?b"
    proof (rule Min_eqI[OF finite_free _ b])
      fix c assume c: "c \<in> free_blocks s"
      show "?b \<le> c"
      proof (rule ccontr)
        assume "\<not> ?b \<le> c"
        then have "c - k * BPB < i" "k * BPB + (c - k * BPB) = c" using c low by force+
        then show False using i(1,3) free[of "c - k * BPB"] c by auto
      qed
    qed
    have w: "BBLOCK ?b (fs_sb s) = n" "?b mod BPB = i" using n[of ?b] window[of k ?b] i(1) by simp_all
    obtain u where u: "kseq (update_block n (\<lambda>d. bm_set d i)) (bzero 1 ?b) s = Ok () u" "took ?b s u"
      using take_block[OF ok b can] w by auto
    have "balloc_try 1 (k * BPB) s = Ok (Some ?b) u"
      using t(1) u(1) Some unfolding read_block_def update_block_def
      by (auto simp: balloc_try_def k_simps get_buf_def n_def[symmetric] split: outcome.splits)
    moreover have "\<exists>b \<in> free_blocks s. b < k * BPB + BPB" using i(1) by (intro bexI[OF _ b]) simp
    ultimately show ?thesis using min u(2) by simp
  qed
qed

lemma took_reads: "reads s t \<Longrightarrow> took b t u \<Longrightarrow> took b s u"
  using logs_trans[OF reads_logs, of s t 2 u] readsD(3,9)[of s t] by (auto simp: took_def free_blocks_def numeral_2_eq_2)

lemma bitmap_ok_reads: "reads s t \<Longrightarrow> bitmap_ok t = bitmap_ok s" "reads s t \<Longrightarrow> free_blocks t = free_blocks s"
  using readsD(3,9)[of s t] data_block_logs[OF reads_logs, of s t] by (auto simp: bitmap_ok_def free_blocks_def)

lemma balloc_loop:
  fixes s :: "'x fs_state_scheme"
  shows "log_ok s \<Longrightarrow> bitmap_ok s \<Longrightarrow> can_log s 2 \<Longrightarrow> \<forall>b \<in> free_blocks s. i * BPB \<le> b \<Longrightarrow>
    K = (sb_size (fs_sb s) + BPB - 1) div BPB \<Longrightarrow>
    if free_blocks s = {} then \<exists>t. kloop (\<lambda>k. balloc_try 1 (k * BPB)) [i..<K] s = Ok None t
    else \<exists>t. kloop (\<lambda>k. balloc_try 1 (k * BPB)) [i..<K] s = Ok (Some (Min (free_blocks s))) t \<and> took (Min (free_blocks s)) s t"
proof (induction "K - i" arbitrary: i s)
  case 0
  have "sb_size (fs_sb s) \<le> K * BPB"
    unfolding "0.prems"(5) using dividend_less_times_div[of BPB "sb_size (fs_sb s) + BPB - 1"] by (simp add: mult.commute)
  also have "\<dots> \<le> i * BPB" using 0(1) by (intro mult_le_mono1) simp
  finally have "free_blocks s = {}" using "0.prems"(4) by (fastforce simp: free_blocks_def)
  then show ?case using 0(1) by (simp add: k_simps)
next
  case (Suc x)
  have l: "[i..<K] = i # [Suc i..<K]" using Suc.hyps(2) by (simp add: upt_rec)
  have "Suc i * BPB \<le> K * BPB" using Suc.hyps(2) by (intro mult_le_mono1) simp
  also have "\<dots> \<le> sb_size (fs_sb s) + BPB - 1" unfolding Suc.prems(5) by (rule div_times_less_eq_dividend)
  finally have k: "i * BPB < sb_size (fs_sb s)" unfolding mult_Suc using BPB_pos(1) by linarith
  note tr = balloc_try_spec[OF Suc.prems(1-3) k Suc.prems(4)]
  show ?case
  proof (cases "\<exists>b \<in> free_blocks s. b < i * BPB + BPB")
    case True
    then show ?thesis using tr by (auto simp: l k_simps)
  next
    case False
    then obtain t where t: "balloc_try 1 (i * BPB) s = Ok None t" "reads s t" using tr by auto
    note r = readsD[OF t(2)] and f = bitmap_ok_reads[OF t(2)]
    have "x = K - Suc i" "\<forall>b \<in> free_blocks t. Suc i * BPB \<le> b" "K = (sb_size (fs_sb t) + BPB - 1) div BPB"
      using Suc.hyps(2) False f(2) r(3) Suc.prems(5) by (auto simp: not_less)
    note ih = Suc.hyps(1)[OF this(1) r(1) _ _ this(2,3)]
    have "kloop (\<lambda>k. balloc_try 1 (k * BPB)) [i..<K] s = kloop (\<lambda>k. balloc_try 1 (k * BPB)) [Suc i..<K] t"
      using t(1) by (simp add: l k_simps)
    then show ?thesis using ih r(8) f Suc.prems(2,3) took_reads[OF t(2)] by (auto split: if_splits)
  qed
qed

section \<open>balloc and bfree\<close>

lemma balloc_spec:
  fixes s :: "'x fs_state_scheme"
  assumes "log_ok s" "bitmap_ok s" "can_log s 2"
  shows "if free_blocks s = {} then balloc 1 s = Fail (EPanic ''balloc: out of blocks'')
    else \<exists>t. balloc 1 s = Ok (Min (free_blocks s)) t \<and> took (Min (free_blocks s)) s t"
  using balloc_loop[OF assms, of 0] by (auto simp: balloc_def k_simps split: if_splits)

lemma bfree_spec:
  fixes s :: "'x fs_state_scheme"
  assumes ok: "log_ok s" "bitmap_ok s" and can: "can_log s 1" and b: "b < sb_size (fs_sb s)"
    and sb: "1 < disksize s" "sb_decode (view s 1) = fs_sb s"
  shows "if b \<in> free_blocks s then bfree 1 b s = Fail (EPanic ''freeing free block'')
    else \<exists>t. bfree 1 b s = Ok () t \<and> logs 1 s t \<and> free_blocks t = insert b (free_blocks s) \<and>
      (\<forall>n. n \<noteq> BBLOCK b (fs_sb s) \<longrightarrow> view t n = view s n)"
proof -
  let ?B = "BBLOCK b (fs_sb s)" and ?i = "b mod BPB"
  have free: "b \<in> free_blocks s \<longleftrightarrow> \<not> bm_bit (view s ?B) ?i" using b by (simp add: free_blocks_def)
  obtain t where t: "read_block 1 s = Ok (view s 1) t" "reads s t" using log_read[OF ok(1) sb(1)] by blast
  note r = readsD[OF t(2)]
  have rsb: "readsb 1 s = Ok (fs_sb s) t"
    using t(1) sb(2) unfolding read_block_def by (auto simp: readsb_def k_simps get_buf_def split: outcome.splits)
  have set: "t\<lparr>fs_sb := fs_sb s\<rparr> = t" using r(3) by simp
  have d: "data_block s ?B" using ok(2) b by (auto simp: bitmap_ok_def)
  then obtain u where u: "read_block ?B t = Ok (view s ?B) u"
    using log_read[OF r(1), of ?B] r(4,9) by (auto simp: data_block_def)
  then obtain bp w where w: "bread 1 ?B t = Ok bp w" "b_data (bufs w bp) = view s ?B"
    unfolding read_block_def by (auto simp: k_simps get_buf_def split: outcome.splits)
  have run: "bfree 1 b s = (if b \<in> free_blocks s then Fail (EPanic ''freeing free block'')
      else kseq (bput bp (bm_clear (view s ?B) ?i)) (kseq (log_write bp) (brelse bp)) w)"
    using rsb set w free by (simp add: bfree_def k_simps get_buf_def)
  show ?thesis
  proof (cases "b \<in> free_blocks s")
    case True
    then show ?thesis using run by simp
  next
    case False
    obtain v where v: "update_block ?B (\<lambda>d. bm_clear d ?i) t = Ok () v" "logs 1 t v"
        "view v = (view t)(?B := bm_clear (view t ?B) ?i)"
      using log_change[OF r(1), of ?B "\<lambda>d. bm_clear d ?i"] d data_block_logs[OF reads_logs[OF t(2)]] can r(8,9)
        bitmap_len(1)[OF ok b] by auto
    have sv: "logs 1 s v" using logs_trans[OF reads_logs[OF t(2)] v(2)] by simp
    have "bfree 1 b s = Ok () v"
      using v(1) w False run by (simp add: update_block_def k_simps get_buf_def)
    then show ?thesis
      using False sv free_blocks_clear[OF ok b logsD(3)[OF sv]] v(3) r(9) by auto
  qed
qed

text \<open>
  Claim C8. The allocator hands out free blocks and no others: \<open>balloc\<close> panics when none is free, and
  otherwise returns the least free block, zeroed, which then is no longer free; no block but that one and
  its bitmap block changes. \<open>bfree\<close> of an allocated block makes exactly it free again and touches only the
  bitmap, and of a free block it panics. Allocating and freeing leaves the set of free blocks as it was.
\<close>

theorem balloc_bfree:
  fixes s :: "'x fs_state_scheme"
  assumes "log_ok s" "bitmap_ok s" "can_log s 3" "1 < disksize s" "sb_decode (view s 1) = fs_sb s"
    "1 \<notin> free_blocks s" "\<forall>b < sb_size (fs_sb s). BBLOCK b (fs_sb s) \<noteq> 1"
  defines "b \<equiv> Min (free_blocks s)"
  shows "if free_blocks s = {} then balloc 1 s = Fail (EPanic ''balloc: out of blocks'')
    else b \<in> free_blocks s \<and> (\<exists>t u. balloc 1 s = Ok b t \<and> free_blocks t = free_blocks s - {b} \<and> view t b = replicate BSIZE 0 \<and>
        (\<forall>n. n \<noteq> b \<and> n \<noteq> BBLOCK b (fs_sb s) \<longrightarrow> view t n = view s n) \<and>
      bfree 1 b t = Ok () u \<and> log_ok u \<and> free_blocks u = free_blocks s \<and>
      bfree 1 b s = Fail (EPanic ''freeing free block''))"
proof (cases "free_blocks s = {}")
  case True
  then show ?thesis using balloc_spec[OF assms(1,2) can_log_le[OF assms(3)]] by simp
next
  case False
  then have b: "b \<in> free_blocks s" unfolding b_def using Min_in[OF finite_free] by blast
  then have lt: "b < sb_size (fs_sb s)" by (simp add: free_blocks_def)
  obtain t where t: "balloc 1 s = Ok b t" "took b s t"
    using balloc_spec[OF assms(1,2) can_log_le[OF assms(3)]] False by (auto simp: b_def)
  have tk: "logs 2 s t" "bitmap_ok t" "free_blocks t = free_blocks s - {b}" "view t b = replicate BSIZE 0"
      "\<forall>n. n \<noteq> b \<and> n \<noteq> BBLOCK b (fs_sb s) \<longrightarrow> view t n = view s n"
    using t(2) by (simp_all add: took_def)
  note tD = logsD[OF tk(1)]
  have "view t 1 = view s 1" using tk(5) assms(6,7) b lt by metis
  then have sb: "sb_decode (view t 1) = fs_sb t" using assms(5) tD(3) by simp
  have can: "can_log t 1" using tD(8)[of 1] assms(3) by (simp add: numeral_3_eq_3 numeral_2_eq_2)
  obtain u where u: "bfree 1 b t = Ok () u" "logs 1 t u" "free_blocks u = insert b (free_blocks t)"
    using bfree_spec[OF tD(1) tk(2) can, of b] tk(3) lt tD(3,4) assms(4) sb by auto
  have "bfree 1 b s = Fail (EPanic ''freeing free block'')"
    using bfree_spec[OF assms(1,2) can_log_le[OF assms(3)] lt assms(4,5)] b by simp
  then show ?thesis
    using False b t(1) tk(3-5) u(1,3) logsD(1)[OF u(2)] by (auto intro!: exI[of _ t] exI[of _ u])
qed

text \<open>A disk of 1000 blocks whose bitmap, block 60, marks the first 104 blocks as used.\<close>

definition demo_sb :: "uchar list" where
  "demo_sb = put32 0 1000 (put32 24 60 (replicate BSIZE 0))"

definition demo_bitmap :: "uchar list" where
  "demo_bitmap = replicate 13 255 @ replicate (BSIZE - 13) 0"

lemma demo_sb: "length demo_sb = BSIZE" "sb_size (sb_decode demo_sb) = 1000" "sb_bmapstart (sb_decode demo_sb) = 60"
  by (simp_all add: demo_sb_def sb_decode_def BSIZE_def get32_put32_other)

lemma demo_bitmap: "i < 4096 \<Longrightarrow> bm_bit demo_bitmap i \<longleftrightarrow> i < 104" "length demo_bitmap = BSIZE"
proof -
  have f: "bit (255 :: uchar) k" if "k < 8" for k
  proof -
    have "(255 :: uchar) = - 1" by simp
    then show ?thesis using that by (simp only: bit_minus_1_iff possible_bit_word) simp
  qed
  have m: "i mod 8 < 8" by simp
  assume "i < 4096"
  then have "i div 8 < 512" by (simp add: div_less_iff_less_mult)
  moreover have "i < 104 \<longleftrightarrow> i div 8 < 13" by (simp add: div_less_iff_less_mult)
  ultimately show "bm_bit demo_bitmap i \<longleftrightarrow> i < 104"
    using f[OF m] by (simp add: bm_bit_iff demo_bitmap_def nth_append BSIZE_def)
qed (simp add: demo_bitmap_def BSIZE_def)

lemma demo_alloc:
  "\<exists>s :: cons_state. log_ok s \<and> can_log s 3 \<and> disksize s = 1000 \<and> lg_start s = 2 \<and> lg_size s = 30 \<and>
     fs_sb s = sb_decode demo_sb \<and> view s 1 = demo_sb \<and> view s 60 = demo_bitmap"
proof -
  obtain v :: log_state where v: "log_ok v" "lh_n v = 0" "lg_start v = 2" "lg_size v = 30" "disksize v = 1000"
    using boot_log_ready by blast
  let ?s = "(demo_fs v)\<lparr>fs_sb := sb_decode demo_sb\<rparr>"
  have sel: "lh_n ?s = 0" "lg_start ?s = 2" "lg_size ?s = 30" "disksize ?s = 1000" "lg_outstanding ?s = 1" "fs_sb ?s = sb_decode demo_sb"
    using v by (simp_all add: demo_fs_def fs_state.defs log_state.defs)
  have "log_ok ?s = log_ok v" by (rule log_ok_ext) (simp_all add: demo_fs_def fs_state.defs log_state.defs)
  then have ok: "log_ok ?s" using v(1) by simp
  have can: "can_log ?s 5" by (simp add: can_log_def sel LOGSIZE_def)
  have "data_block ?s 1" by (simp add: data_block_def sel home_def)
  then obtain t where t: "logs 1 ?s t" "view t = (view ?s)(1 := demo_sb)"
    using log_change[OF ok, of 1 "\<lambda>_. demo_sb"] can_log_le[OF can] demo_sb(1) by auto
  note tD = logsD[OF t(1)]
  have "data_block t 60" using tD(4-6) by (simp add: data_block_def sel home_def)
  moreover have "can_log t 4" using tD(8)[of 4] can by simp
  ultimately obtain u where u: "logs 1 t u" "view u = (view t)(60 := demo_bitmap)"
    using log_change[OF tD(1), of 60 "\<lambda>_. demo_bitmap"] can_log_le[of t 4 1] demo_bitmap(2) by auto
  have "can_log u 3" using logsD(8)[OF u(1), of 3] \<open>can_log t 4\<close> by simp
  then show ?thesis
    using logsD[OF u(1)] tD u(2) t(2) sel by (intro exI[of _ u]) simp
qed

theorem balloc_bfree_witness:
  "\<exists>(s :: cons_state) t u. free_blocks s = {104..<1000} \<and> balloc 1 s = Ok 104 t \<and> free_blocks t = {105..<1000} \<and>
     bfree 1 104 t = Ok () u \<and> free_blocks u = free_blocks s"
proof -
  obtain s :: cons_state where s: "log_ok s" "can_log s 3" "disksize s = 1000" "lg_start s = 2" "lg_size s = 30"
      "fs_sb s = sb_decode demo_sb" "view s 1 = demo_sb" "view s 60 = demo_bitmap"
    using demo_alloc by blast
  have bb: "BBLOCK b (fs_sb s) = 60" "b mod BPB = b" if "b < 1000" for b
    using that by (simp_all add: BBLOCK_def s(6) demo_sb BPB_def BSIZE_def)
  have "b \<in> free_blocks s \<longleftrightarrow> 104 \<le> b \<and> b < 1000" for b
    using bb[of b] demo_bitmap(1)[of b] by (auto simp: free_blocks_def s(6,8) demo_sb)
  then have f: "free_blocks s = {104..<1000}" by (intro set_eqI) (simp only: atLeastLessThan_iff)
  have m: "Min (free_blocks s) = 104" unfolding f by (rule Min_eqI) simp_all
  have in_f: "b \<in> free_blocks s \<Longrightarrow> 104 \<le> b \<and> b < 1000" "104 \<in> free_blocks s" for b unfolding f by simp_all
  have "bitmap_ok s"
    using bb in_f(1) by (force simp: bitmap_ok_def data_block_def home_def s(3-6) demo_sb)
  moreover have "1 \<notin> free_blocks s" "\<forall>b < sb_size (fs_sb s). BBLOCK b (fs_sb s) \<noteq> 1" "free_blocks s \<noteq> {}"
    using in_f(1)[of 1] in_f(2) bb by (auto simp: s(6) demo_sb)
  ultimately have "\<exists>t u. balloc 1 s = Ok 104 t \<and> free_blocks t = free_blocks s - {104} \<and> bfree 1 104 t = Ok () u \<and> free_blocks u = free_blocks s"
    using balloc_bfree[of s] s(1-3,6,7) m by auto
  moreover have "free_blocks s - {104} = {105..<1000}" unfolding f by (intro set_eqI) (simp only: Diff_iff atLeastLessThan_iff singleton_iff, arith)
  ultimately show ?thesis using f by metis
qed

end
