(* ===== verification/Directory.thy ===== *)
theory Directory
  imports Content
begin

text \<open>
  Directories as tables. A directory's contents are 16-byte entries; \<open>dirlookup\<close> finds the first entry
  with the name, and \<open>dirlink\<close> adds an entry, in the first hole or at the end, that \<open>dirlookup\<close> then finds.
\<close>

section \<open>Entries\<close>

definition dirent :: "'x fs_state_scheme \<Rightarrow> nat \<Rightarrow> nat \<Rightarrow> uchar list" where
  "dirent s dp k = chunk (k * sizeof_dirent) sizeof_dirent (contents s dp)"

definition ndirent :: "'x fs_state_scheme \<Rightarrow> nat \<Rightarrow> nat" where
  "ndirent s dp = unat (i_size (icache s dp)) div sizeof_dirent"

definition dir_find :: "'x fs_state_scheme \<Rightarrow> nat \<Rightarrow> uchar list \<Rightarrow> nat option" where
  "dir_find s dp name = find (\<lambda>k. de_inum (dirent s dp k) \<noteq> 0 \<and> namecmp name (de_name (dirent s dp k)) = 0) [0..<ndirent s dp]"

definition dir_hole :: "'x fs_state_scheme \<Rightarrow> nat \<Rightarrow> nat" where
  "dir_hole s dp = (case find (\<lambda>k. de_inum (dirent s dp k) = 0) [0..<ndirent s dp] of Some k \<Rightarrow> k | None \<Rightarrow> ndirent s dp)"

text \<open>A directory whose size is a whole number of entries.\<close>

definition directory :: "'x fs_state_scheme \<Rightarrow> nat \<Rightarrow> nat \<Rightarrow> bool" where
  "directory s dp N \<longleftrightarrow> plain s dp N \<and> i_type (icache s dp) = T_DIR \<and> sizeof_dirent dvd unat (i_size (icache s dp))"

lemma sizeof_dirent_16: "sizeof_dirent = 16"
  by (simp add: sizeof_dirent_def DIRSIZ_def)

lemma directory_size: "directory s dp N \<Longrightarrow> unat (i_size (icache s dp)) = ndirent s dp * sizeof_dirent"
  by (simp add: directory_def ndirent_def)

lemma directory_reads:
  assumes "reads s t"
  shows "contents t dp = contents s dp" "dirent t dp = dirent s dp" "ndirent t dp = ndirent s dp"
    "plain s dp N \<Longrightarrow> plain t dp N" "directory s dp N \<Longrightarrow> directory t dp N"
proof -
  show c: "contents t dp = contents s dp"
    using readsD(2)[OF assms] file_ok_reads(3)[OF assms] by (simp add: contents_def)
  show "dirent t dp = dirent s dp" "ndirent t dp = ndirent s dp"
    using c readsD(2)[OF assms] by (simp_all add: dirent_def ndirent_def fun_eq_iff)
  show p: "plain s dp N \<Longrightarrow> plain t dp N"
    using readsD(1,2)[OF assms] file_ok_reads(1)[OF assms] by (simp add: plain_def)
  then show "directory s dp N \<Longrightarrow> directory t dp N" using readsD(2)[OF assms] by (simp add: directory_def)
qed

section \<open>Names\<close>

lemma str_ncmp_field: "n \<le> m \<Longrightarrow> str_ncmp n p (take n (takeWhile (\<lambda>c. c \<noteq> 0) p @ replicate m 0)) = 0"
proof (induction n arbitrary: p m)
  case (Suc n)
  then obtain m' where m: "m = Suc m'" "n \<le> m'" by (cases m) auto
  show ?case
  proof (cases p)
    case Nil
    then show ?thesis using m by (simp add: chr_def)
  next
    case (Cons c cs)
    then show ?thesis using Suc.IH[of m cs] Suc.prems m by (auto simp: chr_def)
  qed
qed simp

lemma namecmp_field: "namecmp name (name_field name) = 0"
  unfolding namecmp_def name_field_def by (rule str_ncmp_field) simp

lemma length_name_field [simp]: "length (name_field name) = DIRSIZ"
  by (simp add: name_field_def)

text \<open>The comparison is equality of the first \<open>DIRSIZ\<close> bytes up to a terminator.\<close>

lemma str_ncmp_iff:
  "str_ncmp n p q = 0 \<longleftrightarrow> takeWhile (\<lambda>c. c \<noteq> 0) (take n p) = takeWhile (\<lambda>c. c \<noteq> 0) (take n q)"
proof (induction n arbitrary: p q)
  case (Suc n)
  have z: "uint c = uint d \<longleftrightarrow> c = d" "uint c = 0 \<longleftrightarrow> c = 0" for c d :: uchar by (simp_all add: word_uint_eq_iff)
  show ?case
    by (cases p; cases q) (auto simp: chr_def Suc.IH z)
qed simp

section \<open>Reading entries\<close>

lemma unat_dir_off:
  assumes "plain s dp N" "k * sizeof_dirent + sizeof_dirent \<le> N * BSIZE"
  shows "unat (of_nat (k * sizeof_dirent) :: uint) = k * sizeof_dirent" "k * sizeof_dirent + sizeof_dirent < 2 ^ 31"
proof -
  show l: "k * sizeof_dirent + sizeof_dirent < 2 ^ 31"
    using file_bytes_small(2)[of s dp N, OF _ assms(2)] assms(1) by (simp add: plain_def)
  then show "unat (of_nat (k * sizeof_dirent) :: uint) = k * sizeof_dirent" by (intro unat_small) simp
qed

lemma read_dirent_spec:
  fixes s :: "'x cons_state_scheme"
  assumes "directory s dp N" "k < ndirent s dp"
  shows "\<exists>t. read_dirent dp (k * sizeof_dirent) msg s = Ok (dirent s dp k) t \<and> reads s t"
proof -
  let ?sz = "unat (i_size (icache s dp))"
  have pl: "plain s dp N" "?sz \<le> N * BSIZE" using assms(1) by (auto simp: directory_def plain_def)
  have "Suc k * sizeof_dirent \<le> ?sz" unfolding directory_size[OF assms(1)] using assms(2) by (intro mult_le_mono1) simp
  then have fit: "k * sizeof_dirent + sizeof_dirent \<le> ?sz" by simp
  note u = unat_dir_off[OF pl(1) le_trans[OF fit pl(2)]]
  have n: "unat (of_nat sizeof_dirent :: uint) = sizeof_dirent" by (simp add: sizeof_dirent_16)
  have "\<not> (?sz < k * sizeof_dirent \<or> 2 ^ 32 \<le> k * sizeof_dirent + sizeof_dirent)" using fit u(2) by simp
  then obtain t where "readi dp (of_nat (k * sizeof_dirent)) (of_nat sizeof_dirent) s =
      Ok (int (min sizeof_dirent (?sz - k * sizeof_dirent)), dirent s dp k) t" "reads s t"
    using readi_contents[OF pl(1), of "of_nat (k * sizeof_dirent)" "of_nat sizeof_dirent"] unfolding u(1) n dirent_def
    by (auto split: if_splits)
  moreover have "min sizeof_dirent (?sz - k * sizeof_dirent) = sizeof_dirent" using fit by simp
  ultimately show ?thesis by (simp add: read_dirent_def k_simps)
qed

lemma read_dirent_later:
  fixes s t :: "'x cons_state_scheme"
  assumes "directory s dp N" "k < ndirent s dp" "reads s t"
  shows "\<exists>u. read_dirent dp (k * sizeof_dirent) msg t = Ok (dirent s dp k) u \<and> reads s u"
  using read_dirent_spec[OF directory_reads(5)[OF assms(3,1)], of k msg] assms(2) directory_reads(2,3)[OF assms(3), of dp]
    reads_trans[OF assms(3)] by auto

text \<open>A loop with early exit, as a search: the state it stops in is related to the first.\<close>

lemma kloop_find:
  "(\<And>k t. k \<in> set ks \<Longrightarrow> R t \<Longrightarrow> \<not> P k \<Longrightarrow> \<exists>u. body k t = Ok None u \<and> R u) \<Longrightarrow> R s \<Longrightarrow>
   (case find P ks of None \<Rightarrow> \<exists>u. kloop body ks s = Ok None u \<and> R u
    | Some k \<Rightarrow> \<exists>u rest. R u \<and> kloop body ks s = kloop body (k # rest) u)"
proof (induction ks arbitrary: s)
  case (Cons k ks)
  show ?case
  proof (cases "P k")
    case True
    then show ?thesis using Cons.prems(2) by auto
  next
    case False
    then obtain u where u: "body k s = Ok None u" "R u" using Cons.prems by (metis list.set_intros(1))
    have eq: "kloop body (k # ks) s = kloop body ks u" using u(1) by (simp add: k_simps)
    show ?thesis unfolding eq using Cons.IH[OF Cons.prems(1) u(2)] False by simp
  qed
qed (simp add: k_simps)

lemma dir_offs_entries:
  "directory s dp N \<Longrightarrow> dir_offs (i_size (icache s dp)) = map (\<lambda>k. k * sizeof_dirent) [0..<ndirent s dp]"
  using directory_size[of s dp N] by (simp add: dir_offs_def sizeof_dirent_16)

lemma kloop_map: "kloop body (map f xs) s = kloop (\<lambda>x. body (f x)) xs s"
  by (induction xs arbitrary: s) (auto simp: k_simps split: outcome.splits option.splits)

lemma dirlookup_spec:
  fixes s :: "'x cons_state_scheme"
  assumes "directory s dp N"
  shows "case dir_find s dp name of
      None \<Rightarrow> \<exists>t. dirlookup dp name s = Ok None t \<and> reads s t
    | Some k \<Rightarrow> \<exists>t. reads s t \<and> dirlookup dp name s =
        kbind (iget (i_dev (icache s dp)) (de_inum (dirent s dp k))) (\<lambda>ip. kret (Some (ip, k * sizeof_dirent))) t"
proof -
  let ?i = "icache s dp"
  let ?body = "\<lambda>k. kbind (read_dirent dp (k * sizeof_dirent) ''dirlookup read'') (\<lambda>de.
       if de_inum de = 0 then kret None
       else if namecmp name (de_name de) = 0 then
         kbind (iget (i_dev ?i) (de_inum de)) (\<lambda>ip. kret (Some (ip, k * sizeof_dirent)))
       else kret None) :: ('x cons_state_scheme, (nat \<times> nat) option) km"
  let ?P = "\<lambda>k. de_inum (dirent s dp k) \<noteq> 0 \<and> namecmp name (de_name (dirent s dp k)) = 0"
  have run: "dirlookup dp name s = kloop ?body [0..<ndirent s dp] s"
    using assms by (simp add: dirlookup_def k_simps get_inode_def dir_offs_entries[OF assms] kloop_map directory_def)
  note rd = read_dirent_later[OF assms]
  have ok: "reads s s" using assms reads_refl by (auto simp: directory_def plain_def)
  have "\<exists>u. ?body k t = Ok None u \<and> reads s u" if "k \<in> set [0..<ndirent s dp]" "reads s t" "\<not> ?P k" for k t
    using rd[of k t "''dirlookup read''"] that by (auto simp: k_simps)
  note f = kloop_find[of "[0..<ndirent s dp]" "reads s" ?P ?body s, OF this ok]
  show ?thesis
  proof (cases "dir_find s dp name")
    case None
    then show ?thesis using f run by (simp add: dir_find_def)
  next
    case (Some k)
    then have k: "k < ndirent s dp" "?P k" by (auto simp: dir_find_def find_upt_Some)
    obtain u rest where u: "reads s u" "dirlookup dp name s = kloop ?body (k # rest) u"
      using f Some run by (auto simp: dir_find_def)
    obtain v where v: "read_dirent dp (k * sizeof_dirent) ''dirlookup read'' u = Ok (dirent s dp k) v" "reads s v"
      using rd[OF k(1) u(1)] by blast
    have "dirlookup dp name s = kbind (iget (i_dev ?i) (de_inum (dirent s dp k))) (\<lambda>ip. kret (Some (ip, k * sizeof_dirent))) v"
      using u(2) v(1) k(2) by (auto simp: k_simps split: outcome.splits)
    then show ?thesis using Some v(2) by auto
  qed
qed

section \<open>Adding an entry\<close>

lemma entry_patch:
  assumes "length C = n * m" "k \<le> n" "length de = m" "j < max n (Suc k)"
  shows "chunk (j * m) m (patch (k * m) de C) = (if j = k then de else chunk (j * m) m C)"
proof (cases "k = n")
  case True
  then have p: "patch (k * m) de C = C @ de" using assms(1,3) by (simp add: patch_def)
  show ?thesis
  proof (cases "j = k")
    case True
    then show ?thesis using p \<open>k = n\<close> assms(1,3) by (simp add: chunk_def)
  next
    case False
    then have "Suc j * m \<le> n * m" using assms(4) True by (intro mult_le_mono1) simp
    then show ?thesis using p False assms(1) by (simp add: chunk_def)
  qed
next
  case False
  then have "Suc k * m \<le> n * m" "Suc j * m \<le> n * m" using assms(2,4) by (intro mult_le_mono1; simp)+
  then have l: "k * m + m \<le> length C" "j * m + m \<le> length C" using assms(1) by simp_all
  show ?thesis
  proof (cases "j = k")
    case True
    then show ?thesis using l assms(3) by simp
  next
    case ne: False
    then have "Suc j * m \<le> k * m \<or> Suc k * m \<le> j * m" using mult_le_mono1 by (metis Suc_leI linorder_neqE_nat)
    then have "j * m + m \<le> k * m \<or> k * m + m \<le> j * m" by (simp add: add.commute)
    then show ?thesis using ne l assms(3) by (simp add: chunk_patch_other)
  qed
qed

lemma touched_entry: "touched (k * sizeof_dirent) sizeof_dirent = 1"
proof -
  have "k * 16 mod 512 = 16 * (k mod 32)" using mod_mult_mult1[of 16 k 32] by (simp add: mult.commute)
  moreover have "k mod 32 \<le> 31" by simp
  ultimately have "k * 16 mod BSIZE + 16 \<le> BSIZE" unfolding BSIZE_def by linarith
  then have "(k * 16 + 16 - 1) div BSIZE = k * 16 div BSIZE" by (intro in_block(1)[of "k * 16" 16]) simp_all
  then show ?thesis by (simp add: touched_def sizeof_dirent_16)
qed

definition new_dirent :: "uchar list \<Rightarrow> nat \<Rightarrow> uchar list" where
  "new_dirent name inum = le_put 2 (of_nat inum :: ushort) @ name_field name"

lemma new_dirent:
  "length (new_dirent name inum) = sizeof_dirent" "de_name (new_dirent name inum) = name_field name"
  "inum < 2 ^ 16 \<Longrightarrow> de_inum (new_dirent name inum) = inum"
proof -
  have "chunk 0 2 (new_dirent name inum) = le_put 2 (of_nat inum :: ushort)" by (simp add: chunk_def new_dirent_def)
  then have "get16 0 (new_dirent name inum) = of_nat inum" by (simp add: get16_def le_get_put)
  then show "inum < 2 ^ 16 \<Longrightarrow> de_inum (new_dirent name inum) = inum" by (simp add: de_inum_def unat_of_nat)
qed (simp_all add: new_dirent_def sizeof_dirent_def de_name_def chunk_def)

lemma hole_scan:
  fixes s t :: "'x cons_state_scheme"
  assumes "directory s dp N" "reads s t"
  shows "\<exists>u. kloop (\<lambda>off. kbind (read_dirent dp off ''dirlink read'') (\<lambda>de. kret (if de_inum de = 0 then Some off else None)))
      (dir_offs (i_size (icache s dp))) t =
    Ok (map_option (\<lambda>k. k * sizeof_dirent) (find (\<lambda>k. de_inum (dirent s dp k) = 0) [0..<ndirent s dp])) u \<and> reads s u"
proof -
  let ?body = "\<lambda>k. kbind (read_dirent dp (k * sizeof_dirent) ''dirlink read'') (\<lambda>de.
      kret (if de_inum de = 0 then Some (k * sizeof_dirent) else None)) :: ('x cons_state_scheme, nat option) km"
  let ?P = "\<lambda>k. de_inum (dirent s dp k) = 0"
  note rd = read_dirent_later[OF assms(1)]
  have "\<exists>v. ?body k u = Ok None v \<and> reads s v" if "k \<in> set [0..<ndirent s dp]" "reads s u" "\<not> ?P k" for k u
    using rd[of k u "''dirlink read''"] that by (auto simp: k_simps)
  note f = kloop_find[of "[0..<ndirent s dp]" "reads s" ?P ?body t, OF this assms(2)]
  show ?thesis
  proof (cases "find ?P [0..<ndirent s dp]")
    case None
    then show ?thesis using f by (simp add: dir_offs_entries[OF assms(1)] kloop_map)
  next
    case (Some k)
    then have k: "k < ndirent s dp" "?P k" by (auto simp: find_upt_Some)
    obtain u rest where u: "reads s u" "kloop ?body [0..<ndirent s dp] t = kloop ?body (k # rest) u" using f Some by auto
    obtain v where v: "read_dirent dp (k * sizeof_dirent) ''dirlink read'' u = Ok (dirent s dp k) v" "reads s v"
      using rd[OF k(1) u(1)] by blast
    have "kloop ?body [0..<ndirent s dp] t = Ok (Some (k * sizeof_dirent)) v"
      using u(2) v(1) k(2) by (simp add: k_simps)
    then show ?thesis using Some v(2) by (simp add: dir_offs_entries[OF assms(1)] kloop_map)
  qed
qed

lemma inode_apart_reads: "reads s t \<Longrightarrow> inode_apart s dp N \<Longrightarrow> inode_apart t dp N"
  using readsD[of s t] file_ok_reads(2)[of s t dp] by (auto simp: inode_apart_def inode_block_def ind_block_def data_block_def)

lemma dir_hole_le: "dir_hole s dp \<le> ndirent s dp"
  by (auto simp: dir_hole_def find_upt_Some split: option.splits)

lemma dirlink_run:
  fixes s :: "'x cons_state_scheme"
  assumes dir: "directory s dp N" and ap: "inode_apart s dp N" and can: "can_log s 2"
    and fit: "dir_hole s dp * sizeof_dirent + sizeof_dirent \<le> N * BSIZE" and new: "dir_find s dp name = None"
  shows "\<exists>t u. dirlink dp name inum s = Ok 0 t \<and> reads s u \<and>
    written dp N (dir_hole s dp * sizeof_dirent) (new_dirent name inum) u t"
proof -
  let ?k = "dir_hole s dp"
  obtain r where r: "dirlookup dp name s = Ok None r" "reads s r" using dirlookup_spec[OF dir, of name] new by auto
  obtain u where u: "kloop (\<lambda>off. kbind (read_dirent dp off ''dirlink read'') (\<lambda>de. kret (if de_inum de = 0 then Some off else None)))
      (dir_offs (i_size (icache s dp))) r =
    Ok (map_option (\<lambda>k. k * sizeof_dirent) (find (\<lambda>k. de_inum (dirent s dp k) = 0) [0..<ndirent s dp])) u" "reads s u"
    using hole_scan[OF dir r(2)] by blast
  note ru = readsD[OF u(2)]
  have pl: "plain u dp N" using directory_reads(5)[OF u(2) dir] by (simp add: directory_def)
  note off = unat_dir_off[OF pl fit]
  have le: "?k * sizeof_dirent \<le> unat (i_size (icache u dp))"
    using dir_hole_le[of s dp] directory_size[OF dir] ru(2) by simp
  have "can_log u (touched (?k * sizeof_dirent) (length (new_dirent name inum)) + 1)"
    using can ru(8) by (simp add: touched_entry new_dirent(1) numeral_2_eq_2)
  then obtain t where t: "writei dp (of_nat (?k * sizeof_dirent)) (new_dirent name inum) u = Ok (int sizeof_dirent) t"
      "written dp N (?k * sizeof_dirent) (new_dirent name inum) u t"
    using writei_contents[OF pl inode_apart_reads[OF u(2) ap], of "of_nat (?k * sizeof_dirent)" "new_dirent name inum"]
      le fit off(1) by (auto simp: new_dirent(1))
  have "(case map_option (\<lambda>k. k * sizeof_dirent) (find (\<lambda>k. de_inum (dirent s dp k) = 0) [0..<ndirent s dp]) of
      Some off \<Rightarrow> off | None \<Rightarrow> length (dir_offs (i_size (icache s dp))) * sizeof_dirent) = ?k * sizeof_dirent"
    by (simp add: dir_hole_def dir_offs_entries[OF dir] split: option.split)
  then have "dirlink dp name inum s = Ok 0 t"
    using r(1) readsD(2)[OF r(2)] u(1) t(1) by (simp add: dirlink_def k_simps get_inode_def Let_def new_dirent_def)
  then show ?thesis using u(2) t(2) by blast
qed

text \<open>
  Claim C6. Linking makes a name: in a directory that does not have the name, \<open>dirlink\<close> succeeds, the
  new entry stands in the first empty slot or at the end, every other entry is as it was, and \<open>dirlookup\<close>
  of the name finds exactly this entry, at its offset and with its inode number; before, it found nothing.
\<close>

theorem dirlink_dirlookup:
  fixes s :: "'x cons_state_scheme"
  assumes dir: "directory s dp N" and ap: "inode_apart s dp N" and can: "can_log s 2" and inum: "0 < inum" "inum < 2 ^ 16"
    and fit: "dir_hole s dp * sizeof_dirent + sizeof_dirent \<le> N * BSIZE" and new: "dir_find s dp name = None"
  shows "\<exists>r t u. dirlookup dp name s = Ok None r \<and> dirlink dp name inum s = Ok 0 t \<and> directory t dp N \<and>
    (\<forall>j < ndirent s dp. j \<noteq> dir_hole s dp \<longrightarrow> dirent t dp j = dirent s dp j) \<and>
    dir_find t dp name = Some (dir_hole s dp) \<and>
    dirlookup dp name t = kbind (iget (i_dev (icache s dp)) inum) (\<lambda>ip. kret (Some (ip, dir_hole s dp * sizeof_dirent))) u \<and>
    contents u dp = contents t dp"
proof -
  let ?k = "dir_hole s dp" and ?n = "ndirent s dp"
  obtain t v where t: "dirlink dp name inum s = Ok 0 t" "reads s v" "written dp N (?k * sizeof_dirent) (new_dirent name inum) v t"
    using dirlink_run[OF dir ap can fit new] by blast
  note rv = readsD[OF t(2)]
  have C: "contents t dp = patch (?k * sizeof_dirent) (new_dirent name inum) (contents s dp)" "plain t dp N"
    using t(3) directory_reads(1)[OF t(2)] by (simp_all add: written_def)
  have len: "length (contents s dp) = ?n * sizeof_dirent" using directory_size[OF dir] by (simp add: contents_def)
  have max: "max (?n * sizeof_dirent) (?k * sizeof_dirent + sizeof_dirent) = max ?n (Suc ?k) * sizeof_dirent"
    by (auto simp: max_def sizeof_dirent_16)
  have lt: "max (?n * sizeof_dirent) (?k * sizeof_dirent + sizeof_dirent) < 2 ^ 32"
    using unat_dir_off(2)[OF C(2) fit] directory_size[OF dir] unsigned_less[of "i_size (icache s dp)", where ?'a = nat] by simp
  have ic: "icache t dp = (icache s dp)\<lparr>i_size := of_nat (max ?n (Suc ?k) * sizeof_dirent)\<rparr>"
    using t(3) rv(2) directory_size[OF dir] by (simp add: written_def new_dirent(1) max)
  have size: "unat (i_size (icache t dp)) = max ?n (Suc ?k) * sizeof_dirent"
    using ic unat_small[OF lt] by (simp add: max)
  then have nt: "ndirent t dp = max ?n (Suc ?k)" by (simp add: ndirent_def sizeof_dirent_16)
  have dt: "directory t dp N" using C(2) dir ic size by (simp add: directory_def)
  have e: "dirent t dp j = (if j = ?k then new_dirent name inum else dirent s dp j)" if "j < max ?n (Suc ?k)" for j
    unfolding dirent_def C(1) using entry_patch[OF len dir_hole_le new_dirent(1) that] .
  have old: "\<not> (de_inum (dirent s dp j) \<noteq> 0 \<and> namecmp name (de_name (dirent s dp j)) = 0)" if "j < ?n" for j
    using new that by (auto simp: dir_find_def find_upt_None)
  have "de_inum (dirent t dp ?k) = inum" "namecmp name (de_name (dirent t dp ?k)) = 0"
    using e[of ?k] new_dirent(2) new_dirent(3)[OF inum(2)] namecmp_field by simp_all
  moreover have "\<not> (de_inum (dirent t dp j) \<noteq> 0 \<and> namecmp name (de_name (dirent t dp j)) = 0)" if "j < ?k" for j
    using e[of j] old[of j] that dir_hole_le[of s dp] by simp
  ultimately have f: "dir_find t dp name = Some ?k" "de_inum (dirent t dp ?k) = inum"
    using inum(1) nt by (simp_all add: dir_find_def find_upt_Some)
  obtain u where u: "reads t u" "dirlookup dp name t =
      kbind (iget (i_dev (icache t dp)) inum) (\<lambda>ip. kret (Some (ip, ?k * sizeof_dirent))) u"
    using dirlookup_spec[OF dt, of name] f by auto
  obtain r where "dirlookup dp name s = Ok None r" using dirlookup_spec[OF dir, of name] new by auto
  then show ?thesis
    using t(1) dt e f(1) u ic directory_reads(1)[OF u(1)] by auto
qed

text \<open>A directory with an entry \<open>b\<close> and an empty slot, into which \<open>a\<close> is linked.\<close>

definition demo_dir :: "uchar list" where
  "demo_dir = new_dirent [98] 7 @ replicate (BSIZE - 16) 0"

lemma demo_dir:
  "chunk 0 16 demo_dir = new_dirent [98] 7" "chunk 16 16 demo_dir = replicate 16 0" "length demo_dir = BSIZE"
  using new_dirent(1)[of "[98]" 7] by (simp_all add: demo_dir_def chunk_def sizeof_dirent_16 BSIZE_def)

theorem dirlink_dirlookup_witness:
  "\<exists>(s :: cons_state) t. directory s 0 1 \<and> dir_find s 0 [98] = Some 0 \<and> dir_find s 0 [97] = None \<and>
     dirlink 0 [97] 9 s = Ok 0 t \<and> dir_find t 0 [97] = Some 1 \<and> dirent t 0 0 = dirent s 0 0"
proof -
  obtain v :: log_state where v: "log_ok v" "lh_n v = 0" "lg_start v = 2" "lg_size v = 30" "disksize v = 1000"
    using boot_log_ready by blast
  let ?i = "demo_inode\<lparr>i_type := T_DIR, i_size := 32\<rparr>"
  let ?s = "put_inode 0 ?i (demo_fs v)"
  have sel: "icache ?s 0 = ?i" "lh_n ?s = 0" "lg_start ?s = 2" "lg_size ?s = 30" "disksize ?s = 1000" "lg_outstanding ?s = 1"
      "fs_sb ?s = (sb_decode sb_image)\<lparr>sb_inodestart := 32\<rparr>"
    using v by (simp_all add: demo_fs_def fs_state.defs log_state.defs)
  have "log_ok (demo_fs v) = log_ok v" by (rule log_ok_ext) (simp_all add: demo_fs_def fs_state.defs log_state.defs)
  then have ok: "log_ok ?s" using v(1) by simp
  have can: "can_log ?s 3" unfolding can_log_def sel by (simp add: LOGSIZE_def)
  have "data_block ?s 500" unfolding data_block_def sel by (simp add: home_def)
  then obtain t where t: "logs 1 ?s t" "view t = (view ?s)(500 := demo_dir)"
    using log_change[OF ok, of 500 "\<lambda>_. demo_dir"] can_log_le[OF can] demo_dir(3) by auto
  note tD = logsD[OF t(1)]
  have ic: "icache t 0 = ?i" using tD(2) sel(1) by simp
  have fb: "fblock t 0 0 = 500" by (simp add: fblock_def ic demo_inode_def NDIRECT_def)
  have dat: "data_block t n \<longleftrightarrow> (n < 2 \<or> 32 \<le> n) \<and> n < 1000" for n
    unfolding data_block_def tD sel by (auto simp: home_def)
  have "file_ok t 0 1" by (simp add: file_ok_def ic demo_inode_def fb dat MAXFILE_def NDIRECT_def inj_on_def)
  then have dir: "directory t 0 1"
    using tD(1) by (simp add: directory_def plain_def ic T_DIR_def T_DEV_def BSIZE_def sizeof_dirent_16)
  have ap: "inode_apart t 0 1"
    unfolding inode_apart_def inode_block_def tD(3) sel(7) using fb
    by (auto simp: IBLOCK_def IPB_def BSIZE_def ic demo_inode_def dat NDIRECT_def)
  have n: "ndirent t 0 = 2" by (simp add: ndirent_def ic sizeof_dirent_16)
  have "contents t 0 = chunk 0 32 demo_dir"
    using chunk_bytes[of 0 32 t 0] fb t(2) demo_dir(3) by (simp add: contents_def ic BSIZE_def)
  then have e: "dirent t 0 0 = new_dirent [98] 7" "dirent t 0 1 = replicate 16 0"
    using demo_dir(1,2) by (simp_all add: dirent_def sizeof_dirent_16 chunk_def drop_take)
  have z: "de_inum (replicate 16 0) = 0" by (simp add: de_inum_def get16_def chunk_replicate)
  have d: "de_inum (new_dirent [98] 7) = 7" "de_name (new_dirent [98] 7) = name_field [98]" using new_dirent by simp_all
  have c: "namecmp [97] (name_field [98]) \<noteq> 0" "namecmp [98] (name_field [98]) = 0"
    by (simp_all add: namecmp_def str_ncmp_iff name_field_def DIRSIZ_def)
  have fnd: "dir_find t 0 [98] = Some 0" "dir_find t 0 [97] = None" "dir_hole t 0 = 1"
    using e z d c by (simp_all add: dir_find_def dir_hole_def n upt_rec)
  have "can_log t 2" using tD(8)[of 2] can by (simp add: numeral_3_eq_3 numeral_2_eq_2)
  then have "\<exists>u. dirlink 0 [97] 9 t = Ok 0 u \<and> dir_find u 0 [97] = Some 1 \<and> dirent u 0 0 = dirent t 0 0"
    using dirlink_dirlookup[OF dir ap, of 9 "[97]"] fnd n by (auto simp: sizeof_dirent_16 BSIZE_def)
  then show ?thesis using dir fnd(1,2) by blast
qed

end
