(* ===== verification/Mkfs.thy ===== *)
theory Mkfs
  imports Alloc Directory
begin

text \<open>
  \<^verbatim>\<open>mkfs.c\<close>, the program that builds the disk image. It runs on the host: the image is a sequence of sectors,
  and reading beyond its end, which makes the program exit, is \<open>EFault\<close>. A failed assertion is \<open>EPanic\<close>. The
  numbers are stored in Intel byte order (\<open>xint\<close>, \<open>xshort\<close>), so a structure in memory and its bytes on the disk
  are related as in the kernel; an inode is the kernel's record with its number in \<open>i_inum\<close>.
\<close>

unbundle bit_operations_syntax

section \<open>State\<close>

record mk =
  mk_disk :: "nat \<Rightarrow> uchar list"
  mk_len :: nat               \<comment> \<open>sectors in the image file\<close>
  mk_sb :: superblock
  freeinode :: nat
  freeblock :: nat

definition NINODES :: nat where "NINODES = 200"
definition nbitmap :: nat where "nbitmap = FSSIZE div (BSIZE * 8) + 1"
definition ninodeblocks :: nat where "ninodeblocks = NINODES div IPB + 1"
definition nlog :: nat where "nlog = LOGSIZE"
definition nmeta :: nat where "nmeta = 2 + nlog + ninodeblocks + nbitmap"

definition mk_layout :: superblock where
  "mk_layout = \<lparr>sb_size = FSSIZE, sb_nblocks = FSSIZE - nmeta, sb_ninodes = NINODES, sb_nlog = nlog, sb_logstart = 2,
     sb_inodestart = 2 + nlog, sb_bmapstart = 2 + nlog + ninodeblocks\<rparr>"

text \<open>\<open>memmove(buf, &sb, sizeof(sb))\<close> into a zeroed buffer.\<close>

definition sb_encode :: "superblock \<Rightarrow> uchar list" where
  "sb_encode sb =
     put32 0 (of_nat (sb_size sb)) (put32 4 (of_nat (sb_nblocks sb)) (put32 8 (of_nat (sb_ninodes sb))
       (put32 12 (of_nat (sb_nlog sb)) (put32 16 (of_nat (sb_logstart sb)) (put32 20 (of_nat (sb_inodestart sb))
         (put32 24 (of_nat (sb_bmapstart sb)) (replicate BSIZE 0)))))))"

section \<open>Sectors and inodes\<close>

definition wsect :: "nat \<Rightarrow> uchar list \<Rightarrow> (mk, unit) km" where
  "wsect sec buf = kmod (\<lambda>s. s\<lparr>mk_disk := (mk_disk s)(sec := buf), mk_len := max (mk_len s) (sec + 1)\<rparr>)"

definition rsect :: "nat \<Rightarrow> (mk, uchar list) km" where
  "rsect sec = kbind (kget mk_len) (\<lambda>n. if sec < n then kget (\<lambda>s. mk_disk s sec) else kfault ''read'')"

definition winode :: "inode \<Rightarrow> (mk, unit) km" where
  "winode ip =
     kbind (kget mk_sb) (\<lambda>sb.
     let bn = IBLOCK (i_inum ip) sb in
     kbind (rsect bn) (\<lambda>buf. wsect bn (dip_put ip buf)))"

definition rinode :: "nat \<Rightarrow> (mk, inode) km" where
  "rinode inum =
     kbind (kget mk_sb) (\<lambda>sb.
     kbind (rsect (IBLOCK inum sb)) (\<lambda>buf. kret (dip_get buf (no_inode\<lparr>i_inum := inum\<rparr>))))"

definition mk_ialloc :: "ushort \<Rightarrow> (mk, nat) km" where
  "mk_ialloc type =
     kbind (kget freeinode) (\<lambda>inum.
     kseq (kmod (\<lambda>s. s\<lparr>freeinode := inum + 1\<rparr>))
     (kseq (winode (no_inode\<lparr>i_inum := inum, i_type := type, i_nlink := 1, i_size := 0\<rparr>))
           (kret inum)))"

text \<open>The bitmap with the first \<open>used\<close> bits set, built bit by bit.\<close>

definition mk_balloc :: "nat \<Rightarrow> (mk, unit) km" where
  "mk_balloc used =
     (if \<not> used < BSIZE * 8 then kpanic ''used < BSIZE*8''
      else kbind (kget mk_sb) (\<lambda>sb.
        wsect (sb_bmapstart sb) (fold (\<lambda>i buf. buf[i div 8 := buf ! (i div 8) OR push_bit (i mod 8) 1]) [0..<used] (replicate BSIZE 0))))"

section \<open>Appending to a file\<close>

definition new_block :: "(mk, nat) km" where
  "new_block = kbind (kget freeblock) (\<lambda>b. kseq (kmod (\<lambda>s. s\<lparr>freeblock := b + 1\<rparr>)) (kret b))"

text \<open>The disk block of file block \<open>fbn\<close>, and the inode with the addresses that were allocated for it.\<close>

definition mk_bmap :: "inode \<Rightarrow> nat \<Rightarrow> (mk, inode \<times> nat) km" where
  "mk_bmap din fbn =
     (if fbn < NDIRECT then
        kbind (if i_addrs din fbn = 0 then kbind new_block (\<lambda>b. kret (din\<lparr>i_addrs := (i_addrs din)(fbn := b)\<rparr>)) else kret din) (\<lambda>din1.
        kret (din1, i_addrs din1 fbn))
      else
        kbind (if i_addrs din NDIRECT = 0 then kbind new_block (\<lambda>b. kret (din\<lparr>i_addrs := (i_addrs din)(NDIRECT := b)\<rparr>)) else kret din) (\<lambda>din1.
        kbind (rsect (i_addrs din1 NDIRECT)) (\<lambda>ind.
        kbind (if get32 (4 * (fbn - NDIRECT)) ind = 0 then
                 kbind new_block (\<lambda>b. let ind' = put32 (4 * (fbn - NDIRECT)) (of_nat b) ind in
                 kseq (wsect (i_addrs din1 NDIRECT) ind') (kret ind'))
               else kret ind) (\<lambda>ind1.
        kret (din1, unat (get32 (4 * (fbn - NDIRECT)) ind1))))))"

function iappend_loop :: "inode \<Rightarrow> nat \<Rightarrow> uchar list \<Rightarrow> (mk, inode \<times> nat) km" where
  "iappend_loop din off bs =
     (if bs = [] then kret (din, off)
      else let fbn = off div BSIZE; n1 = min (length bs) ((fbn + 1) * BSIZE - off) in
        if \<not> fbn < MAXFILE then kpanic ''fbn < MAXFILE''
        else kbind (mk_bmap din fbn) (\<lambda>(din1, x).
          kbind (rsect x) (\<lambda>buf.
          kseq (wsect x (patch (off - fbn * BSIZE) (take n1 bs) buf))
               (iappend_loop din1 (off + n1) (drop n1 bs)))))"
  by pat_completeness auto
termination
proof (relation "measure (\<lambda>(_, _, bs). length bs)")
  fix din :: inode and off :: nat and bs :: "uchar list" and fbn n1 and p :: "inode \<times> nat" and din1 x and buf :: "uchar list"
  assume h: "bs \<noteq> []" "fbn = off div BSIZE" "n1 = min (length bs) ((fbn + 1) * BSIZE - off)"
  have "off < (off div BSIZE + 1) * BSIZE" using dividend_less_div_times[of BSIZE off] by simp
  then have "0 < n1" using h by simp
  then show "((din1, off + n1, drop n1 bs), din, off, bs) \<in> measure (\<lambda>(_, _, bs). length bs)"
    using h(1) by (simp add: diff_less)
qed simp

declare iappend_loop.simps [simp del]

definition iappend :: "nat \<Rightarrow> uchar list \<Rightarrow> (mk, unit) km" where
  "iappend inum bs =
     kbind (rinode inum) (\<lambda>din.
     kbind (iappend_loop din (unat (i_size din)) bs) (\<lambda>(din1, off).
     winode (din1\<lparr>i_size := of_nat off\<rparr>)))"

section \<open>The program\<close>

text \<open>
  A file on the command line: its name, and what reading it returns, or \<open>None\<close> where it cannot be opened. A
  leading underscore is dropped from the name. Opening the image truncates it.
\<close>

definition mk_file :: "nat \<Rightarrow> uchar list \<times> uchar list list option \<Rightarrow> (mk, unit) km" where
  "mk_file rootino f =
     (if 47 \<in> set (fst f) then kpanic ''index(argv[i], '/') == 0''
      else case snd f of None \<Rightarrow> kfault ''open''
        | Some parts \<Rightarrow>
            let name = (case fst f of c # cs \<Rightarrow> if c = 95 then cs else fst f | [] \<Rightarrow> []) in
            kbind (mk_ialloc T_FILE) (\<lambda>inum.
            kseq (iappend rootino (le_put 2 (of_nat inum :: ushort) @ name_field name))
                 (kfor (iappend inum) (takeWhile (\<lambda>r. r \<noteq> []) parts))))"

definition mk_dirent :: "nat \<Rightarrow> uchar list \<Rightarrow> uchar list" where
  "mk_dirent inum name = le_put 2 (of_nat inum :: ushort) @ name @ replicate (DIRSIZ - length name) 0"

definition mkfs_main :: "(uchar list \<times> uchar list list option) list \<Rightarrow> (mk, unit) km" where
  "mkfs_main files =
     kseq (kmod (\<lambda>s. s\<lparr>mk_disk := (\<lambda>_. []), mk_len := 0\<rparr>))
     (kseq (kmod (\<lambda>s. s\<lparr>mk_sb := mk_layout, freeblock := nmeta\<rparr>))
     (kseq (kfor (\<lambda>i. wsect i (replicate BSIZE 0)) [0..<FSSIZE])
     (kseq (kbind (kget mk_sb) (\<lambda>sb. wsect 1 (sb_encode sb)))
     (kbind (mk_ialloc T_DIR) (\<lambda>rootino.
      if rootino \<noteq> ROOTINO then kpanic ''rootino == ROOTINO''
      else
        kseq (iappend rootino (mk_dirent rootino [46]))
        (kseq (iappend rootino (mk_dirent rootino [46, 46]))
        (kseq (kfor (mk_file rootino) files)
        (kseq (kbind (rinode rootino) (\<lambda>din.
               winode (din\<lparr>i_size := of_nat ((unat (i_size din) div BSIZE + 1) * BSIZE)\<rparr>)))
              (kbind (kget freeblock) mk_balloc)))))))))"

end
