(* ===== verification/Image.thy ===== *)
theory Image
  imports Mkfs
begin

text \<open>
  The image \<^verbatim>\<open>mkfs\<close> builds is one the kernel can use. Every sector past the bitmap has a role: data, or
  the indirect block of an inode. Inodes lead to data and indirect sectors only, so no append ever touches
  the superblock, the log or the bitmap.
\<close>

unbundle bit_operations_syntax

section \<open>Inodes in a sector\<close>

lemma get32_put16:
  "off + 2 \<le> length d \<Longrightarrow> k + 4 \<le> length d \<Longrightarrow> k + 4 \<le> off \<or> off + 2 \<le> k \<Longrightarrow> get32 k (put16 off w d) = get32 k d"
  by (simp add: get32_def put16_def chunk_patch_other)

lemma get32_put_addrs:
  "off + 4 * n \<le> length d \<Longrightarrow> k + 4 \<le> length d \<Longrightarrow> k + 4 \<le> off \<or> off + 4 * n \<le> k \<Longrightarrow> get32 k (put_addrs off f n d) = get32 k d"
  by (induction n) (auto simp: get32_put32_other)

lemma get32_put_addrs_at:
  "off + 4 * n \<le> length d \<Longrightarrow> j < n \<Longrightarrow> get32 (off + 4 * j) (put_addrs off f n d) = of_nat (f j)"
proof (induction n)
  case (Suc n)
  show ?case
  proof (cases "j = n")
    case True
    then show ?thesis using Suc.prems by simp
  next
    case False
    then show ?thesis using Suc by (simp add: get32_put32_other)
  qed
qed simp

text \<open>Address \<open>k\<close> of inode \<open>inum\<close> in its sector.\<close>

definition daddr :: "uchar list \<Rightarrow> nat \<Rightarrow> nat \<Rightarrow> nat" where
  "daddr d inum k = unat (get32 (dip_off inum + 12 + 4 * k) d)"

lemma daddr_same:
  assumes "length d = BSIZE" "k \<le> NDIRECT" "i_addrs ip k < 2 ^ 32"
  shows "daddr (dip_put ip d) (i_inum ip) k = i_addrs ip k"
  using assms dip_off_le[of "i_inum ip"] get32_put_addrs_at[of "dip_off (i_inum ip) + 12" 13 _ k "i_addrs ip"]
  by (simp add: daddr_def dip_put_def Let_def NDIRECT_def unat_small)

lemma dip_off_apart:
  assumes "i mod IPB \<noteq> j mod IPB"
  shows "dip_off i + 64 \<le> dip_off j \<or> dip_off j + 64 \<le> dip_off i"
proof -
  have "Suc (i mod IPB) * 64 \<le> j mod IPB * 64 \<or> Suc (j mod IPB) * 64 \<le> i mod IPB * 64"
    using assms by (metis Suc_leI linorder_neqE_nat mult_le_mono1)
  then show ?thesis by (simp add: dip_off_def add.commute)
qed

lemma daddr_other:
  assumes "length d = BSIZE" "k \<le> NDIRECT" "j mod IPB \<noteq> i_inum ip mod IPB"
  shows "daddr (dip_put ip d) j k = daddr d j k"
proof -
  let ?a = "dip_off (i_inum ip)" and ?k = "dip_off j + 12 + 4 * k"
  have a: "?a + 64 \<le> BSIZE" "?k + 4 \<le> BSIZE" using dip_off_le[of "i_inum ip"] dip_off_le[of j] assms(2) by (simp_all add: NDIRECT_def)
  have s: "?k + 4 \<le> ?a \<or> ?a + 64 \<le> ?k" using dip_off_apart[OF assms(3)] assms(2) by (auto simp: NDIRECT_def)
  show ?thesis
    unfolding daddr_def dip_put_def Let_def
    using a s assms(1) by (auto simp: NDIRECT_def get32_put_addrs get32_put32_other get32_put16)
qed

lemma dip_get_addrs [simp]: "k \<le> NDIRECT \<Longrightarrow> i_addrs (dip_get d ip) k = daddr d (i_inum ip) k"
  by (simp add: dip_get_def Let_def daddr_def)

lemma dip_get_inum [simp]: "i_inum (dip_get d ip) = i_inum ip"
  by (simp add: dip_get_def Let_def)

section \<open>Roles of sectors\<close>

definition addr_ok :: "nat set \<Rightarrow> nat set \<Rightarrow> (nat \<Rightarrow> nat) \<Rightarrow> bool" where
  "addr_ok D I f \<longleftrightarrow> (\<forall>k<NDIRECT. f k = 0 \<or> f k \<in> D) \<and> (f NDIRECT = 0 \<or> f NDIRECT \<in> I)"

definition ind_ok :: "nat set \<Rightarrow> uchar list \<Rightarrow> bool" where
  "ind_ok D d \<longleftrightarrow> (\<forall>k<NINDIRECT. get32 (4 * k) d = 0 \<or> unat (get32 (4 * k) d) \<in> D)"

definition max_inodes :: nat where
  "max_inodes = ninodeblocks * IPB"

definition minv :: "(nat \<Rightarrow> uchar list) \<Rightarrow> nat set \<Rightarrow> nat set \<Rightarrow> mk \<Rightarrow> bool" where
  "minv L D I s \<longleftrightarrow> mk_sb s = mk_layout \<and> mk_len s = FSSIZE \<and> (\<forall>b<FSSIZE. length (mk_disk s b) = BSIZE) \<and>
     nmeta \<le> freeblock s \<and> freeblock s \<le> FSSIZE \<and> D \<subseteq> {nmeta..<freeblock s} \<and> I \<subseteq> {nmeta..<freeblock s} \<and> D \<inter> I = {} \<and>
     (\<forall>b. freeblock s \<le> b \<and> b < FSSIZE \<longrightarrow> mk_disk s b = replicate BSIZE 0) \<and>
     (\<forall>i<max_inodes. addr_ok D I (daddr (mk_disk s (IBLOCK i mk_layout)) i)) \<and>
     (\<forall>b\<in>I. ind_ok D (mk_disk s b)) \<and> (\<forall>b<32. mk_disk s b = L b)"

lemma layout_nums: "nmeta = 59" "max_inodes = 208" "sb_bmapstart mk_layout = 58" "FSSIZE = 1000" "IBLOCK i mk_layout = i div 8 + 32" "IPB = 8"
  by (simp_all add: nmeta_def max_inodes_def mk_layout_def nlog_def ninodeblocks_def nbitmap_def NINODES_def FSSIZE_def BSIZE_def IPB_def
      LOGSIZE_def IBLOCK_def)

lemma inode_sector: "i < max_inodes \<Longrightarrow> 32 \<le> IBLOCK i mk_layout \<and> IBLOCK i mk_layout < 58"
  by (simp add: layout_nums div_less_iff_less_mult)

lemma minvD:
  assumes "minv L D I s"
  shows "mk_sb s = mk_layout" "mk_len s = FSSIZE" "b < FSSIZE \<Longrightarrow> length (mk_disk s b) = BSIZE" "nmeta \<le> freeblock s" "freeblock s \<le> FSSIZE"
    "x \<in> D \<Longrightarrow> nmeta \<le> x \<and> x < FSSIZE" "x \<in> I \<Longrightarrow> nmeta \<le> x \<and> x < FSSIZE" "x \<in> D \<Longrightarrow> x \<in> I \<Longrightarrow> False"
    "x \<in> D \<union> I \<Longrightarrow> x < freeblock s"
    "i < max_inodes \<Longrightarrow> addr_ok D I (daddr (mk_disk s (IBLOCK i mk_layout)) i)" "x \<in> I \<Longrightarrow> ind_ok D (mk_disk s x)"
    "freeblock s \<le> x \<Longrightarrow> x < FSSIZE \<Longrightarrow> mk_disk s x = replicate BSIZE 0"
  using assms unfolding minv_def by (auto simp: subset_iff)

lemma addr_ok_mono: "addr_ok D I f \<Longrightarrow> D \<subseteq> D' \<Longrightarrow> I \<subseteq> I' \<Longrightarrow> addr_ok D' I' f"
  by (auto simp: addr_ok_def)

lemma addr_ok_small: "minv L D I s \<Longrightarrow> addr_ok D I f \<Longrightarrow> k \<le> NDIRECT \<Longrightarrow> f k < 2 ^ 32"
proof -
  assume m: "minv L D I s" and a: "addr_ok D I f" and k: "k \<le> NDIRECT"
  have "k < NDIRECT \<or> k = NDIRECT" using k by linarith
  then have "f k = 0 \<or> f k \<in> D \<union> I" using a unfolding addr_ok_def by (metis UnCI)
  then have "f k < FSSIZE" using minvD(6,7)[OF m] by (auto simp: layout_nums)
  then show ?thesis by (simp add: layout_nums)
qed

section \<open>Writes keep the roles\<close>

abbreviation put_sect :: "nat \<Rightarrow> uchar list \<Rightarrow> mk \<Rightarrow> mk" where
  "put_sect x d s \<equiv> s\<lparr>mk_disk := (mk_disk s)(x := d), mk_len := max (mk_len s) (x + 1)\<rparr>"

lemma minv_data:
  assumes m: "minv L D I s" and x: "x \<in> D" and l: "length d = BSIZE"
  shows "minv L D I (put_sect x d s)"
proof -
  have b: "nmeta \<le> x" "x < FSSIZE" "x \<notin> I" "x < freeblock s" using minvD(6,8,9)[OF m] x by auto
  have "IBLOCK i mk_layout \<noteq> x" if "i < max_inodes" for i using inode_sector[OF that] b(1) by (simp add: layout_nums(1))
  moreover have "max (mk_len s) (x + 1) = mk_len s" using minvD(2)[OF m] b(2) by simp
  moreover have "c \<noteq> x" if "c < 32" for c using that b(1) by (simp add: layout_nums(1))
  ultimately show ?thesis using m b l unfolding minv_def by auto
qed

lemma minv_inode:
  assumes m: "minv L D I s" and i: "i_inum ip < max_inodes" and a: "addr_ok D I (i_addrs ip)"
  shows "\<exists>t. winode ip s = Ok () t \<and> minv L D I t \<and> freeblock t = freeblock s \<and> freeinode t = freeinode s"
proof -
  let ?n = "IBLOCK (i_inum ip) mk_layout"
  let ?t = "put_sect ?n (dip_put ip (mk_disk s ?n)) s"
  have n: "32 \<le> ?n" "?n < 58" using inode_sector[OF i] by simp_all
  then have lt: "?n < FSSIZE" by (simp add: layout_nums(4))
  have len: "length (mk_disk s ?n) = BSIZE" using minvD(3)[OF m lt] .
  have run: "winode ip s = Ok () ?t"
    using minvD(1,2)[OF m] lt by (simp add: winode_def rsect_def wsect_def k_simps Let_def)
  have ad: "addr_ok D I (daddr (mk_disk ?t (IBLOCK j mk_layout)) j)" if j: "j < max_inodes" for j
  proof (cases "IBLOCK j mk_layout = ?n")
    case True
    show ?thesis
    proof (cases "j = i_inum ip")
      case True
      then have "daddr (mk_disk ?t ?n) j k = i_addrs ip k" if "k \<le> NDIRECT" for k
        using daddr_same[OF len that addr_ok_small[OF m a that]] by simp
      then show ?thesis using a True by (simp add: addr_ok_def)
    next
      case False
      then have "j mod IPB \<noteq> i_inum ip mod IPB"
        using \<open>IBLOCK j mk_layout = ?n\<close> by (metis div_mult_mod_eq layout_nums(5,6) add_right_cancel)
      then have "daddr (mk_disk ?t ?n) j k = daddr (mk_disk s ?n) j k" if "k \<le> NDIRECT" for k
        using daddr_other[OF len that] by simp
      then show ?thesis using minvD(10)[OF m j] \<open>IBLOCK j mk_layout = ?n\<close> by (simp add: addr_ok_def)
    qed
  next
    case False
    then show ?thesis using minvD(10)[OF m j] by simp
  qed
  have "?n \<notin> D \<union> I" "?n < freeblock s" using minvD(4)[OF m] minvD(6,7)[OF m, of ?n] n(2) by (auto simp: layout_nums(1))
  moreover have "max (mk_len s) (?n + 1) = mk_len s" using minvD(2)[OF m] lt by simp
  ultimately have "minv L D I ?t"
    using m ad len n lt unfolding minv_def by auto
  then show ?thesis using run by simp
qed

section \<open>Appending\<close>

text \<open>The next free sector becomes data, or an indirect block.\<close>

lemma minv_new:
  assumes m: "minv L D I s" and b: "freeblock s < FSSIZE"
  shows "minv L (insert (freeblock s) D) I (s\<lparr>freeblock := freeblock s + 1\<rparr>)"
    "minv L D (insert (freeblock s) I) (s\<lparr>freeblock := freeblock s + 1\<rparr>)"
proof -
  let ?b = "freeblock s"
  have out: "?b \<notin> D" "?b \<notin> I" using minvD(9)[OF m, of ?b] by auto
  have z: "ind_ok D (mk_disk s ?b)"
    using minvD(12)[OF m order_refl b] by (simp add: ind_ok_def NINDIRECT_def get32_zeros)
  have i: "\<forall>c\<in>I. ind_ok (insert ?b D) (mk_disk s c)" using minvD(11)[OF m] by (auto simp: ind_ok_def)
  have a: "addr_ok (insert ?b D) I f" "addr_ok D (insert ?b I) f" if "addr_ok D I f" for f using that by (auto simp: addr_ok_def)
  show "minv L (insert ?b D) I (s\<lparr>freeblock := ?b + 1\<rparr>)" "minv L D (insert ?b I) (s\<lparr>freeblock := ?b + 1\<rparr>)"
    using m b out z i a unfolding minv_def by (auto simp: subset_iff)
qed

lemma minv_ind:
  assumes m: "minv L D I s" and x: "x \<in> I" and v: "v \<in> D" and k: "k < NINDIRECT"
  shows "minv L D I (put_sect x (put32 (4 * k) (of_nat v) (mk_disk s x)) s)"
proof -
  let ?d = "put32 (4 * k) (of_nat v) (mk_disk s x)"
  have b: "nmeta \<le> x" "x < FSSIZE" "x < freeblock s" using minvD(7,9)[OF m] x by auto
  have len: "length (mk_disk s x) = BSIZE" using minvD(3)[OF m b(2)] .
  have k4: "4 * k + 4 \<le> BSIZE" using k by (simp add: NINDIRECT_def BSIZE_def)
  have "v < 2 ^ 32" using minvD(6)[OF m v] by (simp add: layout_nums(4))
  then have u: "unat (of_nat v :: uint) = v" by (rule unat_small)
  have "ind_ok D ?d" unfolding ind_ok_def
  proof (intro allI impI)
    fix j assume j: "j < NINDIRECT"
    then have j4: "4 * j + 4 \<le> BSIZE" by (simp add: NINDIRECT_def BSIZE_def)
    show "get32 (4 * j) ?d = 0 \<or> unat (get32 (4 * j) ?d) \<in> D"
    proof (cases "j = k")
      case True
      then show ?thesis using len k4 u v by simp
    next
      case False
      then have "4 * j + 4 \<le> 4 * k \<or> 4 * k + 4 \<le> 4 * j" by linarith
      then have "get32 (4 * j) ?d = get32 (4 * j) (mk_disk s x)" using len k4 j4 by (intro get32_put32_other) simp_all
      then show ?thesis using minvD(11)[OF m x] j by (simp add: ind_ok_def)
    qed
  qed
  moreover have "IBLOCK i mk_layout \<noteq> x" if "i < max_inodes" for i using inode_sector[OF that] b(1) by (simp add: layout_nums(1))
  moreover have "max (mk_len s) (x + 1) = mk_len s" using minvD(2)[OF m] b(2) by simp
  moreover have "c \<noteq> x" if "c < 32" for c using that b(1) by (simp add: layout_nums(1))
  ultimately show ?thesis using m b len k4 unfolding minv_def by auto
qed

text \<open>What a step of \<^verbatim>\<open>mkfs\<close> may do to the roles: they grow.\<close>

definition grows :: "(nat \<Rightarrow> uchar list) \<Rightarrow> nat set \<Rightarrow> nat set \<Rightarrow> mk \<Rightarrow> mk \<Rightarrow> nat set \<Rightarrow> nat set \<Rightarrow> bool" where
  "grows L D I s t D' I' \<longleftrightarrow> minv L D' I' t \<and> D \<subseteq> D' \<and> I \<subseteq> I' \<and> freeinode t = freeinode s"

lemma rsect_Ok: "rsect x s = Ok d t \<longleftrightarrow> x < mk_len s \<and> d = mk_disk s x \<and> t = s"
  by (auto simp: rsect_def k_invert)

text \<open>The first step towards an indirect entry: the inode's indirect block is there.\<close>

lemma mk_indirect_ok:
  assumes m: "minv L D I s" and a: "addr_ok D I (i_addrs din)"
    and r: "(if i_addrs din NDIRECT = 0 then kbind new_block (\<lambda>b. kret (din\<lparr>i_addrs := (i_addrs din)(NDIRECT := b)\<rparr>)) else kret din) s = Ok din1 t"
    and x: "i_addrs din1 NDIRECT < mk_len t"
  shows "\<exists>I'. grows L D I s t D I' \<and> addr_ok D I' (i_addrs din1) \<and> i_addrs din1 NDIRECT \<in> I' \<and> i_inum din1 = i_inum din"
proof (cases "i_addrs din NDIRECT = 0")
  case True
  then have t: "din1 = din\<lparr>i_addrs := (i_addrs din)(NDIRECT := freeblock s)\<rparr>" "t = s\<lparr>freeblock := freeblock s + 1\<rparr>"
    using r by (auto simp: new_block_def k_invert)
  have "freeblock s < FSSIZE" using x t minvD(2)[OF m] by simp
  then have "grows L D I s t D (insert (freeblock s) I)" using minv_new(2)[OF m] t by (auto simp: grows_def)
  moreover have "addr_ok D (insert (freeblock s) I) (i_addrs din1)" using a t by (auto simp: addr_ok_def)
  ultimately show ?thesis using t by (intro exI[of _ "insert (freeblock s) I"]) simp
next
  case False
  then have "din1 = din" "t = s" using r by (auto simp: k_invert)
  then show ?thesis using m a False by (intro exI[of _ I]) (auto simp: grows_def addr_ok_def)
qed

lemma mk_entry_ok:
  assumes m: "minv L D I s" and n: "n \<in> I" and k: "k < NINDIRECT" and ind: "ind = mk_disk s n"
    and r: "(if get32 (4 * k) ind = 0 then kbind new_block (\<lambda>b. let ind' = put32 (4 * k) (of_nat b) ind in kseq (wsect n ind') (kret ind'))
             else kret ind) s = Ok ind1 t"
    and x: "unat (get32 (4 * k) ind1) < mk_len t"
  shows "\<exists>D'. grows L D I s t D' I \<and> unat (get32 (4 * k) ind1) \<in> D'"
proof (cases "get32 (4 * k) ind = 0")
  case True
  let ?b = "freeblock s" and ?u = "s\<lparr>freeblock := freeblock s + 1\<rparr>"
  have t: "ind1 = put32 (4 * k) (of_nat ?b) ind" "t = put_sect n ind1 ?u"
    using r True by (auto simp: new_block_def wsect_def k_invert Let_def)
  have nb: "n < FSSIZE" using minvD(7)[OF m n] by simp
  then have "length ind = BSIZE" using minvD(3)[OF m nb] ind by simp
  then have k4: "4 * k + 4 \<le> length ind" using k by (simp add: NINDIRECT_def BSIZE_def)
  have "?b \<le> 1000" using minvD(5)[OF m] by (simp add: layout_nums(4))
  then have u: "unat (get32 (4 * k) ind1) = ?b" using t k4 by (simp add: unat_small)
  have "mk_len t = FSSIZE" using t minvD(2)[OF m] nb by simp
  then have b: "?b < FSSIZE" using x u by simp
  have "minv L (insert ?b D) I t"
    using minv_ind[OF minv_new(1)[OF m b] n _ k, of ?b] t ind by simp
  then show ?thesis using t u by (intro exI[of _ "insert ?b D"]) (auto simp: grows_def)
next
  case False
  then have "ind1 = ind" "t = s" using r by (auto simp: k_invert)
  then show ?thesis using m minvD(11)[OF m n] False k ind by (intro exI[of _ D]) (auto simp: grows_def ind_ok_def)
qed

lemma mk_bmap_ok:
  assumes m: "minv L D I s" and a: "addr_ok D I (i_addrs din)" and f: "fbn < MAXFILE"
    and r: "mk_bmap din fbn s = Ok (din1, x) t" and x: "x < mk_len t"
  shows "\<exists>D' I'. grows L D I s t D' I' \<and> addr_ok D' I' (i_addrs din1) \<and> x \<in> D' \<and> i_inum din1 = i_inum din"
proof (cases "fbn < NDIRECT")
  case True
  show ?thesis
  proof (cases "i_addrs din fbn = 0")
    case z: True
    then have t: "din1 = din\<lparr>i_addrs := (i_addrs din)(fbn := freeblock s)\<rparr>" "x = freeblock s" "t = s\<lparr>freeblock := freeblock s + 1\<rparr>"
      using r True by (auto simp: mk_bmap_def new_block_def k_invert)
    then have "grows L D I s t (insert x D) I" using minv_new(1)[OF m] x minvD(2)[OF m] by (auto simp: grows_def)
    moreover have "addr_ok (insert x D) I (i_addrs din1)" using a t True by (auto simp: addr_ok_def)
    ultimately show ?thesis using t by (intro exI[of _ "insert x D"] exI[of _ I]) simp
  next
    case False
    then have "din1 = din" "x = i_addrs din fbn" "t = s" using r True by (auto simp: mk_bmap_def k_invert)
    then show ?thesis using m a True False by (intro exI[of _ D] exI[of _ I]) (auto simp: grows_def addr_ok_def)
  qed
next
  case False
  then have k: "fbn - NDIRECT < NINDIRECT" using f by (simp add: MAXFILE_def)
  obtain d1 s1 ind ind1 where
    r1: "(if i_addrs din NDIRECT = 0 then kbind new_block (\<lambda>b. kret (din\<lparr>i_addrs := (i_addrs din)(NDIRECT := b)\<rparr>)) else kret din) s = Ok d1 s1"
    and n: "i_addrs d1 NDIRECT < mk_len s1" "ind = mk_disk s1 (i_addrs d1 NDIRECT)"
    and r3: "(if get32 (4 * (fbn - NDIRECT)) ind = 0 then kbind new_block (\<lambda>b. let ind' = put32 (4 * (fbn - NDIRECT)) (of_nat b) ind in
               kseq (wsect (i_addrs d1 NDIRECT) ind') (kret ind')) else kret ind) s1 = Ok ind1 t"
    and e: "din1 = d1" "x = unat (get32 (4 * (fbn - NDIRECT)) ind1)"
    using r unfolding mk_bmap_def if_not_P[OF False] kbind_eq_Ok kret_apply rsect_Ok outcome.inject prod.inject by blast
  obtain I' where g: "grows L D I s s1 D I'" "addr_ok D I' (i_addrs d1)" "i_addrs d1 NDIRECT \<in> I'" "i_inum d1 = i_inum din"
    using mk_indirect_ok[OF m a r1 n(1)] by blast
  have m1: "minv L D I' s1" using g(1) by (simp add: grows_def)
  obtain D' where "grows L D I' s1 t D' I'" "x \<in> D'"
    using mk_entry_ok[OF m1 g(3) k n(2) r3] x e(2) by blast
  then show ?thesis using g e(1) addr_ok_mono[of D I' "i_addrs d1" D' I']
    by (intro exI[of _ D'] exI[of _ I']) (auto simp: grows_def)
qed

lemma grows_trans: "grows L D I s t D' I' \<Longrightarrow> grows L D' I' t u D'' I'' \<Longrightarrow> grows L D I s u D'' I''"
  by (auto simp: grows_def)

lemma iappend_loop_ok:
  "minv L D I s \<Longrightarrow> addr_ok D I (i_addrs din) \<Longrightarrow> iappend_loop din off bs s = Ok (din1, off1) t \<Longrightarrow>
   \<exists>D' I'. grows L D I s t D' I' \<and> addr_ok D' I' (i_addrs din1) \<and> i_inum din1 = i_inum din"
proof (induction "length bs" arbitrary: D I s din off bs rule: less_induct)
  case less
  show ?case
  proof (cases "bs = []")
    case True
    then show ?thesis using less.prems by (auto simp: iappend_loop.simps[of din off] k_invert grows_def)
  next
    case False
    let ?f = "off div BSIZE" and ?n = "min (length bs) ((off div BSIZE + 1) * BSIZE - off)"
    have le: "?f * BSIZE \<le> off" by simp
    have lt: "off < ?f * BSIZE + BSIZE" using dividend_less_div_times[of BSIZE off] by simp
    have f: "?f < MAXFILE" using less.prems(3) False by (auto simp: iappend_loop.simps[of din off] Let_def k_invert split: if_splits)
    obtain d x u buf where r: "mk_bmap din ?f s = Ok (d, x) u" and rb: "rsect x u = Ok buf u"
      and rest: "iappend_loop d (off + ?n) (drop ?n bs) (put_sect x (patch (off - ?f * BSIZE) (take ?n bs) buf) u) = Ok (din1, off1) t"
      using less.prems(3) False f unfolding iappend_loop.simps[of din off]
      by (auto simp: Let_def kbind_eq_Ok kseq_eq_Ok wsect_def kmod_apply rsect_Ok)
    have x: "x < mk_len u" "buf = mk_disk u x" using rb by (auto simp: rsect_Ok)
    obtain D1 I1 where g: "grows L D I s u D1 I1" "addr_ok D1 I1 (i_addrs d)" "x \<in> D1" "i_inum d = i_inum din"
      using mk_bmap_ok[OF less.prems(1,2) f r x(1)] by blast
    have m1: "minv L D1 I1 u" using g(1) by (simp add: grows_def)
    have len: "length buf = BSIZE" using minvD(3,6)[OF m1] g(3) x(2) by simp
    have "?n \<le> ?f * BSIZE + BSIZE - off" by simp
    then have "off - ?f * BSIZE + ?n \<le> BSIZE" using le lt by linarith
    then have m2: "minv L D1 I1 (put_sect x (patch (off - ?f * BSIZE) (take ?n bs) buf) u)" (is "minv _ _ _ ?v")
      using len by (intro minv_data[OF m1 g(3)]) simp
    have "0 < ?n" using lt False by (simp add: add.commute)
    then have "length (drop ?n bs) < length bs" using False by (simp add: diff_less)
    then obtain D' I' where h: "grows L D1 I1 ?v t D' I'" "addr_ok D' I' (i_addrs din1)" "i_inum din1 = i_inum d"
      using less.hyps[OF _ m2 g(2) rest] by blast
    have "grows L D I s ?v D1 I1" using g(1) m2 by (auto simp: grows_def)
    then have "grows L D I s t D' I'" using h(1) by (rule grows_trans)
    then show ?thesis using h g(4) by auto
  qed
qed

lemma rinode_ok:
  assumes m: "minv L D I s" and i: "inum < max_inodes"
  shows "\<exists>din. rinode inum s = Ok din s \<and> addr_ok D I (i_addrs din) \<and> i_inum din = inum"
proof -
  have "IBLOCK inum mk_layout < FSSIZE" using inode_sector[OF i] by (simp add: layout_nums(4))
  then show ?thesis using minvD(1,2)[OF m] minvD(10)[OF m i]
    by (simp add: rinode_def rsect_def k_simps addr_ok_def)
qed

lemma iappend_ok:
  assumes m: "minv L D I s" and i: "inum < max_inodes" and r: "iappend inum bs s = Ok () t"
  shows "\<exists>D' I'. grows L D I s t D' I'"
proof -
  obtain din where d: "rinode inum s = Ok din s" "addr_ok D I (i_addrs din)" "i_inum din = inum"
    using rinode_ok[OF m i] by blast
  obtain din1 off u where l: "iappend_loop din (unat (i_size din)) bs s = Ok (din1, off) u" and w: "winode (din1\<lparr>i_size := of_nat off\<rparr>) u = Ok () t"
    using r d(1) by (auto simp: iappend_def kbind_eq_Ok)
  obtain D' I' where g: "grows L D I s u D' I'" "addr_ok D' I' (i_addrs din1)" "i_inum din1 = inum"
    using iappend_loop_ok[OF m d(2) l] d(3) by auto
  then have "grows L D' I' u t D' I'"
    using minv_inode[of L D' I' u "din1\<lparr>i_size := of_nat off\<rparr>"] w i by (auto simp: grows_def)
  then show ?thesis using grows_trans[OF g(1)] by blast
qed

section \<open>The whole program\<close>

lemma mk_ialloc_ok:
  assumes m: "minv L D I s" and i: "freeinode s < max_inodes"
  shows "\<exists>t. mk_ialloc ty s = Ok (freeinode s) t \<and> minv L D I t \<and> freeblock t = freeblock s \<and> freeinode t = freeinode s + 1"
proof -
  let ?s = "s\<lparr>freeinode := freeinode s + 1\<rparr>" and ?ip = "no_inode\<lparr>i_inum := freeinode s, i_type := ty, i_nlink := 1, i_size := 0\<rparr>"
  have "minv L D I ?s" using m by (simp add: minv_def)
  moreover have "addr_ok D I (i_addrs ?ip)" by (simp add: addr_ok_def no_inode_def)
  ultimately obtain t where "winode ?ip ?s = Ok () t" "minv L D I t" "freeblock t = freeblock ?s" "freeinode t = freeinode ?s"
    using minv_inode[of L D I ?s ?ip] i by auto
  then show ?thesis by (simp add: mk_ialloc_def k_simps)
qed

lemma iappends_ok:
  "minv L D I s \<Longrightarrow> inum < max_inodes \<Longrightarrow> kfor (iappend inum) xs s = Ok () t \<Longrightarrow> \<exists>D' I'. grows L D I s t D' I'"
proof (induction xs arbitrary: D I s)
  case Nil
  then show ?case by (auto simp: k_invert grows_def)
next
  case (Cons x xs)
  then obtain u where u: "iappend inum x s = Ok () u" "kfor (iappend inum) xs u = Ok () t" by (auto simp: k_invert)
  obtain D1 I1 where g: "grows L D I s u D1 I1" using iappend_ok[OF Cons.prems(1,2) u(1)] by blast
  then have "minv L D1 I1 u" by (simp add: grows_def)
  then obtain D' I' where "grows L D1 I1 u t D' I'" using Cons.IH[OF _ Cons.prems(2) u(2)] by blast
  then show ?case using grows_trans[OF g] by blast
qed

lemma mk_file_ok:
  assumes m: "minv L D I s" and i: "freeinode s < max_inodes" and r: "rootino < max_inodes" and f: "mk_file rootino f s = Ok () t"
  shows "\<exists>D' I'. minv L D' I' t \<and> freeinode t = freeinode s + 1"
proof -
  obtain u where u: "mk_ialloc T_FILE s = Ok (freeinode s) u" "minv L D I u" "freeinode u = freeinode s + 1"
    using mk_ialloc_ok[OF m i] by blast
  obtain nm parts v where v: "iappend rootino nm u = Ok () v" "kfor (iappend (freeinode s)) parts v = Ok () t"
    using f u(1) by (auto simp: mk_file_def Let_def k_invert split: if_splits option.splits)
  obtain D1 I1 where g: "grows L D I u v D1 I1" using iappend_ok[OF u(2) r v(1)] by blast
  then have m1: "minv L D1 I1 v" by (simp add: grows_def)
  obtain D' I' where "grows L D1 I1 v t D' I'" using iappends_ok[OF m1 i v(2)] by blast
  then show ?thesis using g u(3) by (auto simp: grows_def)
qed

lemma mk_files_ok:
  "minv L D I s \<Longrightarrow> freeinode s + length files \<le> max_inodes \<Longrightarrow> rootino < max_inodes \<Longrightarrow> kfor (mk_file rootino) files s = Ok () t \<Longrightarrow>
   \<exists>D' I'. minv L D' I' t"
proof (induction files arbitrary: D I s)
  case Nil
  then show ?case by (auto simp: k_invert)
next
  case (Cons f fs)
  then obtain u where u: "mk_file rootino f s = Ok () u" "kfor (mk_file rootino) fs u = Ok () t" by (auto simp: k_invert)
  obtain D1 I1 where g: "minv L D1 I1 u" "freeinode u = freeinode s + 1"
    using mk_file_ok[OF Cons.prems(1) _ Cons.prems(3) u(1)] Cons.prems(2) by auto
  then show ?case using Cons.IH[OF g(1) _ Cons.prems(3) u(2)] Cons.prems(2) by simp
qed

text \<open>The zeroed image with its superblock.\<close>

lemma kfor_wsect:
  "kfor (\<lambda>i. wsect i d) [0..<n] s = Ok () (s\<lparr>mk_disk := (\<lambda>b. if b < n then d else mk_disk s b), mk_len := max (mk_len s) n\<rparr>)"
proof (induction n)
  case (Suc n)
  have "(\<lambda>b. if b < n then d else mk_disk s b)(n := d) = (\<lambda>b. if b < Suc n then d else mk_disk s b)" by auto
  then show ?case using Suc by (simp add: kfor_append k_simps wsect_def)
qed (simp add: k_simps)

definition mk_zeroed :: "mk \<Rightarrow> mk" where
  "mk_zeroed s = s\<lparr>mk_disk := (\<lambda>b. if b < FSSIZE then replicate BSIZE 0 else [])(1 := sb_encode mk_layout), mk_len := FSSIZE,
     mk_sb := mk_layout, freeblock := nmeta\<rparr>"

lemma length_sb_encode [simp]: "length (sb_encode sb) = BSIZE"
  by (simp add: sb_encode_def BSIZE_def)

lemma sb_decode_encode: "sb_decode (sb_encode mk_layout) = mk_layout"
  by (simp add: sb_decode_def sb_encode_def BSIZE_def get32_put32_other mk_layout_def unat_small layout_nums nlog_def ninodeblocks_def
      NINODES_def LOGSIZE_def)

lemma minv_zeroed: "minv (mk_disk (mk_zeroed s)) {} {} (mk_zeroed s)"
proof -
  have "addr_ok {} {} (daddr (mk_disk (mk_zeroed s) (IBLOCK i mk_layout)) i)" if i: "i < max_inodes" for i
  proof -
    have "mk_disk (mk_zeroed s) (IBLOCK i mk_layout) = replicate BSIZE 0"
      using inode_sector[OF i] by (simp add: mk_zeroed_def layout_nums(4))
    moreover have "daddr (replicate BSIZE 0) i k = 0" if "k \<le> NDIRECT" for k
      using dip_off_le[of i] that by (simp add: daddr_def get32_zeros NDIRECT_def)
    ultimately show ?thesis by (simp add: addr_ok_def)
  qed
  then show ?thesis by (auto simp: minv_def mk_zeroed_def layout_nums)
qed

lemma mkfs_start:
  "kseq (kmod (\<lambda>s. s\<lparr>mk_disk := (\<lambda>_. []), mk_len := 0\<rparr>)) (kseq (kmod (\<lambda>s. s\<lparr>mk_sb := mk_layout, freeblock := nmeta\<rparr>))
    (kseq (kfor (\<lambda>i. wsect i (replicate BSIZE 0)) [0..<FSSIZE]) (kseq (kbind (kget mk_sb) (\<lambda>sb. wsect 1 (sb_encode sb))) k))) s = k (mk_zeroed s)"
  unfolding kseq_apply kmod_apply outcome.case kfor_wsect
  by (cases s) (simp add: k_simps wsect_def mk_zeroed_def layout_nums(4) cong: if_cong)

lemma mkfs_main_inv:
  assumes r: "mkfs_main files s = Ok () t" and i: "freeinode s = 1" and n: "length files + 2 \<le> max_inodes"
  shows "\<exists>D I u. minv (mk_disk (mk_zeroed s)) D I u \<and> mk_balloc (freeblock u) u = Ok () t"
proof -
  let ?L = "mk_disk (mk_zeroed s)"
  have one: "(1::nat) < max_inodes" by (simp add: layout_nums)
  obtain a where a: "mk_ialloc T_DIR (mk_zeroed s) = Ok 1 a" "minv ?L {} {} a" "freeinode a = 2"
    using mk_ialloc_ok[OF minv_zeroed, of s T_DIR] i one by (auto simp: mk_zeroed_def)
  obtain b c d e din where b: "iappend 1 (mk_dirent 1 [46]) a = Ok () b" and c: "iappend 1 (mk_dirent 1 [46, 46]) b = Ok () c"
    and d: "kfor (mk_file 1) files c = Ok () d" and din: "rinode 1 d = Ok din e"
    and t: "kseq (winode (din\<lparr>i_size := of_nat ((unat (i_size din) div BSIZE + 1) * BSIZE)\<rparr>)) (kbind (kget freeblock) mk_balloc) e = Ok () t"
    using r unfolding mkfs_main_def mkfs_start kbind_Ok[where m = "mk_ialloc T_DIR" and s = "mk_zeroed s", OF a(1)]
    by (auto simp: ROOTINO_def kseq_eq_Ok kbind_eq_Ok)
  obtain D1 I1 where g1: "grows ?L {} {} a b D1 I1" using iappend_ok[OF a(2) one b] by blast
  then have "minv ?L D1 I1 b" by (simp add: grows_def)
  then obtain D2 I2 where g2: "grows ?L D1 I1 b c D2 I2" using iappend_ok[OF _ one c] by blast
  have m2: "minv ?L D2 I2 c" "freeinode c = 2" using g1 g2 a(3) by (simp_all add: grows_def)
  obtain D I where m3: "minv ?L D I d" using mk_files_ok[OF m2(1) _ one d] m2(2) n by auto
  obtain e' where e: "rinode 1 d = Ok e' d" "addr_ok D I (i_addrs e')" "i_inum e' = 1" using rinode_ok[OF m3 one] by blast
  then have eq: "e = d" "din = e'" using din by simp_all
  obtain u where u: "winode (din\<lparr>i_size := of_nat ((unat (i_size din) div BSIZE + 1) * BSIZE)\<rparr>) d = Ok () u" "minv ?L D I u"
    using minv_inode[OF m3, of "din\<lparr>i_size := of_nat ((unat (i_size din) div BSIZE + 1) * BSIZE)\<rparr>"] e eq one by auto
  then have "mk_balloc (freeblock u) u = Ok () t" using t by (simp add: eq(1) kseq_eq_Ok kbind_eq_Ok kget_apply)
  then show ?thesis using u(2) by blast
qed

section \<open>The bitmap\<close>

lemma fold_bm_set:
  "k \<le> 8 * length d \<Longrightarrow> j < 8 * length d \<Longrightarrow>
   length (fold (\<lambda>i buf. bm_set buf i) [0..<k] d) = length d \<and> (bm_bit (fold (\<lambda>i buf. bm_set buf i) [0..<k] d) j \<longleftrightarrow> j < k \<or> bm_bit d j)"
  by (induction k) (auto simp: bm_set_bit)

lemma mk_balloc_ok:
  assumes m: "minv L D I s" and r: "mk_balloc (freeblock s) s = Ok () t"
  shows "\<exists>d. t = put_sect 58 d s \<and> length d = BSIZE \<and> (\<forall>b<FSSIZE. bm_bit d b \<longleftrightarrow> b < freeblock s)"
proof -
  let ?d = "fold (\<lambda>i buf. bm_set buf i) [0..<freeblock s] (replicate BSIZE 0)"
  have "freeblock s \<le> 1000" using minvD(5)[OF m] by (simp add: layout_nums)
  then have f: "length ?d = BSIZE \<and> (bm_bit ?d b \<longleftrightarrow> b < freeblock s \<or> bm_bit (replicate BSIZE 0) b)" if "b < FSSIZE" for b
    using fold_bm_set[of "freeblock s" "replicate BSIZE 0" b] that by (simp add: BSIZE_def layout_nums(4))
  have z: "\<not> bm_bit (replicate BSIZE 0) b" if "b < FSSIZE" for b
    using that by (simp add: bm_bit_def BSIZE_def layout_nums(4))
  have "t = put_sect 58 ?d s"
    using r minvD(1)[OF m] by (auto simp: mk_balloc_def wsect_def k_invert layout_nums(3) bm_set_def split: if_splits)
  moreover have "length ?d = BSIZE" using f[of 0] by (simp add: layout_nums(4))
  ultimately show ?thesis using f z by (intro exI[of _ ?d]) simp
qed

text \<open>The blocks an inode of a disk leads to: its addresses, and the entries of its indirect block.\<close>

definition inode_refs :: "(nat \<Rightarrow> uchar list) \<Rightarrow> nat \<Rightarrow> nat set" where
  "inode_refs E i = (let a = daddr (E (IBLOCK i mk_layout)) i in
     {b. b \<noteq> 0 \<and> ((\<exists>k\<le>NDIRECT. b = a k) \<or> (a NDIRECT \<noteq> 0 \<and> (\<exists>k<NINDIRECT. b = unat (get32 (4 * k) (E (a NDIRECT))))))})"

lemma minv_refs:
  assumes m: "minv L D I s" and i: "i < max_inodes"
  shows "inode_refs (mk_disk s) i \<subseteq> {nmeta..<freeblock s}"
proof
  let ?a = "daddr (mk_disk s (IBLOCK i mk_layout)) i"
  fix b assume b: "b \<in> inode_refs (mk_disk s) i"
  have a: "\<And>k. k < NDIRECT \<Longrightarrow> ?a k = 0 \<or> ?a k \<in> D" "?a NDIRECT = 0 \<or> ?a NDIRECT \<in> I"
    using minvD(10)[OF m i] by (simp_all add: addr_ok_def)
  consider (addr) k where "k \<le> NDIRECT" "b = ?a k" "b \<noteq> 0"
    | (ent) k where "?a NDIRECT \<noteq> 0" "k < NINDIRECT" "b = unat (get32 (4 * k) (mk_disk s (?a NDIRECT)))" "b \<noteq> 0"
    using b by (auto simp: inode_refs_def Let_def)
  then have "b \<in> D \<union> I"
  proof cases
    case addr
    then show ?thesis using a(2) a(1)[of k] by (cases "k = NDIRECT") auto
  next
    case ent
    then have "ind_ok D (mk_disk s (?a NDIRECT))" using a(2) minvD(11)[OF m, of "?a NDIRECT"] by simp
    then show ?thesis using ent by (auto simp: ind_ok_def)
  qed
  then show "b \<in> {nmeta..<freeblock s}" using minvD(6,7,9)[OF m, of b] by auto
qed

lemma inode_refs_cong:
  assumes "inode_refs E i \<subseteq> {nmeta..<FSSIZE}" "i < max_inodes"
    and "\<And>b. 32 \<le> b \<Longrightarrow> b < 58 \<Longrightarrow> F b = E b" "\<And>b. nmeta \<le> b \<Longrightarrow> b < FSSIZE \<Longrightarrow> F b = E b"
  shows "inode_refs F i = inode_refs E i"
proof -
  let ?a = "daddr (E (IBLOCK i mk_layout)) i"
  have s: "F (IBLOCK i mk_layout) = E (IBLOCK i mk_layout)" using assms(3) inode_sector[OF assms(2)] by simp
  have "F (?a NDIRECT) = E (?a NDIRECT)" if "?a NDIRECT \<noteq> 0"
  proof -
    have "?a NDIRECT \<in> inode_refs E i" using that by (auto simp: inode_refs_def Let_def)
    then show ?thesis using assms(1,4) by auto
  qed
  then show ?thesis unfolding inode_refs_def Let_def s by auto
qed

section \<open>Booting from the image\<close>

lemma initsleeplock_cache:
  fixes s :: "'x bio_state_scheme"
  assumes "bc_inv s"
  shows "\<exists>t. initsleeplock (InodeSleep i) nm s = Ok () t \<and> bc_inv t \<and> babs t = babs s \<and> disksize t = disksize s"
proof -
  obtain t where t: "initlock (InodeLock i) ''sleep lock'' s = Ok () t" "bc_inv t" "babs t = babs s" "disksize t = disksize s"
    using initlock_cache[OF assms] by blast
  let ?t = "t\<lparr>slocks := (slocks t)(InodeSleep i := (slocks t (InodeSleep i))\<lparr>sl_name := nm, sl_locked := 0, sl_pid := 0\<rparr>)\<rparr>"
  have "lookup ?t = lookup t" by (simp add: lookup_def fun_eq_iff)
  then have "babs ?t = babs t"
    by (simp add: babs_def view_def dirty_def held_def fun_eq_iff cong: option.case_cong)
  moreover have "bc_inv ?t"
    using t(2) by (auto simp: bc_inv_def quiet_def irq_ok_def lock_free_def myproc_def one_each_def buf_ok_def)
  moreover have "initsleeplock (InodeSleep i) nm s = Ok () ?t"
    using t(1) by (simp add: initsleeplock_def set_slock_def k_simps)
  ultimately show ?thesis using t(3,4) by auto
qed

lemma ilocks_cache:
  fixes s :: "'x bio_state_scheme"
  shows "bc_inv s \<Longrightarrow> \<exists>t. kfor (\<lambda>i. initsleeplock (InodeSleep i) nm) xs s = Ok () t \<and> bc_inv t \<and> babs t = babs s \<and> disksize t = disksize s"
proof (induction xs arbitrary: s)
  case (Cons i xs)
  obtain u where u: "initsleeplock (InodeSleep i) nm s = Ok () u" "bc_inv u" "babs u = babs s" "disksize u = disksize s"
    using initsleeplock_cache[OF Cons.prems] by blast
  then show ?case using Cons.IH[OF u(2)] by (simp add: k_simps)
qed (simp add: k_simps)

lemma iinit_spec:
  fixes s :: "'x fs_state_scheme"
  assumes inv: "bc_inv s" "dirty s = {}" "held s = Map.empty" and sz: "1 < disksize s"
  shows "\<exists>t. iinit 1 s = Ok () t \<and> bc_inv t \<and> babs t = babs s \<and> disksize t = disksize s \<and> fs_sb t = sb_decode (dblock (memdisk s) 1)"
proof -
  obtain t where t: "initlock IcacheLock ''icache'' s = Ok () t" "bc_inv t" "babs t = babs s" "disksize t = disksize s"
    using initlock_cache[OF inv(1)] by blast
  obtain u where u: "kfor (\<lambda>i. initsleeplock (InodeSleep i) ''inode'') [0..<NINODE] t = Ok () u" "bc_inv u" "babs u = babs s" "disksize u = disksize s"
    using ilocks_cache[OF t(2)] t(3,4) by force
  have bu: "dirty u = {}" "held u = Map.empty" "view u = dblock (memdisk s)"
    using u(3) inv clean_view[OF inv(1)] by (auto simp: babs_def)
  have "room (babs u) 1" by (simp add: room_def bu NBUF_def)
  then obtain v where v: "readsb 1 u = Ok (sb_decode (dblock (memdisk s) 1)) v" "bc_inv v" "babs v = babs u" "bio_frame u v"
    using bc.read_block[OF u(2), of 1 sb_decode] sz u(4) bu by (auto simp: readsb_def get_buf_def)
  let ?v = "v\<lparr>fs_sb := sb_decode (dblock (memdisk s) 1)\<rparr>"
  have "iinit 1 s = Ok () ?v" using t(1) u(1) v(1) by (simp add: iinit_def k_simps)
  moreover have "bc_inv ?v" "babs ?v = babs v" using cache_cong[of ?v v] v(2) by simp_all
  moreover have "disksize ?v = disksize s" using v(4) u(4) by (simp add: bio_frame_def)
  ultimately show ?thesis using v(3) u(3) by auto
qed

text \<open>
  Claim C4. The image that \<^verbatim>\<open>mkfs\<close> writes is one the kernel boots from. On a machine with that disk \<open>binit\<close>,
  \<open>iinit\<close> and \<open>initlog\<close> succeed, the log is empty and well formed, the superblock is the layout \<^verbatim>\<open>mkfs\<close> chose, the
  free blocks of the bitmap are exactly those from the program's \<open>freeblock\<close> on, the bitmap is one \<open>balloc\<close> can
  use, and every block an inode leads to, directly or through its indirect block, lies in the data area and is marked
  as used. The program must not be given more files than the inode blocks have room for, which it does not check.
\<close>

theorem mkfs_boots:
  fixes r :: "'x fs_state_scheme"
  assumes run: "mkfs_main files m = Ok () n" and ino: "freeinode m = 1" and room: "length files + 2 \<le> max_inodes"
    and r: "bio_boot r" "disksize r = FSSIZE" and disk: "\<forall>b<FSSIZE. dblock (memdisk r) b = mk_disk n b"
  shows "\<exists>u v w. binit r = Ok () u \<and> iinit 1 u = Ok () v \<and> initlog 1 v = Ok () w \<and> log_ok w \<and> lh_n w = 0 \<and> fs_sb w = mk_layout \<and>
    bitmap_ok w \<and> free_blocks w = {freeblock n..<FSSIZE} \<and> (\<forall>i<max_inodes. inode_refs (view w) i \<subseteq> {nmeta..<freeblock n})"
proof -
  obtain D I k where k: "minv (mk_disk (mk_zeroed m)) D I k" and b: "mk_balloc (freeblock k) k = Ok () n"
    using mkfs_main_inv[OF run ino room] by blast
  obtain d where d: "n = put_sect 58 d k" "\<forall>b<FSSIZE. bm_bit d b \<longleftrightarrow> b < freeblock k" using mk_balloc_ok[OF k b] by blast
  obtain u where u: "binit r = Ok () u" "bc_inv u" "dirty u = {}" "held u = Map.empty" "disksize u = FSSIZE" "memdisk u = memdisk r"
    using binit_empty[OF r(1)] r(2) by auto
  let ?E = "dblock (memdisk r)"
  have E1: "?E 1 = sb_encode mk_layout" and E2: "?E 2 = replicate BSIZE 0"
    using disk d(1) k by (auto simp: layout_nums(4) minv_def mk_zeroed_def)
  obtain v where v: "iinit 1 u = Ok () v" "bc_inv v" "babs v = babs u" "disksize v = FSSIZE" "fs_sb v = mk_layout"
    using iinit_spec[OF u(2-4)] u(5,6) by (auto simp: E1[simplified] sb_decode_encode layout_nums(4))
  have bv: "dirty v = {}" "held v = Map.empty" "dblock (memdisk v) = ?E" using v(3) u by (simp_all add: babs_def)
  have lay: "sb_logstart mk_layout = 2" "sb_nlog mk_layout = 30" by (simp_all add: mk_layout_def nlog_def LOGSIZE_def)
  have z: "hd_n (?E 2) = 0" by (simp add: E2 hd_n_def get32_zeros BSIZE_def)
  then have "head_ok 2 30 FSSIZE (?E 2)" by (simp add: head_ok_def)
  then obtain w where w: "initlog 1 v = Ok () w" "log_ok w" "lh_n w = 0" "lg_start w = 2" "lg_size w = 30" "disksize w = FSSIZE"
      "dblock (memdisk w) = apply_writes (recover_writes 2 ?E) ?E" "log_state.more w = log_state.more v"
    using initlog_spec[OF v(2) bv(1,2)] unfolding bv(3) E1 sb_decode_encode lay v(4) by (auto simp: NBUF_def layout_nums(4))
  have "dirty w = {}" "held w = Map.empty" "bc_inv w" using log_okD[OF w(2)] w(3) by simp_all
  then have view: "view w x = mk_disk n x" if "x < FSSIZE" "x \<noteq> 2" for x
    using clean_view[of w x] w(7) z disk that by (simp add: recover_writes_def)
  have sb: "fs_sb w = mk_layout" using more_fs(2)[OF w(8)] v(5) by simp
  have bb: "BBLOCK x mk_layout = 58" if "x < FSSIZE" for x using that by (simp add: BBLOCK_def BPB_def BSIZE_def layout_nums(3,4))
  have n: "freeblock n = freeblock k" "mk_disk n 58 = d" using d(1) by simp_all
  have size: "sb_size mk_layout = FSSIZE" by (simp add: mk_layout_def)
  have free: "free_blocks w = {freeblock n..<FSSIZE}"
    using d(2) view[of 58] n by (auto simp: free_blocks_def sb size bb BPB_def BSIZE_def layout_nums(4))
  have "data_block w x" if "58 \<le> x" "x < FSSIZE" for x
    using that w(4-6) by (simp add: data_block_def home_def layout_nums(4))
  then have "bitmap_ok w"
    using minvD(4)[OF k] bb n(1) by (auto simp: bitmap_ok_def sb size free layout_nums(1,4))
  moreover have "inode_refs (view w) i \<subseteq> {nmeta..<freeblock n}" if i: "i < max_inodes" for i
  proof -
    have s: "inode_refs (mk_disk k) i \<subseteq> {nmeta..<freeblock n}" using minv_refs[OF k i] n by simp
    have "inode_refs (view w) i = inode_refs (mk_disk k) i"
      using s minvD(5)[OF k] n(1) view d(1) i by (intro inode_refs_cong) (auto simp: layout_nums(1,4))
    then show ?thesis using s by simp
  qed
  ultimately show ?thesis using u(1) v(1) w(1-3) sb free by blast
qed

section \<open>An image with no files\<close>

lemma winode_size:
  assumes m: "minv L D I s" and i: "i_inum ip < max_inodes" and r: "winode ip s = Ok () t"
  shows "\<exists>din. rinode (i_inum ip) t = Ok din t \<and> i_size din = i_size ip"
proof -
  let ?n = "IBLOCK (i_inum ip) mk_layout"
  have lt: "?n < FSSIZE" using inode_sector[OF i] by (simp add: layout_nums(4))
  have t: "t = put_sect ?n (dip_put ip (mk_disk s ?n)) s"
    using r minvD(1,2)[OF m] lt by (simp add: winode_def rsect_def wsect_def k_simps Let_def)
  have "length (mk_disk s ?n) = BSIZE" using minvD(3)[OF m lt] .
  then have "get32 (dip_off (i_inum ip) + 8) (dip_put ip (mk_disk s ?n)) = i_size ip"
    using dip_off_le[of "i_inum ip"] by (simp add: dip_put_def Let_def NDIRECT_def get32_put_addrs)
  then show ?thesis using t minvD(1)[OF m] by (simp add: rinode_def rsect_def k_simps dip_get_def Let_def)
qed

text \<open>An append that stays in the first block of a file succeeds.\<close>

lemma iappend_first:
  assumes m: "minv L D I s" and i: "inum < max_inodes" and d: "rinode inum s = Ok din s" and bs: "bs \<noteq> []"
    and fits: "unat (i_size din) + length bs \<le> BSIZE" and b: "freeblock s < FSSIZE"
  shows "\<exists>D' I' t din'. iappend inum bs s = Ok () t \<and> minv L D' I' t \<and> freeblock t \<le> freeblock s + 1 \<and>
    rinode inum t = Ok din' t \<and> unat (i_size din') = unat (i_size din) + length bs"
proof -
  let ?o = "unat (i_size din)"
  have a: "addr_ok D I (i_addrs din)" "i_inum din = inum" using rinode_ok[OF m i] d by auto
  have "0 < length bs" using bs by simp
  then have "?o < BSIZE" using fits by linarith
  then have h0: "?o div BSIZE = 0" "min (length bs) ((0 + 1) * BSIZE - ?o) = length bs" using fits by simp_all
  obtain d1 x u where u: "mk_bmap din 0 s = Ok (d1, x) u" "x < FSSIZE" "mk_len u = FSSIZE" "freeblock u \<le> freeblock s + 1"
  proof (cases "i_addrs din 0 = 0")
    case True
    then have "mk_bmap din 0 s = Ok (din\<lparr>i_addrs := (i_addrs din)(0 := freeblock s)\<rparr>, freeblock s) (s\<lparr>freeblock := freeblock s + 1\<rparr>)"
      by (simp add: mk_bmap_def new_block_def k_simps NDIRECT_def)
    then show thesis using that b minvD(2)[OF m] by simp
  next
    case False
    have "(0::nat) < NDIRECT" by (simp add: NDIRECT_def)
    then have "i_addrs din 0 \<in> D" using a(1) False by (auto simp: addr_ok_def dest!: spec[of _ 0])
    then have x: "i_addrs din 0 < FSSIZE" using minvD(6)[OF m] by blast
    have "mk_bmap din 0 s = Ok (din, i_addrs din 0) s" using False by (simp add: mk_bmap_def k_simps NDIRECT_def)
    then show thesis using that x minvD(2)[OF m] by simp
  qed
  let ?v = "put_sect x (patch ?o bs (mk_disk u x)) u"
  have run: "iappend_loop din ?o bs s = Ok (d1, ?o + length bs) ?v"
    unfolding iappend_loop.simps[of din ?o bs] Let_def h0
    using bs u by (simp add: k_simps rsect_def wsect_def MAXFILE_def NDIRECT_def iappend_loop.simps[of _ _ "[]"])
  obtain D' I' where g: "grows L D I s ?v D' I'" "addr_ok D' I' (i_addrs d1)" "i_inum d1 = inum"
    using iappend_loop_ok[OF m a(1) run] a(2) by auto
  have mv: "minv L D' I' ?v" using g(1) by (simp add: grows_def)
  let ?d = "d1\<lparr>i_size := of_nat (?o + length bs)\<rparr>"
  obtain t where t: "winode ?d ?v = Ok () t" "minv L D' I' t" "freeblock t = freeblock ?v"
    using minv_inode[OF mv, of ?d] g(2,3) i by auto
  obtain din' where e: "rinode inum t = Ok din' t" "i_size din' = of_nat (?o + length bs)" using winode_size[OF mv _ t(1)] g(3) i by auto
  have "unat (i_size din') = ?o + length bs" unfolding e(2) using fits by (intro unat_small) (simp add: BSIZE_def)
  then show ?thesis using d run t u(4) e(1) by (intro exI[of _ D'] exI[of _ I'] exI[of _ t] exI[of _ din']) (simp add: iappend_def k_simps)
qed

lemma mkfs_empty:
  assumes "freeinode s = 1"
  shows "\<exists>t. mkfs_main [] s = Ok () t"
proof -
  let ?L = "mk_disk (mk_zeroed s)"
  have one: "(1::nat) < max_inodes" by (simp add: layout_nums)
  have fz: "freeinode (mk_zeroed s) = 1" "freeblock (mk_zeroed s) = 59" using assms by (simp_all add: mk_zeroed_def layout_nums)
  let ?ip = "no_inode\<lparr>i_inum := 1, i_type := T_DIR, i_nlink := 1, i_size := 0\<rparr>" and ?z = "(mk_zeroed s)\<lparr>freeinode := 2\<rparr>"
  have z: "minv ?L {} {} ?z" using minv_zeroed[of s] by (simp add: minv_def)
  obtain a where a: "winode ?ip ?z = Ok () a" "minv ?L {} {} a" "freeblock a = 59"
    using minv_inode[OF z, of ?ip] one fz by (auto simp: addr_ok_def no_inode_def)
  have al: "mk_ialloc T_DIR (mk_zeroed s) = Ok 1 a" using a(1) fz by (simp add: mk_ialloc_def k_simps numeral_2_eq_2)
  obtain da where da: "rinode 1 a = Ok da a" "i_size da = 0" using winode_size[OF z _ a(1)] one by auto
  have len: "length (mk_dirent 1 [46]) = 16" "length (mk_dirent 1 [46, 46]) = 16" by (simp_all add: mk_dirent_def DIRSIZ_def)
  then have ne: "mk_dirent 1 [46] \<noteq> []" "mk_dirent 1 [46, 46] \<noteq> []" by auto
  obtain D1 I1 b db where b: "iappend 1 (mk_dirent 1 [46]) a = Ok () b" "minv ?L D1 I1 b" "freeblock b \<le> 60" "rinode 1 b = Ok db b" "unat (i_size db) = 16"
    using iappend_first[OF a(2) one da(1) ne(1)] da(2) a(3) len by (auto simp: BSIZE_def layout_nums(4))
  obtain D2 I2 c where c: "iappend 1 (mk_dirent 1 [46, 46]) b = Ok () c" "minv ?L D2 I2 c" "freeblock c \<le> 61"
    using iappend_first[OF b(2) one b(4) ne(2)] b(3,5) len by (auto simp: BSIZE_def layout_nums(4))
  obtain din where d: "rinode 1 c = Ok din c" "addr_ok D2 I2 (i_addrs din)" "i_inum din = 1" using rinode_ok[OF c(2) one] by blast
  obtain e where e: "winode (din\<lparr>i_size := of_nat ((unat (i_size din) div BSIZE + 1) * BSIZE)\<rparr>) c = Ok () e" "freeblock e \<le> 61"
    using minv_inode[OF c(2), of "din\<lparr>i_size := of_nat ((unat (i_size din) div BSIZE + 1) * BSIZE)\<rparr>"] d c(3) one by auto
  obtain t where t: "mk_balloc (freeblock e) e = Ok () t" using e(2) by (simp add: mk_balloc_def wsect_def k_simps BSIZE_def)
  have "mkfs_main [] s = Ok () t"
    unfolding mkfs_main_def mkfs_start using al b(1) c(1) d(1) e(1) t by (simp add: kbind_apply kseq_apply kget_apply kret_apply ROOTINO_def)
  then show ?thesis by blast
qed

lemma mkfs_sectors:
  assumes "mkfs_main files s = Ok () t" "freeinode s = 1" "length files + 2 \<le> max_inodes" "b < FSSIZE"
  shows "length (mk_disk t b) = BSIZE"
proof -
  obtain D I u where u: "minv (mk_disk (mk_zeroed s)) D I u" "mk_balloc (freeblock u) u = Ok () t" using mkfs_main_inv[OF assms(1-3)] by blast
  then show ?thesis using mk_balloc_ok[OF u] minvD(3)[OF u(1) assms(4)] by auto
qed

lemma chunk_concat: "\<forall>x\<in>set xs. length x = n \<Longrightarrow> k < length xs \<Longrightarrow> chunk (k * n) n (concat xs) = xs ! k"
proof (induction xs arbitrary: k)
  case (Cons x xs)
  then show ?case by (cases k) (auto simp: chunk_def)
qed simp

definition mk_start :: mk where
  "mk_start = \<lparr>mk_disk = (\<lambda>_. []), mk_len = 0, mk_sb = mk_layout, freeinode = 1, freeblock = 0\<rparr>"

text \<open>A machine with the disk.\<close>

definition boot_from :: "(nat \<Rightarrow> uchar list) \<Rightarrow> fs_state" where
  "boot_from E = boot_fs\<lparr>memdisk := concat (map E [0..<FSSIZE])\<rparr>"

lemma boot_from:
  assumes "\<forall>b<FSSIZE. length (E b) = BSIZE"
  shows "bio_boot (boot_from E)" "disksize (boot_from E) = FSSIZE" "b < FSSIZE \<Longrightarrow> dblock (memdisk (boot_from E)) b = E b"
proof -
  have "map length (map E [0..<FSSIZE]) = replicate FSSIZE BSIZE" using assms by (intro nth_equalityI) simp_all
  then have l: "length (concat (map E [0..<FSSIZE])) = FSSIZE * BSIZE" unfolding length_concat by (simp add: sum_list_replicate)
  show sz: "disksize (boot_from E) = FSSIZE"
    using boot_log_disk(2) by (simp add: boot_from_def boot_fs_def log_state.defs layout_nums(4))
  show "bio_boot (boot_from E)"
    using boot_log_disk(2,3) l sz boot_fs_quiet
    by (auto simp: bio_boot_def boot_from_def boot_fs_def log_state.defs layout_nums(4) quiet_def irq_ok_def lock_free_def myproc_def)
  show "b < FSSIZE \<Longrightarrow> dblock (memdisk (boot_from E)) b = E b"
    using chunk_concat[of "map E [0..<FSSIZE]" BSIZE b] assms by (simp add: boot_from_def dblock_def)
qed

theorem mkfs_boots_witness:
  "\<exists>n w. mkfs_main [] mk_start = Ok () n \<and> log_ok (w :: fs_state) \<and> fs_sb w = mk_layout \<and> bitmap_ok w \<and> free_blocks w = {freeblock n..<FSSIZE}"
proof -
  have i: "freeinode mk_start = 1" "length ([] :: (uchar list \<times> uchar list list option) list) + 2 \<le> max_inodes"
    by (simp_all add: mk_start_def layout_nums)
  obtain n where n: "mkfs_main [] mk_start = Ok () n" using mkfs_empty[OF i(1)] by blast
  have s: "\<forall>b<FSSIZE. length (mk_disk n b) = BSIZE" using mkfs_sectors[OF n i] by blast
  have d: "\<forall>b<FSSIZE. dblock (memdisk (boot_from (mk_disk n))) b = mk_disk n b" using boot_from(3)[OF s] by blast
  show ?thesis using mkfs_boots[OF n i boot_from(1,2)[OF s] d] n by blast
qed

end
