(* ===== verification/Paths.thy ===== *)
theory Paths
  imports Dir
begin

text \<open>
  Path names as lists of elements. The reference cuts a path at its slashes and drops the empty pieces;
  \<open>namex\<close>, which consumes the path with \<open>skipelem\<close>, walks exactly these elements.
\<close>

section \<open>Elements of a path\<close>

fun split_at :: "'a \<Rightarrow> 'a list \<Rightarrow> 'a list list" where
  "split_at c [] = [[]]"
| "split_at c (x # xs) = (if x = c then [] # split_at c xs else (case split_at c xs of [] \<Rightarrow> [[x]] | p # ps \<Rightarrow> (x # p) # ps))"

definition path_elems :: "uchar list \<Rightarrow> uchar list list" where
  "path_elems pth = map (take DIRSIZ) (filter (\<lambda>p. p \<noteq> []) (split_at 47 pth))"

lemma split_at_takeWhile:
  "split_at c xs = takeWhile (\<lambda>x. x \<noteq> c) xs #
     (case dropWhile (\<lambda>x. x \<noteq> c) xs of [] \<Rightarrow> [] | _ # ys \<Rightarrow> split_at c ys)"
  by (induction xs) auto

lemma path_elems_slash: "path_elems (dropWhile (\<lambda>c. c = 47) pth) = path_elems pth"
  by (induction pth) (auto simp: path_elems_def)

lemma path_elems_cons:
  assumes "a \<noteq> 47"
  shows "path_elems (a # s) = take DIRSIZ (takeWhile (\<lambda>c. c \<noteq> 47) (a # s)) # path_elems (dropWhile (\<lambda>c. c \<noteq> 47) (a # s))"
proof -
  define D where "D = dropWhile (\<lambda>c. c \<noteq> 47) (a # s)"
  have "filter (\<lambda>p. p \<noteq> []) (case D of [] \<Rightarrow> [] | _ # ys \<Rightarrow> split_at 47 ys) = filter (\<lambda>p. p \<noteq> []) (split_at 47 D)"
  proof (cases D)
    case (Cons y ys)
    then have "y = 47" unfolding D_def by (metis (mono_tags, lifting) dropWhile_eq_Cons_conv)
    then show ?thesis using Cons by simp
  qed simp
  moreover have "split_at 47 (a # s) = takeWhile (\<lambda>c. c \<noteq> 47) (a # s) # (case D of [] \<Rightarrow> [] | _ # ys \<Rightarrow> split_at 47 ys)"
    unfolding D_def by (rule split_at_takeWhile)
  moreover have "takeWhile (\<lambda>c. c \<noteq> 47) (a # s) \<noteq> []" using assms by simp
  ultimately show ?thesis unfolding path_elems_def D_def[symmetric] by (simp only: filter.simps list.map if_True not_False_eq_True)
qed

lemma path_elems_skipelem:
  "path_elems pth = (case skipelem pth of None \<Rightarrow> [] | Some (rest, name) \<Rightarrow> name # path_elems rest)"
proof (cases "dropWhile (\<lambda>c. c = 47) pth")
  case Nil
  then have "path_elems pth = path_elems []" by (metis path_elems_slash)
  then show ?thesis using Nil by (simp add: skipelem_def path_elems_def)
next
  case (Cons a s)
  then have "a \<noteq> 47" by (metis (mono_tags, lifting) dropWhile_eq_Cons_conv)
  then show ?thesis
    using Cons path_elems_cons[of a s] path_elems_slash[of pth] path_elems_slash[of "dropWhile (\<lambda>c. c \<noteq> 47) (a # s)"]
    by (simp add: skipelem_def)
qed

text \<open>\<open>skipelem\<close> leaves no slashes before the rest, so an empty rest is the end of the path.\<close>

lemma skipelem_rest: "skipelem pth = Some (rest, name) \<Longrightarrow> rest = [] \<longleftrightarrow> path_elems rest = []"
proof -
  assume h: "skipelem pth = Some (rest, name)"
  show ?thesis
  proof (cases rest)
    case (Cons a r)
    then have "a \<noteq> 47" using h by (auto simp: skipelem_def Let_def dropWhile_eq_Cons_conv split: if_splits)
    then show ?thesis using Cons path_elems_cons by simp
  qed (simp add: path_elems_def)
qed

section \<open>Walking a path\<close>

text \<open>
  The reference walk: from a directory, look up each element in turn; with \<open>parent\<close> set, stop before the
  last one.
\<close>

primrec walk :: "bool \<Rightarrow> uchar list list \<Rightarrow> nat \<Rightarrow> ('x cons_state_scheme, (nat \<times> uchar list) option) km" where
  "walk parent [] ip = (if parent then kseq (iput ip) (kret None) else kret (Some (ip, [])))"
| "walk parent (name # names) ip =
     kseq (ilock (Some ip))
     (kbind (get_inode i_type ip) (\<lambda>t.
      if t \<noteq> T_DIR then kseq (iunlockput (Some ip)) (kret None)
      else if parent \<and> names = [] then kseq (iunlock (Some ip)) (kret (Some (ip, name)))
      else kbind (dirlookup ip name) (\<lambda>hit.
        kseq (iunlockput (Some ip)) (case hit of None \<Rightarrow> kret None | Some (nx, _) \<Rightarrow> walk parent names nx))))"

lemma namex_loop_walk:
  fixes ip :: nat
  shows "(namex_loop parent pth ip :: ('x cons_state_scheme, _) km) = walk parent (path_elems pth) ip"
proof (induction parent pth ip rule: namex_loop.induct)
  case (1 parent pth ip)
  show ?case
  proof (cases "skipelem pth")
    case None
    then show ?thesis using path_elems_skipelem[of pth] by (subst namex_loop.simps) simp
  next
    case (Some rn)
    obtain rest name where rn: "rn = (rest, name)" by (cases rn)
    have p: "path_elems pth = name # path_elems rest" using path_elems_skipelem[of pth] Some rn by simp
    have ih: "(namex_loop parent rest nx :: ('x cons_state_scheme, _) km) = walk parent (path_elems rest) nx" if "\<not> (parent \<and> rest = [])" for nx
      using 1[OF Some rn[symmetric], of T_DIR] that by simp
    have d: "(\<lambda>hit. case hit of None \<Rightarrow> kseq m (kret None) | Some (nx, _) \<Rightarrow> kseq m (f nx)) =
        (\<lambda>hit. kseq m (case hit of None \<Rightarrow> kret None | Some (nx, _) \<Rightarrow> f nx))"
      for m :: "('x cons_state_scheme, unit) km" and f :: "nat \<Rightarrow> ('x cons_state_scheme, (nat \<times> uchar list) option) km"
      by (auto simp: fun_eq_iff split: option.split)
    have e: "rest = [] \<longleftrightarrow> path_elems rest = []" using skipelem_rest Some rn by blast
    show ?thesis
    proof (cases "parent \<and> rest = []")
      case True
      then show ?thesis using Some rn p e by (subst namex_loop.simps) simp
    next
      case False
      have F: "(namex_loop parent rest :: nat \<Rightarrow> ('x cons_state_scheme, _) km) = walk parent (path_elems rest)"
        using ih[OF False] by (intro ext) simp
      have "\<not> (parent \<and> path_elems rest = [])" using False e by simp
      then show ?thesis using False Some rn p by (subst namex_loop.simps) (simp only: option.case prod.case walk.simps if_False d F)
    qed
  qed
qed

text \<open>
  Claim C7. Path resolution is a walk over the elements between the slashes: \<open>namex\<close> starts at the root
  for a path that begins with a slash and at the current directory otherwise, and then looks up the
  elements one by one. Leading, repeated and trailing slashes make no difference, elements are cut to
  \<open>DIRSIZ\<close> bytes, and \<open>nameiparent\<close> of a path without elements fails.
\<close>

theorem namex_walks:
  "namex pth parent =
     kbind (if chr pth = 47 then iget ROOTDEV ROOTINO
            else with_cur (\<lambda>me. kbind (get_proc p_cwd me) (\<lambda>cwd. case cwd of None \<Rightarrow> kfault ''idup'' | Some d \<Rightarrow> idup d)))
       (walk parent (path_elems pth))"
  by (simp add: namex_def namex_loop_walk)

end
