(* ===== verification/Umalloc.thy ===== *)
theory Umalloc
  imports Prelude
begin

text \<open>
  The memory allocator of user programs, \<^verbatim>\<open>umalloc.c\<close>. Memory is seen through the headers the allocator reads
  and writes, one at every address; a header takes 16 bytes, and pointer arithmetic on headers is in units of that.
  The break of the process moves as \<open>sys_sbrk\<close> moves it, and \<open>brk_ok\<close> says for which of the coming requests the
  kernel has memory. A loop that does not end is \<open>None\<close>.
\<close>

section \<open>Headers\<close>

record header =
  h_ptr :: addr_t
  h_size :: uint

record heap =
  hdr :: "addr_t \<Rightarrow> header"
  base :: addr_t              \<comment> \<open>the address of the static header\<close>
  freep :: addr_t
  brk :: addr_t
  brk_ok :: "bool list"

abbreviation ptr :: "heap \<Rightarrow> addr_t \<Rightarrow> addr_t" where
  "ptr h p \<equiv> h_ptr (hdr h p)"

abbreviation units :: "heap \<Rightarrow> addr_t \<Rightarrow> uint" where
  "units h p \<equiv> h_size (hdr h p)"

definition set_hdr :: "addr_t \<Rightarrow> (header \<Rightarrow> header) \<Rightarrow> heap \<Rightarrow> heap" where
  "set_hdr p f h = h\<lparr>hdr := (hdr h)(p := f (hdr h p))\<rparr>"

definition hplus :: "addr_t \<Rightarrow> uint \<Rightarrow> addr_t" where
  "hplus p n = p + 16 * ucast n"

definition usbrk :: "addr_t \<Rightarrow> heap \<Rightarrow> addr_t \<times> heap" where
  "usbrk n h = (case brk_ok h of
       True # oks \<Rightarrow> (brk h, h\<lparr>brk := brk h + n, brk_ok := oks\<rparr>)
     | False # oks \<Rightarrow> (- 1, h\<lparr>brk_ok := oks\<rparr>)
     | [] \<Rightarrow> (- 1, h))"

section \<open>Operations\<close>

text \<open>The loop of \<open>free\<close>: the free block after which \<open>bp\<close> belongs.\<close>

partial_function (option) free_find :: "heap \<Rightarrow> addr_t \<Rightarrow> addr_t \<Rightarrow> addr_t option" where
  "free_find h bp p =
     (if p < bp \<and> bp < ptr h p then Some p
      else if ptr h p \<le> p \<and> (p < bp \<or> bp < ptr h p) then Some p
      else free_find h bp (ptr h p))"

definition free :: "addr_t \<Rightarrow> heap \<Rightarrow> heap option" where
  "free ap h =
     (let bp = ap - 16 in
      case free_find h bp (freep h) of None \<Rightarrow> None
      | Some p \<Rightarrow>
          let nx = ptr h p;
              h1 = (if hplus bp (units h bp) = nx
                    then set_hdr bp (\<lambda>b. \<lparr>h_ptr = ptr h nx, h_size = h_size b + units h nx\<rparr>) h
                    else set_hdr bp (\<lambda>b. b\<lparr>h_ptr := nx\<rparr>) h);
              h2 = (if hplus p (units h1 p) = bp
                    then set_hdr p (\<lambda>b. \<lparr>h_ptr = ptr h1 bp, h_size = h_size b + units h1 bp\<rparr>) h1
                    else set_hdr p (\<lambda>b. b\<lparr>h_ptr := bp\<rparr>) h1)
          in Some (h2\<lparr>freep := p\<rparr>))"

definition morecore :: "uint \<Rightarrow> heap \<Rightarrow> (addr_t \<times> heap) option" where
  "morecore nu0 h =
     (let nu = (if nu0 < 4096 then 4096 else nu0);
          (p, h1) = usbrk (ucast nu * 16) h in
      if p = - 1 then Some (0, h1)
      else map_option (\<lambda>h2. (freep h2, h2)) (free (p + 16) (set_hdr p (\<lambda>b. b\<lparr>h_size := nu\<rparr>) h1)))"

text \<open>The block that is given away: all of \<open>p\<close>, or the end of it.\<close>

definition take_block :: "uint \<Rightarrow> addr_t \<Rightarrow> addr_t \<Rightarrow> heap \<Rightarrow> addr_t \<times> heap" where
  "take_block nunits prevp p h =
     (let (q, h1) =
        (if units h p = nunits then (p, set_hdr prevp (\<lambda>b. b\<lparr>h_ptr := ptr h p\<rparr>) h)
         else let h0 = set_hdr p (\<lambda>b. b\<lparr>h_size := h_size b - nunits\<rparr>) h;
                  q = hplus p (units h0 p)
              in (q, set_hdr q (\<lambda>b. b\<lparr>h_size := nunits\<rparr>) h0))
      in (q + 16, h1\<lparr>freep := prevp\<rparr>))"

partial_function (option) malloc_loop :: "uint \<Rightarrow> addr_t \<Rightarrow> addr_t \<Rightarrow> heap \<Rightarrow> (addr_t \<times> heap) option" where
  "malloc_loop nunits prevp p h =
     (if nunits \<le> units h p then Some (take_block nunits prevp p h)
      else if p = freep h then
        Option.bind (morecore nunits h) (\<lambda>(q, h1). if q = 0 then Some (0, h1) else malloc_loop nunits q (ptr h1 q) h1)
      else malloc_loop nunits p (ptr h p) h)"

definition malloc_units :: "uint \<Rightarrow> uint" where
  "malloc_units nbytes = ucast ((ucast nbytes + 16 - 1) div 16 + 1 :: 64 word)"

definition malloc :: "uint \<Rightarrow> heap \<Rightarrow> (addr_t \<times> heap) option" where
  "malloc nbytes h =
     (let h1 = (if freep h = 0 then (set_hdr (base h) (\<lambda>_. \<lparr>h_ptr = base h, h_size = 0\<rparr>) h)\<lparr>freep := base h\<rparr> else h)
      in malloc_loop (malloc_units nbytes) (freep h1) (ptr h1 (freep h1)) h1)"

section \<open>Rings of headers\<close>

fun links :: "(addr_t \<Rightarrow> addr_t) \<Rightarrow> addr_t \<Rightarrow> addr_t list \<Rightarrow> addr_t \<Rightarrow> bool" where
  "links f a [] z \<longleftrightarrow> f a = z"
| "links f a (x # xs) z \<longleftrightarrow> f a = x \<and> links f x xs z"

lemma links_append: "links f a (xs @ y # ys) z \<longleftrightarrow> links f a xs y \<and> links f y ys z"
  by (induction xs arbitrary: a) auto

lemma links_last: "links f a xs z \<Longrightarrow> f (last (a # xs)) = z"
  by (induction xs arbitrary: a) auto

lemma links_hd: "links f a xs z \<Longrightarrow> f a = hd (xs @ [z])"
  by (cases xs) auto

lemma links_cong: "(\<And>x. x \<in> set (a # xs) \<Longrightarrow> f x = g x) \<Longrightarrow> links f a xs z = links g a xs z"
  by (induction xs arbitrary: a) auto

lemma links_upd: "i \<notin> set (a # xs) \<Longrightarrow> links (f(i := v)) a xs z = links f a xs z"
  by (rule links_cong) auto

text \<open>A list that ends in another successor: only its last link differs.\<close>

lemma links_relink:
  "links f a xs z \<Longrightarrow> distinct (a # xs) \<Longrightarrow> (\<And>x. x \<in> set (a # xs) \<Longrightarrow> x \<noteq> last (a # xs) \<Longrightarrow> g x = f x) \<Longrightarrow> g (last (a # xs)) = y \<Longrightarrow> links g a xs y"
proof (induction xs arbitrary: a)
  case (Cons x xs)
  have "last (x # xs) \<in> set (x # xs)" by (rule last_in_set) simp
  then have "a \<noteq> last (a # x # xs)" using Cons.prems(2) by (metis distinct.simps(2) last_ConsR list.distinct(1))
  then have "g a = x" using Cons.prems(1,3) by simp
  moreover have "links g x xs y" using Cons.prems by (intro Cons.IH) auto
  ultimately show ?case by simp
qed simp

lemma links_rotate: "links f a (us @ p # vs) a \<Longrightarrow> links f p (vs @ a # us) p"
  by (simp add: links_append)

lemma links_nth: "links f a xs z \<Longrightarrow> i < length (a # xs) \<Longrightarrow> f ((a # xs) ! i) = (xs @ [z]) ! i"
proof (induction xs arbitrary: a i)
  case (Cons x xs)
  then show ?case by (cases i) auto
qed simp

text \<open>In a ring every node has one predecessor.\<close>

lemma links_pred:
  assumes l: "links f a (us @ z # vs) a" and d: "distinct (a # us @ z # vs)" and q: "q \<in> set (a # us @ z # vs)" "f q = z"
  shows "q = last (a # us)"
proof -
  let ?xs = "us @ z # vs"
  obtain i where i: "i < length (a # ?xs)" "q = (a # ?xs) ! i" using q(1) unfolding in_set_conv_nth by metis
  have "(?xs @ [a]) ! i = z" using links_nth[OF l i(1)] i(2) q(2) by simp
  moreover have "(?xs @ [a]) ! length us = z" by (simp add: nth_append)
  moreover have "distinct (?xs @ [a])" using d by auto
  ultimately have "i = length us" using i(1) by (metis nth_eq_iff_index_eq length_append length_Cons list.size(3) less_add_Suc1 add_Suc_right add.right_neutral length_append_singleton add.assoc less_Suc_eq_le le_add1)
  then have "q = (a # us @ z # vs) ! length us" using i(2) by simp
  then show ?thesis by (simp add: last_conv_nth nth_append nth_Cons' split: if_splits)
qed

section \<open>The free list\<close>

type_synonym region = "addr_t \<times> uint"

text \<open>Free blocks in the order of their addresses, none touching the next, between \<open>lo\<close> and \<open>hi\<close>.\<close>

fun gaps :: "nat \<Rightarrow> region list \<Rightarrow> nat \<Rightarrow> bool" where
  "gaps lo [] hi \<longleftrightarrow> lo < hi"
| "gaps lo ((x, k) # R) hi \<longleftrightarrow> lo < unat x \<and> 0 < k \<and> gaps (unat x + 16 * unat k) R hi"

definition bytes :: "addr_t \<Rightarrow> uint \<Rightarrow> nat set" where
  "bytes x k = {unat x..<unat x + 16 * unat k}"

definition covered :: "region list \<Rightarrow> nat set" where
  "covered R = (\<Union>(x, k)\<in>set R. bytes x k)"

definition ring_ok :: "heap \<Rightarrow> region list \<Rightarrow> bool" where
  "ring_ok h R \<longleftrightarrow> links (ptr h) (base h) (map fst R) (base h) \<and> (\<forall>(x, k)\<in>set R. units h x = k) \<and> units h (base h) = 0 \<and>
     base h \<noteq> 0 \<and> gaps (unat (base h) + 15) R (unat (brk h) + 1) \<and> unat (base h) + 16 \<le> unat (brk h) \<and> unat (brk h) < 2 ^ 36"

definition heap_ok :: "heap \<Rightarrow> region list \<Rightarrow> bool" where
  "heap_ok h R \<longleftrightarrow> ring_ok h R \<and> freep h \<in> set (base h # map fst R)"

lemma ring_okD:
  assumes "ring_ok h R"
  shows "links (ptr h) (base h) (map fst R) (base h)" "\<forall>(x, k)\<in>set R. units h x = k" "units h (base h) = 0" "base h \<noteq> 0"
    "gaps (unat (base h) + 15) R (unat (brk h) + 1)" "unat (base h) + 16 \<le> unat (brk h)" "unat (brk h) < 2 ^ 36"
  using assms by (simp_all add: ring_ok_def)

lemma ring_ok_freep: "ring_ok (h\<lparr>freep := p\<rparr>) R = ring_ok h R"
  by (simp add: ring_ok_def)

lemma gaps_append: "gaps lo (A @ (x, k) # B) hi \<longleftrightarrow> gaps lo A (unat x) \<and> 0 < k \<and> gaps (unat x + 16 * unat k) B hi"
  by (induction A arbitrary: lo) auto

lemma gaps_less: "gaps lo R hi \<Longrightarrow> lo < hi"
  by (induction lo R hi rule: gaps.induct) auto

lemma gaps_mono: "gaps lo R hi \<Longrightarrow> lo' \<le> lo \<Longrightarrow> hi \<le> hi' \<Longrightarrow> gaps lo' R hi'"
  by (induction lo R hi arbitrary: lo' rule: gaps.induct) auto

lemma gaps_bound: "gaps lo R hi \<Longrightarrow> (x, k) \<in> set R \<Longrightarrow> lo < unat x \<and> unat x + 16 * unat k < hi \<and> 0 < k"
proof (induction lo R hi rule: gaps.induct)
  case (2 lo y j R hi)
  then show ?case using gaps_less[of "unat y + 16 * unat j" R hi] by auto
qed simp

lemma covered_simps [simp]: "covered [] = {}" "covered (A @ B) = covered A \<union> covered B" "covered ((x, k) # B) = bytes x k \<union> covered B"
  by (auto simp: covered_def)

lemma gaps_covered: "gaps lo R hi \<Longrightarrow> covered R \<subseteq> {lo<..<hi - 1}"
  using gaps_bound[of lo R hi] unfolding covered_def bytes_def by fastforce

lemma gaps_distinct: "gaps lo R hi \<Longrightarrow> distinct (map fst R)"
proof (induction lo R hi rule: gaps.induct)
  case (2 lo y j R hi)
  then show ?case using gaps_bound[of "unat y + 16 * unat j" R hi y] by auto
qed simp

text \<open>A block that overlaps no free block splits the list in those before and those after it.\<close>

lemma gaps_split:
  assumes "gaps lo R hi" "0 < n" "bytes bp n \<inter> covered R = {}" "lo < unat bp" "unat bp + 16 * unat n \<le> hi'" "hi = hi' + 1"
  shows "\<exists>A B. R = A @ B \<and> gaps lo A (unat bp + 1) \<and> gaps (unat bp + 16 * unat n - 1) B hi"
  using assms
proof (induction lo R hi rule: gaps.induct)
  case (1 lo hi)
  then show ?case by (intro exI[of _ "[]"]) (auto simp: word_gt_0 unat_eq_zero)
next
  case (2 lo x k R hi)
  have n: "0 < unat n" "0 < unat k" using 2 by (simp_all add: unat_gt_0 word_gt_0)
  show ?case
  proof (cases "unat x \<le> unat bp")
    case True
    have "unat x + 16 * unat k \<le> unat bp"
    proof (rule ccontr)
      assume "\<not> ?thesis"
      then have "unat bp \<in> bytes bp n \<inter> bytes x k" using True n by (auto simp: bytes_def)
      then show False using 2(4) by auto
    qed
    then consider "unat x + 16 * unat k < unat bp" | "unat x + 16 * unat k = unat bp" by linarith
    then show ?thesis
    proof cases
      case 1
      then obtain A B where "R = A @ B" "gaps (unat x + 16 * unat k) A (unat bp + 1)" "gaps (unat bp + 16 * unat n - 1) B hi"
        using 2 by auto
      then show ?thesis using 2(2) True by (intro exI[of _ "(x, k) # A"] exI[of _ B]) auto
    next
      case eq: 2
      have R: "unat bp + 16 * unat n \<le> unat y" if "(y, j) \<in> set R" for y j
      proof (rule ccontr)
        assume c: "\<not> ?thesis"
        have y: "unat bp < unat y" "0 < j" using gaps_bound[of "unat x + 16 * unat k" R hi y j] 2(2) that eq by auto
        then have "unat y \<in> bytes bp n \<inter> bytes y j" using c by (auto simp: bytes_def word_gt_0 unat_gt_0)
        then show False using 2(4) that by (auto simp: covered_def)
      qed
      have "gaps (unat bp + 16 * unat n - 1) R hi"
      proof (cases R)
        case Nil
        then show ?thesis using 2(6,7) n by simp
      next
        case (Cons r R')
        obtain y j where "r = (y, j)" by (cases r)
        then show ?thesis using Cons 2(2) R[of y j] n by auto
      qed
      then show ?thesis using 2(2) eq by (intro exI[of _ "[(x, k)]"] exI[of _ R]) auto
    qed
  next
    case False
    have "unat bp + 16 * unat n \<le> unat x"
    proof (rule ccontr)
      assume "\<not> ?thesis"
      then have "unat x \<in> bytes bp n \<inter> bytes x k" using False n by (auto simp: bytes_def)
      then show False using 2(4) by auto
    qed
    then show ?thesis using 2(2,5) n by (intro exI[of _ "[]"] exI[of _ "(x, k) # R"]) auto
  qed
qed

section \<open>Where a block belongs\<close>

lemma unat_hplus: "unat p + 16 * unat n < 2 ^ 64 \<Longrightarrow> unat (hplus p n) = unat p + 16 * unat n"
proof -
  assume a: "unat p + 16 * unat n < 2 ^ 64"
  have "unat n < 2 ^ 32" using unsigned_less[of n, where ?'a = nat] by simp
  then have "unat (ucast n :: addr_t) = unat n" by (simp add: unsigned_ucast_eq take_bit_nat_eq_self)
  then have "unat (16 * ucast n :: addr_t) = 16 * unat n" using a by (simp add: unat_word_ariths)
  then show ?thesis using a by (simp add: hplus_def unat_word_ariths)
qed

lemma unat_sum: "unat (a :: uint) + unat b < 2 ^ 32 \<Longrightarrow> unat (a + b) = unat a + unat b"
  by (simp add: unat_word_ariths)

lemma gaps_sorted: "gaps lo R hi \<Longrightarrow> unat a \<le> lo \<Longrightarrow> sorted_wrt (<) (a # map fst R)"
proof (induction lo R hi arbitrary: a rule: gaps.induct)
  case (2 lo x k R hi)
  have "sorted_wrt (<) (x # map fst R)" using 2 by (intro "2.IH") auto
  moreover have "a < x" using 2 by (simp add: word_less_nat_alt)
  ultimately show ?case by auto
qed simp

lemma links_up:
  "links f (a :: addr_t) xs z \<Longrightarrow> sorted_wrt (<) (a # xs) \<Longrightarrow> q \<in> set (a # xs) \<Longrightarrow> q \<noteq> last (a # xs) \<Longrightarrow> q < f q \<and> f q \<in> set xs"
proof (induction xs arbitrary: a)
  case (Cons x xs)
  show ?case
  proof (cases "q = a")
    case False
    then have "q < f q \<and> f q \<in> set xs" using Cons.prems by (intro Cons.IH[of x]) auto
    then show ?thesis by simp
  qed (use Cons.prems in simp)
qed simp

definition stops :: "heap \<Rightarrow> addr_t \<Rightarrow> addr_t \<Rightarrow> bool" where
  "stops h bp p \<longleftrightarrow> p < bp \<and> bp < ptr h p \<or> ptr h p \<le> p \<and> (p < bp \<or> bp < ptr h p)"

lemma free_find_stop: "stops h bp p \<Longrightarrow> free_find h bp p = Some p"
  by (subst free_find.simps) (auto simp: stops_def)

lemma free_find_next: "\<not> stops h bp p \<Longrightarrow> free_find h bp p = free_find h bp (ptr h p)"
  by (subst free_find.simps) (auto simp: stops_def)

lemma free_find_walk: "links (ptr h) q ws z \<Longrightarrow> \<forall>w\<in>set (q # ws). \<not> stops h bp w \<Longrightarrow> free_find h bp q = free_find h bp z"
  by (induction ws arbitrary: q) (auto simp: free_find_next)

lemma ring_from:
  assumes "links f a xs a" "q \<in> set (a # xs)"
  shows "\<exists>ys. links f q ys q \<and> set (q # ys) = set (a # xs) \<and> length ys = length xs"
proof (cases "q = a")
  case False
  then obtain us vs where "xs = us @ q # vs" using assms(2) by (auto simp: in_set_conv_decomp)
  then show ?thesis using links_rotate[of f a us q vs] assms(1) by (intro exI[of _ "vs @ a # us"]) auto
qed (use assms in auto)

lemma free_find_ring:
  assumes l: "links (ptr h) a xs a" and q: "q \<in> set (a # xs)" and p: "p \<in> set (a # xs)" and s: "\<forall>w\<in>set (a # xs). stops h bp w \<longleftrightarrow> w = p"
  shows "free_find h bp q = Some p"
proof (cases "q = p")
  case True
  then show ?thesis using s p free_find_stop by auto
next
  case False
  obtain ys where y: "links (ptr h) q ys q" "set (q # ys) = set (a # xs)" using ring_from[OF l q] by blast
  then have "p \<in> set ys" using p False by auto
  then obtain us vs where u: "ys = us @ p # vs" "p \<notin> set us" by (meson split_list_first)
  have "free_find h bp q = free_find h bp p"
    using y u False s by (intro free_find_walk[of h q us]) (auto simp: links_append)
  then show ?thesis using s p free_find_stop by auto
qed

text \<open>The block belongs after the last free block below it.\<close>

lemma free_find_ok:
  assumes ok: "heap_ok h (A @ B)" and a: "gaps (unat (base h) + 15) A (unat bp + 1)" and b: "gaps (unat bp + 16 * unat n - 1) B hi"
    and n: "0 < n" "unat (base h) + 15 < unat bp"
  shows "free_find h bp (freep h) = Some (last (base h # map fst A))" "ptr h (last (base h # map fst A)) = hd (map fst B @ [base h])"
proof -
  let ?a = "base h" and ?p = "last (base h # map fst A)"
  have r: "links (ptr h) ?a (map fst (A @ B)) ?a" "freep h \<in> set (?a # map fst (A @ B))" "gaps (unat ?a + 15) (A @ B) (unat (brk h) + 1)"
    using ok by (auto simp: heap_ok_def ring_ok_def)
  have lA: "links (ptr h) ?a (map fst A) (hd (map fst B @ [?a]))"
    using r(1) by (cases B) (auto simp: links_append)
  then show nx: "ptr h ?p = hd (map fst B @ [?a])" by (rule links_last)
  have n16: "0 < unat n" using n(1) by (simp add: word_gt_0 unat_gt_0)
  have below: "w < bp" "?a \<le> w" if w: "w \<in> set (?a # map fst A)" for w
  proof -
    have "unat w < unat bp \<and> unat ?a \<le> unat w"
    proof (cases "w = ?a")
      case False
      then obtain k where "(w, k) \<in> set A" using w by auto
      then have "unat ?a + 15 < unat w \<and> unat w + 16 * unat k < unat bp + 1 \<and> 0 < k" using gaps_bound[OF a] by blast
      then show ?thesis using unat_gt_0[of k] by (auto simp: word_gt_0)
    qed (use n(2) in simp)
    then show "w < bp" "?a \<le> w" by (simp_all add: word_less_nat_alt word_le_nat_alt)
  qed
  have above: "bp < w" if "w \<in> set (map fst B)" for w
    using that gaps_bound[OF b] n16 by (fastforce simp: word_less_nat_alt)
  have pin: "?p \<in> set (?a # map fst A)" by (rule last_in_set) simp
  have "stops h bp w \<longleftrightarrow> w = ?p" if w: "w \<in> set (?a # map fst (A @ B))" for w
  proof (cases "w \<in> set (?a # map fst A)")
    case True
    show ?thesis
    proof (cases "w = ?p")
      case p: True
      have "w < bp" "ptr h w \<le> w \<or> bp < ptr h w"
        using below[OF True] above nx p by (cases B; auto)+
      then show ?thesis using p by (auto simp: stops_def)
    next
      case False
      have "w < ptr h w \<and> ptr h w \<in> set (map fst A)"
        using links_up[OF lA gaps_sorted[OF a] True False] by simp
      then have "w < ptr h w" "ptr h w < bp" using below(1)[of "ptr h w"] by auto
      then show ?thesis using False by (auto simp: stops_def)
    qed
  next
    case False
    then have wB: "w \<in> set (map fst B)" using w by auto
    then obtain x k B' where B: "B = (x, k) # B'" by (cases B) auto
    have lB: "links (ptr h) x (map fst B') ?a" using r(1) B by (simp add: links_append)
    have sB: "sorted_wrt (<) (x # map fst B')" using gaps_sorted[of "unat x + 16 * unat k" B' hi x] b B by auto
    have "w < ptr h w \<or> ptr h w = ?a"
      using links_up[OF lB sB, of w] links_last[OF lB] wB B by (cases "w = last (x # map fst B')") auto
    moreover have "?a < bp" using below(1)[of ?a] by simp
    ultimately have "\<not> stops h bp w" using above[OF wB] by (auto simp: stops_def)
    then show ?thesis using False pin by metis
  qed
  then have "\<forall>w\<in>set (?a # map fst (A @ B)). stops h bp w \<longleftrightarrow> w = ?p" by blast
  moreover have "?p \<in> set (?a # map fst (A @ B))" using pin by (metis Un_iff map_append set_append append_Cons)
  ultimately show "free_find h bp (freep h) = Some ?p" by (intro free_find_ring[OF r(1,2)])
qed

section \<open>Freeing\<close>

lemma set_hdr_sel [simp]:
  "hdr (set_hdr p f h) = (hdr h)(p := f (hdr h p))" "base (set_hdr p f h) = base h" "freep (set_hdr p f h) = freep h"
  "brk (set_hdr p f h) = brk h" "brk_ok (set_hdr p f h) = brk_ok h"
  by (simp_all add: set_hdr_def)

lemma heap_eqI: "hdr h = hdr g \<Longrightarrow> base h = base g \<Longrightarrow> freep h = freep g \<Longrightarrow> brk h = brk g \<Longrightarrow> brk_ok h = brk_ok g \<Longrightarrow> h = (g :: heap)"
  by (cases h; cases g) simp

text \<open>The first half of \<open>free\<close>: the block takes its place before the list \<open>B\<close>, joined with its first element if they touch.\<close>

definition join_right :: "heap \<Rightarrow> addr_t \<Rightarrow> addr_t \<Rightarrow> heap" where
  "join_right h bp nx =
     (if hplus bp (units h bp) = nx then set_hdr bp (\<lambda>b. \<lparr>h_ptr = ptr h nx, h_size = h_size b + units h nx\<rparr>) h
      else set_hdr bp (\<lambda>b. b\<lparr>h_ptr := nx\<rparr>) h)"

lemma join_right_ok:
  assumes l: "B = [] \<or> links (ptr h) (fst (hd B)) (map fst (tl B)) (base h)" and u: "\<forall>(x, k)\<in>set B. units h x = k"
    and g: "gaps (unat bp + 16 * unat (units h bp) - 1) B (lim + 1)" and n: "0 < units h bp" "unat (base h) < unat bp"
    and lim: "unat bp + 16 * unat (units h bp) \<le> lim" "lim < 2 ^ 36"
  defines "h1 \<equiv> join_right h bp (hd (map fst B @ [base h]))"
  shows "\<exists>m C. links (ptr h1) bp (map fst C) (base h) \<and> units h1 bp = m \<and> (\<forall>(x, k)\<in>set C. units h1 x = k) \<and> 0 < m \<and>
    gaps (unat bp + 16 * unat m) C (lim + 1) \<and> bytes bp m \<union> covered C = bytes bp (units h bp) \<union> covered B"
proof -
  let ?n = "units h bp"
  have n0: "0 < unat ?n" using n(1) by (simp add: word_less_nat_alt)
  have hp: "unat (hplus bp ?n) = unat bp + 16 * unat ?n" using lim by (intro unat_hplus) simp
  have notin: "bp \<notin> set (map fst B)" using gaps_bound[OF g] n0 by fastforce
  show ?thesis
  proof (cases B)
    case Nil
    then have "hplus bp ?n \<noteq> base h" using hp n(2) by auto
    then show ?thesis using Nil n(1) lim(1) by (intro exI[of _ ?n] exI[of _ "[]"]) (simp add: h1_def join_right_def)
  next
    case (Cons r B')
    obtain x k where r: "r = (x, k)" by (cases r)
    have x: "units h x = k" "x \<noteq> bp" "links (ptr h) x (map fst B') (base h)" "bp \<notin> set (map fst B')"
      using u l notin Cons r by auto
    have gx: "unat bp + 16 * unat ?n - 1 < unat x" "0 < k" "gaps (unat x + 16 * unat k) B' (lim + 1)" using g Cons r by auto
    have lB: "links ((ptr h)(bp := v)) x (map fst B') (base h)" for v
      using x(2-4) links_upd[of bp x "map fst B'"] by simp
    have uB: "\<forall>(y, j)\<in>set B'. y \<noteq> bp \<and> units h y = j" using u x(4) Cons by force
    show ?thesis
    proof (cases "hplus bp ?n = x")
      case True
      have e: "unat x = unat bp + 16 * unat ?n" using hp True by simp
      have "unat x + 16 * unat k < lim + 1" using gaps_less[OF gx(3)] .
      then have s: "unat (?n + k) = unat ?n + unat k" using e lim(2) by (intro unat_sum) simp
      have h1: "ptr h1 = (ptr h)(bp := ptr h x)" "\<And>y. units h1 y = (if y = bp then ?n + k else units h y)"
        using True Cons r x(1) by (auto simp: h1_def join_right_def fun_eq_iff)
      have "links (ptr h1) bp (map fst B') (base h)"
        using x(2-4) unfolding h1(1) by (cases B') (auto simp: links_upd)
      moreover have "0 < ?n + k" using s n0 by (simp add: word_less_nat_alt)
      moreover have "bytes bp (?n + k) = bytes bp ?n \<union> bytes x k" unfolding bytes_def s e by auto
      moreover have "\<forall>(y, j)\<in>set B'. units h1 y = j" using uB by (auto simp: h1(2))
      ultimately show ?thesis
        using gx(3) e s Cons r by (intro exI[of _ "?n + k"] exI[of _ B']) (auto simp: h1(2) algebra_simps)
    next
      case False
      have "unat (hplus bp ?n) \<noteq> unat x" using False by (metis word_unat_eq_iff)
      then have lt: "unat bp + 16 * unat ?n < unat x" using hp gx(1) by linarith
      have h1: "ptr h1 = (ptr h)(bp := x)" "\<And>y. units h1 y = units h y"
        using False Cons r by (auto simp: h1_def join_right_def fun_eq_iff)
      show ?thesis using lB[of x] x u gx lt n(1) Cons r by (intro exI[of _ ?n] exI[of _ B]) (auto simp: h1)
    qed
  qed
qed

text \<open>The second half: the list before the block is joined with it.\<close>

definition join_left :: "heap \<Rightarrow> addr_t \<Rightarrow> addr_t \<Rightarrow> heap" where
  "join_left h p bp =
     (if hplus p (units h p) = bp then set_hdr p (\<lambda>b. \<lparr>h_ptr = ptr h bp, h_size = h_size b + units h bp\<rparr>) h
      else set_hdr p (\<lambda>b. b\<lparr>h_ptr := bp\<rparr>) h)"

lemma join_left_ok:
  assumes A: "links (ptr h) (base h) (map fst A) z" "\<forall>(x, k)\<in>set A. units h x = k" "units h (base h) = 0" "gaps (unat (base h) + 15) A (unat bp + 1)"
    and C: "links (ptr h) bp (map fst C) (base h)" "\<forall>(x, k)\<in>set C. units h x = k" "gaps (unat bp + 16 * unat m) C (unat (brk h) + 1)"
    and m: "units h bp = m" "0 < m" and b: "base h \<noteq> 0" "unat (base h) + 15 < unat bp" and lim: "unat (brk h) < 2 ^ 36"
  defines "p \<equiv> last (base h # map fst A)"
  defines "g \<equiv> join_left h p bp"
  shows "\<exists>R. ring_ok g R \<and> covered R = covered A \<union> bytes bp m \<union> covered C \<and> p \<in> set (base h # map fst R)"
proof -
  let ?a = "base h"
  have top: "unat bp + 16 * unat m < unat (brk h) + 1" using gaps_less[OF C(3)] .
  have g: "base g = ?a" "brk g = brk h" by (simp_all add: g_def join_left_def)
  have up: "bp < x" if "x \<in> set (map fst C)" for x
    using that gaps_bound[OF C(3)] by (fastforce simp: word_less_nat_alt)
  show ?thesis
  proof (cases A rule: rev_cases)
    case Nil
    then have p: "p = ?a" by (simp add: p_def)
    have "hplus ?a 0 \<noteq> bp" using b(2) by (auto simp: hplus_def)
    then have h: "ptr g = (ptr h)(?a := bp)" "\<And>y. units g y = units h y"
      using A(3) by (auto simp: g_def join_left_def p fun_eq_iff)
    have "?a \<noteq> bp" "?a < bp" using b(2) by (auto simp: word_less_nat_alt)
    then have "?a \<notin> set (bp # map fst C)" using up by (metis less_asym set_ConsD)
    then have "links (ptr g) bp (map fst C) ?a" unfolding h(1) using C(1) by (simp add: links_upd)
    then have "ring_ok g ((bp, m) # C)"
      unfolding ring_ok_def g h(2) using A(3) C(2,3) m b lim top by (auto simp: h(1))
    then show ?thesis using Nil p by (intro exI[of _ "(bp, m) # C"]) auto
  next
    case (snoc A' r)
    obtain k where r: "r = (p, k)" using snoc by (cases r) (simp add: p_def)
    have gA: "gaps (unat ?a + 15) A' (unat p)" "0 < k" "unat p + 16 * unat k < unat bp + 1"
      using A(4) snoc r by (simp_all add: gaps_append)
    have k0: "0 < unat k" using gA(2) by (simp add: word_less_nat_alt)
    have lA: "links (ptr h) ?a (map fst A') p" using A(1) snoc r by (simp add: links_append)
    have pk: "units h p = k" using A(2) snoc r by simp
    have hp: "unat (hplus p k) = unat p + 16 * unat k" using gA(3) top lim by (intro unat_hplus) simp
    have pa: "p \<noteq> ?a" using gaps_less[OF gA(1)] by auto
    have pA: "p \<notin> set (?a # map fst A')" using gaps_bound[OF gA(1)] pa by fastforce
    have pb: "p < bp" using gA(3) k0 by (simp add: word_less_nat_alt)
    then have pC: "p \<notin> set (bp # map fst C)" using up by (metis less_asym less_irrefl set_ConsD)
    have uA: "\<forall>(x, j)\<in>set A'. x \<noteq> p \<and> units h x = j" using A(2) pA snoc by force
    have uC: "\<forall>(x, j)\<in>set C. x \<noteq> p \<and> units h x = j" using C(2) pC by force
    show ?thesis
    proof (cases "hplus p k = bp")
      case True
      have e: "unat bp = unat p + 16 * unat k" using hp True by simp
      have s: "unat (k + m) = unat k + unat m" using e top lim by (intro unat_sum) simp
      have h: "ptr g = (ptr h)(p := ptr h bp)" "\<And>y. units g y = (if y = p then k + m else units h y)"
        using True pk m(1) by (auto simp: g_def join_left_def fun_eq_iff)
      have "links (ptr g) ?a (map fst A') p" unfolding h(1) using lA pA by (simp add: links_upd)
      moreover have "links (ptr g) p (map fst C) ?a"
        unfolding h(1) using C(1) pC by (cases C) (auto simp: links_upd)
      ultimately have l: "links (ptr g) ?a (map fst (A' @ (p, k + m) # C)) ?a" by (simp add: links_append)
      have km: "0 < k + m" using s k0 by (simp add: word_less_nat_alt)
      have "gaps (unat p + 16 * unat (k + m)) C (unat (brk h) + 1)" using C(3) e s by (simp add: algebra_simps)
      then have gg: "gaps (unat ?a + 15) (A' @ (p, k + m) # C) (unat (brk h) + 1)" using gA(1) km by (simp add: gaps_append)
      have "ring_ok g (A' @ (p, k + m) # C)"
        unfolding ring_ok_def g using l gg uA uC A(3) pa b lim top by (auto simp: h(2))
      moreover have "bytes p (k + m) = bytes p k \<union> bytes bp m" unfolding bytes_def s e by auto
      ultimately show ?thesis using snoc r by (intro exI[of _ "A' @ (p, k + m) # C"]) auto
    next
      case False
      have "unat (hplus p k) \<noteq> unat bp" using False by (metis word_unat_eq_iff)
      then have gA2: "gaps (unat ?a + 15) A (unat bp)" using hp gA snoc r by (simp add: gaps_append)
      have h: "ptr g = (ptr h)(p := bp)" "\<And>y. units g y = units h y"
        using False pk by (auto simp: g_def join_left_def fun_eq_iff)
      have "links (ptr g) ?a (map fst A') p" "links (ptr g) p [] bp" unfolding h(1) using lA pA by (simp_all add: links_upd)
      then have "links (ptr g) ?a (map fst A) bp" using snoc r by (simp add: links_append)
      moreover have "links (ptr g) bp (map fst C) ?a" unfolding h(1) using C(1) pC by (simp add: links_upd)
      ultimately have "links (ptr g) ?a (map fst (A @ (bp, m) # C)) ?a" by (simp add: links_append)
      then have "ring_ok g (A @ (bp, m) # C)"
        unfolding ring_ok_def g h(2) using A(2,3) C(2,3) gA2 m b lim top by (auto simp: gaps_append)
      then show ?thesis using snoc r by (intro exI[of _ "A @ (bp, m) # C"]) auto
    qed
  qed
qed

lemma free_ok:
  assumes ok: "heap_ok h R" and n: "0 < units h bp" and b: "unat (base h) + 15 < unat bp" "unat bp + 16 * unat (units h bp) \<le> unat (brk h)"
    and d: "bytes bp (units h bp) \<inter> covered R = {}"
  shows "\<exists>g R'. free (bp + 16) h = Some g \<and> heap_ok g R' \<and> covered R' = covered R \<union> bytes bp (units h bp) \<and> base g = base h \<and> brk g = brk h \<and>
    brk_ok g = brk_ok h \<and> freep g \<noteq> 0 \<and> (\<forall>x. x \<noteq> bp \<and> x \<noteq> base h \<and> unat x \<notin> covered R \<longrightarrow> hdr g x = hdr h x)"
proof -
  let ?n = "units h bp" and ?a = "base h"
  have r: "ring_ok h R" "gaps (unat ?a + 15) R (unat (brk h) + 1)" using ok by (simp_all add: heap_ok_def ring_ok_def)
  obtain A B where R: "R = A @ B" and gA: "gaps (unat ?a + 15) A (unat bp + 1)" and gB: "gaps (unat bp + 16 * unat ?n - 1) B (unat (brk h) + 1)"
    using gaps_split[OF r(2) n d b] by auto
  let ?p = "last (?a # map fst A)" and ?nx = "hd (map fst B @ [base h])"
  note ff = free_find_ok[OF ok[unfolded R] gA gB n b(1)]
  define h1 where "h1 = join_right h bp ?nx"
  define g where "g = (join_left h1 ?p bp)\<lparr>freep := ?p\<rparr>"
  have run: "free (bp + 16) h = Some g"
    using ff by (simp add: free_def Let_def g_def h1_def join_right_def join_left_def cong: if_cong)
  have u: "\<forall>(x, k)\<in>set R. units h x = k" "units h ?a = 0" "?a \<noteq> 0" "unat (brk h) < 2 ^ 36" using r(1) by (simp_all add: ring_ok_def)
  have lR: "links (ptr h) ?a (map fst (A @ B)) ?a" using r(1) R by (simp add: ring_ok_def)
  have lB: "B = [] \<or> links (ptr h) (fst (hd B)) (map fst (tl B)) ?a" using lR by (cases B) (auto simp: links_append)
  have uB: "\<forall>(x, k)\<in>set B. units h x = k" using u(1) R by auto
  have ab: "unat ?a < unat bp" using b(1) by simp
  obtain m C where C: "links (ptr h1) bp (map fst C) ?a" "units h1 bp = m" "\<forall>(x, k)\<in>set C. units h1 x = k" "0 < m"
      "gaps (unat bp + 16 * unat m) C (unat (brk h) + 1)" "bytes bp m \<union> covered C = bytes bp ?n \<union> covered B"
    using join_right_ok[OF lB uB gB n ab b(2) u(4)] unfolding h1_def by blast
  have h1: "hdr h1 x = hdr h x" if "x \<noteq> bp" for x using that by (simp add: h1_def join_right_def)
  have f1: "base h1 = ?a" "brk h1 = brk h" "brk_ok h1 = brk_ok h" by (simp_all add: h1_def join_right_def)
  have bA: "bp \<notin> set (?a # map fst A)"
    using gaps_bound[OF gA] ab by (fastforce simp: word_less_nat_alt)
  have "links (ptr h) ?a (map fst A) ?nx" using lR by (cases B) (auto simp: links_append)
  moreover have "ptr h1 x = ptr h x" if "x \<in> set (?a # map fst A)" for x using h1[of x] bA that by metis
  ultimately have lA: "links (ptr h1) ?a (map fst A) ?nx" by (subst links_cong[of ?a "map fst A" "ptr h1" "ptr h"])
  have uA: "\<forall>(x, k)\<in>set A. units h1 x = k" "units h1 ?a = 0" using u R bA h1 by force+
  obtain R' where R': "ring_ok (join_left h1 ?p bp) R'" "covered R' = covered A \<union> bytes bp m \<union> covered C" "?p \<in> set (?a # map fst R')"
    using join_left_ok[of h1 A ?nx bp C m] lA uA gA C(1-5) u(3,4) b(1) unfolding f1 by auto
  have "covered R' = covered R \<union> bytes bp ?n" using R'(2) C(6) R by auto
  moreover have gf: "base g = ?a" "brk g = brk h" "brk_ok g = brk_ok h" "freep g = ?p" using f1 by (simp_all add: g_def join_left_def)
  moreover have "ring_ok g R'" using R'(1) by (simp only: g_def ring_ok_freep)
  then have "heap_ok g R'" unfolding heap_ok_def gf(1,4) using R'(3) by blast
  moreover have "hdr g x = hdr h x" if x: "x \<noteq> bp" "x \<noteq> ?a" "unat x \<notin> covered R" for x
  proof -
    have "x \<noteq> ?p"
    proof
      assume "x = ?p"
      then have "x \<in> set (map fst A)" using x(2) last_in_set[of "?a # map fst A"] by auto
      then obtain k where "(x, k) \<in> set A" by auto
      then have "unat x \<in> covered R" using gaps_bound[OF gA, of x k] unat_gt_0[of k] R by (force simp: covered_def bytes_def word_gt_0)
      then show False using x(3) by simp
    qed
    then show ?thesis using h1[OF x(1)] by (simp add: g_def join_left_def)
  qed
  moreover have "freep g \<noteq> 0"
  proof -
    have "?p \<in> set (?a # map fst A)" by (rule last_in_set) simp
    then show ?thesis using u(3) gaps_bound[OF gA] by (fastforce simp: g_def)
  qed
  ultimately show ?thesis using run by blast
qed

section \<open>Allocating\<close>

lemma links_skip:
  "links f a (us @ z # vs) e \<Longrightarrow> distinct (a # us @ z # vs) \<Longrightarrow> links (f(last (a # us) := f z)) a (us @ vs) e"
proof (induction us arbitrary: a)
  case Nil
  then show ?case using links_upd[of a "hd vs" "tl vs" f "f z" e] by (cases vs) (simp_all add: fun_upd_def)
next
  case (Cons u us)
  have "last (u # us) \<in> set (u # us)" by (rule last_in_set) simp
  then have "a \<noteq> last (u # us)" using Cons.prems(2) by auto
  then show ?case using Cons by (auto split: if_splits)
qed

lemma gaps_drop: "gaps lo (A @ (z, k) # B) hi \<Longrightarrow> gaps lo (A @ B) hi"
proof (cases B)
  case Nil
  assume "gaps lo (A @ (z, k) # B) hi"
  then have "gaps lo A (unat z)" "unat z \<le> hi" using Nil by (simp_all add: gaps_append)
  then show ?thesis using Nil gaps_mono[of lo A "unat z" lo hi] by simp
next
  case (Cons r B')
  assume g: "gaps lo (A @ (z, k) # B) hi"
  obtain y j where r: "r = (y, j)" by (cases r)
  have "gaps lo A (unat y)" using g Cons r gaps_mono[of lo A "unat z" lo "unat y"] by (simp add: gaps_append)
  then show ?thesis using g Cons r by (simp add: gaps_append)
qed

lemma gaps_apart:
  assumes "gaps lo (A @ (z, k) # B) hi"
  shows "covered A \<inter> bytes z k = {}" "covered B \<inter> bytes z k = {}"
  using assms gaps_covered[of lo A "unat z"] gaps_covered[of "unat z + 16 * unat k" B hi]
  by (fastforce simp: gaps_append bytes_def)+

lemma ring_nodes:
  assumes "ring_ok h R"
  shows "distinct (base h # map fst R)" "(x, k) \<in> set R \<Longrightarrow> unat x \<in> bytes x k" "unat (base h) \<notin> covered R" "(x, k) \<in> set R \<Longrightarrow> x \<noteq> 0"
proof -
  have g: "gaps (unat (base h) + 15) R (unat (brk h) + 1)" using assms by (simp add: ring_ok_def)
  show "distinct (base h # map fst R)" using gaps_distinct[OF g] gaps_bound[OF g] by force
  show "(x, k) \<in> set R \<Longrightarrow> unat x \<in> bytes x k" using gaps_bound[OF g, of x k] by (auto simp: bytes_def word_less_nat_alt)
  show "unat (base h) \<notin> covered R" using gaps_covered[OF g] by auto
  show "(x, k) \<in> set R \<Longrightarrow> x \<noteq> 0" using gaps_bound[OF g, of x k] by auto
qed

lemma take_ok:
  assumes ok: "ring_ok h (A @ (z, k) # B)" and n: "0 < n" "n \<le> k"
  defines "p \<equiv> last (base h # map fst A)"
  shows "\<exists>q g R. take_block n p z h = (q + 16, g) \<and> heap_ok g R \<and> units g q = n \<and> bytes q n \<subseteq> bytes z k \<and>
    covered R = covered (A @ (z, k) # B) - bytes q n \<and> base g = base h \<and> brk g = brk h \<and> brk_ok g = brk_ok h \<and>
    (\<forall>x. x \<noteq> base h \<and> unat x \<notin> covered (A @ (z, k) # B) \<longrightarrow> hdr g x = hdr h x)"
proof -
  let ?R = "A @ (z, k) # B" and ?a = "base h"
  note r = ring_okD[OF ok]
  note nd = ring_nodes[OF ok]
  have zk: "units h z = k" using r(2) by simp
  have pin: "p \<in> set (?a # map fst A)" unfolding p_def by (rule last_in_set) simp
  have pz: "p \<noteq> z" using pin nd(1) by auto
  have zb: "unat z + 16 * unat k < unat (brk h) + 1" using gaps_bound[OF r(5), of z k] by simp
  have out: "x \<noteq> p \<and> x \<noteq> z" if x: "x \<noteq> ?a" "unat x \<notin> covered ?R" for x
  proof -
    have "unat x \<in> covered ?R" if "x \<in> set (map fst ?R)" using that nd(2)[of x] by (fastforce simp: covered_def)
    then show ?thesis using x pin by (auto dest: image_eqI)
  qed
  show ?thesis
  proof (cases "k = n")
    case True
    define g where "g = (set_hdr p (\<lambda>b. b\<lparr>h_ptr := ptr h z\<rparr>) h)\<lparr>freep := p\<rparr>"
    have t: "take_block n p z h = (z + 16, g)" using zk True by (simp add: take_block_def g_def)
    have h: "ptr g = (ptr h)(p := ptr h z)" "\<And>x. units g x = units h x" "base g = ?a" "brk g = brk h" "brk_ok g = brk_ok h" "freep g = p"
      by (auto simp: g_def fun_eq_iff)
    have "links (ptr g) ?a (map fst (A @ B)) ?a"
      unfolding h(1) p_def using links_skip[of "ptr h" ?a "map fst A" z "map fst B" ?a] r(1) nd(1) by simp
    then have "heap_ok g (A @ B)"
      unfolding heap_ok_def ring_ok_def h(2-6) using r gaps_drop[OF r(5)] pin by auto
    moreover have "covered (A @ B) = covered ?R - bytes z n" using gaps_apart[OF r(5)] True by auto
    moreover have "hdr g x = hdr h x" if "x \<noteq> ?a \<and> unat x \<notin> covered ?R" for x using out that by (simp add: g_def)
    ultimately show ?thesis using t h zk True by (intro exI[of _ z] exI[of _ g] exI[of _ "A @ B"]) auto
  next
    case False
    define q where "q = hplus z (k - n)"
    define g where "g = (set_hdr q (\<lambda>b. b\<lparr>h_size := n\<rparr>) (set_hdr z (\<lambda>b. b\<lparr>h_size := h_size b - n\<rparr>) h))\<lparr>freep := p\<rparr>"
    have "n < k" using n(2) False by simp
    then have s: "unat (k - n) = unat k - unat n" "unat n < unat k" "0 < unat n"
      using n by (simp_all add: unat_sub word_less_nat_alt)
    have q: "unat q = unat z + 16 * (unat k - unat n)" unfolding q_def using unat_hplus[of z "k - n"] s zb r(7) by simp
    have t: "take_block n p z h = (q + 16, g)" using zk False by (simp add: take_block_def g_def q_def Let_def)
    have qz: "bytes q n \<subseteq> bytes z k" "unat q \<in> bytes z k" "bytes z (k - n) = bytes z k - bytes q n" using q s by (auto simp: bytes_def)
    have ne: "q \<noteq> z" using q s by auto
    have qn: "q \<notin> set (?a # map fst ?R)"
    proof
      assume "q \<in> set (?a # map fst ?R)"
      then consider "q = ?a" | j where "(q, j) \<in> set (A @ B)" using ne by fastforce
      then show False
      proof cases
        case 1
        then show False using nd(3) qz(2) by auto
      next
        case (2 j)
        then have "unat q \<in> covered A \<union> covered B" using nd(2)[of q j] by (auto simp: covered_def)
        then show False using gaps_apart[OF r(5)] qz(2) by auto
      qed
    qed
    have h: "ptr g = ptr h" "base g = ?a" "brk g = brk h" "brk_ok g = brk_ok h" "freep g = p" by (auto simp: g_def fun_eq_iff)
    have u: "units g x = (if x = q then n else if x = z then k - n else units h x)" for x using ne zk by (simp add: g_def)
    have kn: "0 < k - n" using s by (simp add: word_less_nat_alt)
    have "gaps (unat ?a + 15) (A @ (z, k - n) # B) (unat (brk h) + 1)"
      using r(5) kn gaps_mono[of "unat z + 16 * unat k" B "unat (brk h) + 1" "unat z + 16 * unat (k - n)" "unat (brk h) + 1"] s by (simp add: gaps_append)
    moreover have zn: "z \<notin> fst ` set A" "z \<notin> fst ` set B" using nd(1) by auto
    moreover have qn': "q \<notin> fst ` set ?R" using qn by auto
    moreover have "units g x = j" if "(x, j) \<in> set (A @ (z, k - n) # B)" for x j
    proof (cases "x = z")
      case True
      then have "j = k - n" using that zn image_eqI[of z fst "(z, j)"] by auto
      then show ?thesis using u True ne by simp
    next
      case False
      then have x: "(x, j) \<in> set ?R" using that by auto
      then have "x \<noteq> q" using qn' image_eqI[of x fst "(x, j)"] by auto
      moreover have "units h x = j" using bspec[OF r(2) x] by simp
      ultimately show ?thesis using u False by simp
    qed
    moreover have "units g ?a = 0" using u[of ?a] qn nd(1) r(3) by auto
    moreover have "links (ptr g) ?a (map fst (A @ (z, k - n) # B)) ?a" using r(1) h(1) by simp
    ultimately have "heap_ok g (A @ (z, k - n) # B)"
      unfolding heap_ok_def ring_ok_def h(2-5) using r(4,6,7) pin by auto
    moreover have "covered (A @ (z, k - n) # B) = covered ?R - bytes q n" using gaps_apart[OF r(5)] qz(1,3) by auto
    moreover have "hdr g x = hdr h x" if x: "x \<noteq> ?a \<and> unat x \<notin> covered ?R" for x
    proof -
      have "x \<noteq> q" using x qz(2) by auto
      then show ?thesis using out x by (simp add: g_def)
    qed
    ultimately show ?thesis using t h u[of q] qz(1) by (intro exI[of _ q] exI[of _ g] exI[of _ "A @ (z, k - n) # B"]) auto
  qed
qed

section \<open>The search for a block\<close>

lemma malloc_walk:
  "links (ptr h) q ws z \<Longrightarrow> \<forall>w\<in>set ws. \<not> n \<le> units h w \<and> w \<noteq> freep h \<Longrightarrow>
   malloc_loop n q (ptr h q) h = malloc_loop n (last (q # ws)) z h"
proof (induction ws arbitrary: q)
  case (Cons w ws)
  have "malloc_loop n q w h = malloc_loop n w (ptr h w) h"
    using Cons.prems(2) by (subst malloc_loop.simps) auto
  then show ?case using Cons by simp
qed simp

lemma malloc_hit: "n \<le> units h z \<Longrightarrow> malloc_loop n q z h = Some (take_block n q z h)"
  by (subst malloc_loop.simps) simp

lemma free_ring:
  assumes "heap_ok h R"
  shows "\<exists>ys. links (ptr h) (freep h) ys (freep h) \<and> set (freep h # ys) = set (base h # map fst R) \<and> distinct (freep h # ys)"
proof -
  note r = ring_okD[of h R] and nd = ring_nodes[of h R]
  have ok: "ring_ok h R" "freep h \<in> set (base h # map fst R)" using assms by (simp_all add: heap_ok_def)
  obtain ys where y: "links (ptr h) (freep h) ys (freep h)" "set (freep h # ys) = set (base h # map fst R)" "length ys = length (map fst R)"
    using ring_from[OF r(1)[OF ok(1)] ok(2)] by blast
  have "card (set (freep h # ys)) = length (freep h # ys)"
    unfolding y(2) using distinct_card[OF nd(1)[OF ok(1)]] y(3) by simp
  then show ?thesis using y card_distinct by blast
qed

lemma malloc_found:
  assumes ok: "heap_ok h R" and n: "0 < n" and fit: "(x, j) \<in> set R" "n \<le> j"
  shows "\<exists>A z k B. R = A @ (z, k) # B \<and> n \<le> k \<and>
    malloc_loop n (freep h) (ptr h (freep h)) h = Some (take_block n (last (base h # map fst A)) z h)"
proof -
  have r: "ring_ok h R" using ok by (simp add: heap_ok_def)
  note rd = ring_okD[OF r]
  let ?f = "freep h"
  obtain ys where y: "links (ptr h) ?f ys ?f" "set (?f # ys) = set (base h # map fst R)" "distinct (?f # ys)" using free_ring[OF ok] by blast
  have "units h x = j" using bspec[OF rd(2) fit(1)] by simp
  moreover have "x \<in> set (ys @ [?f])" using fit(1) y(2) by force
  ultimately have "\<exists>w\<in>set (ys @ [?f]). n \<le> units h w" using fit(2) by blast
  then obtain us z vs where w: "ys @ [?f] = us @ z # vs" "n \<le> units h z" "\<forall>u\<in>set us. \<not> n \<le> units h u"
    using split_list_first_prop[of "ys @ [?f]" "\<lambda>w. n \<le> units h w"] by blast
  have l: "links (ptr h) ?f us z \<and> set us \<subseteq> set ys"
  proof (cases vs rule: rev_cases)
    case Nil
    then show ?thesis using w(1) y(1) by simp
  next
    case (snoc vs' v)
    then have "ys = us @ z # vs'" using w(1) by simp
    then show ?thesis using y(1) by (auto simp: links_append)
  qed
  let ?p = "last (?f # us)"
  have "w \<noteq> ?f" if "w \<in> set us" for w using that l y(3) by auto
  then have "malloc_loop n ?f (ptr h ?f) h = malloc_loop n ?p z h"
    using l w(3) by (intro malloc_walk) blast+
  then have run: "malloc_loop n ?f (ptr h ?f) h = Some (take_block n ?p z h)"
    using malloc_hit[OF w(2)] by metis
  have "z \<in> set (ys @ [?f])" unfolding w(1) by simp
  then have zin: "z \<in> set (base h # map fst R)" using y(2) by auto
  have "z \<noteq> base h" using rd(3) w(2) n by auto
  then obtain k where "(z, k) \<in> set R" using zin by auto
  then obtain A B where R: "R = A @ (z, k) # B" by (auto simp: in_set_conv_decomp)
  have "set (?f # us) \<subseteq> set (base h # map fst R)" unfolding y(2)[symmetric] using l by auto
  then have "?p \<in> set (base h # map fst R)" by (rule subsetD) (rule last_in_set, simp)
  moreover have "ptr h ?p = z" using l by (intro links_last) simp
  ultimately have "?p = last (base h # map fst A)"
    using links_pred[of "ptr h" "base h" "map fst A" z "map fst B" ?p] rd(1) ring_nodes(1)[OF r] R by simp
  moreover have "n \<le> k" using rd(2) R w(2) by simp
  ultimately show ?thesis using R run by metis
qed

lemma malloc_none:
  assumes ok: "heap_ok h R" and n: "0 < n" and none: "\<forall>(x, k)\<in>set R. \<not> n \<le> k"
  shows "malloc_loop n (freep h) (ptr h (freep h)) h =
    Option.bind (morecore n h) (\<lambda>(q, h1). if q = 0 then Some (0, h1) else malloc_loop n q (ptr h1 q) h1)"
proof -
  have r: "ring_ok h R" using ok by (simp add: heap_ok_def)
  let ?f = "freep h"
  obtain ys where y: "links (ptr h) ?f ys ?f" "set (?f # ys) = set (base h # map fst R)" "distinct (?f # ys)" using free_ring[OF ok] by blast
  have small: "\<not> n \<le> units h w" if w: "w \<in> set (base h # map fst R)" for w
  proof (cases "w = base h")
    case True
    then show ?thesis using ring_okD(3)[OF r] n by simp
  next
    case False
    then obtain k where "(w, k) \<in> set R" using w by auto
    then show ?thesis using ring_okD(2)[OF r] none by fastforce
  qed
  then have s: "\<forall>w\<in>set (?f # ys). \<not> n \<le> units h w" unfolding y(2) by blast
  have "malloc_loop n ?f (ptr h ?f) h = malloc_loop n (last (?f # ys)) ?f h"
    using s y(3) by (intro malloc_walk[OF y(1)]) auto
  then show ?thesis using s by (simp add: malloc_loop.simps[of n _ ?f h])
qed

section \<open>More memory\<close>

text \<open>What \<open>morecore\<close> asks for.\<close>

definition core_units :: "uint \<Rightarrow> uint" where
  "core_units n = (if n < 4096 then 4096 else n)"

lemma covered_run:
  "gaps lo R hi \<Longrightarrow> 0 < unat m \<Longrightarrow> bytes b m \<subseteq> covered R \<Longrightarrow> \<exists>(x, k)\<in>set R. bytes b m \<subseteq> bytes x k"
proof (induction lo R hi rule: gaps.induct)
  case (1 lo hi)
  then show ?case by (auto simp: bytes_def)
next
  case (2 lo x k R hi)
  let ?e = "unat x + 16 * unat k"
  have R: "covered R \<subseteq> {?e<..<hi - 1}" using 2(2) by (intro gaps_covered) simp
  have b: "unat b \<in> bytes b m" using 2(3) by (simp add: bytes_def)
  have e: "?e \<notin> covered ((x, k) # R)" using R by (auto simp: bytes_def)
  show ?case
  proof (cases "unat b \<in> bytes x k")
    case True
    have "?e \<notin> bytes b m" using e 2(4) by blast
    then have "bytes b m \<subseteq> bytes x k" using True by (auto simp: bytes_def)
    then show ?thesis by auto
  next
    case False
    then have "unat b \<in> covered R" using b 2(4) by auto
    then have "?e < unat b" using R by auto
    then have "bytes b m \<inter> bytes x k = {}" by (auto simp: bytes_def)
    then have "bytes b m \<subseteq> covered R" using 2(4) by auto
    then show ?thesis using 2(1)[OF _ 2(3)] 2(2) by auto
  qed
qed

lemma morecore_ok:
  assumes ok: "heap_ok h R" and n: "0 < n" and room: "unat (brk h) + 16 * unat (core_units n) < 2 ^ 36" and b: "brk_ok h = True # oks"
  shows "\<exists>g R'. morecore n h = Some (freep g, g) \<and> freep g \<noteq> 0 \<and> heap_ok g R' \<and> covered R' = covered R \<union> bytes (brk h) (core_units n) \<and>
    base g = base h \<and> brk_ok g = oks \<and> unat (brk g) = unat (brk h) + 16 * unat (core_units n) \<and>
    (\<forall>x. x \<noteq> base h \<and> unat x \<notin> covered R \<and> x \<noteq> brk h \<longrightarrow> hdr g x = hdr h x)"
proof -
  let ?m = "core_units n" and ?b = "brk h"
  note r = ring_okD[of h R]
  have ro: "ring_ok h R" using ok by (simp add: heap_ok_def)
  note rd = ring_okD[OF ro]
  define h1 where "h1 = set_hdr ?b (\<lambda>x. x\<lparr>h_size := ?m\<rparr>) (h\<lparr>brk := ?b + ucast ?m * 16, brk_ok := oks\<rparr>)"
  have m: "0 < ?m" "0 < unat ?m" using n by (auto simp: core_units_def word_less_nat_alt)
  have br: "unat (?b + ucast ?m * 16) = unat ?b + 16 * unat ?m"
    using unat_hplus[of ?b ?m] room by (simp add: hplus_def mult.commute)
  have h1: "base h1 = base h" "brk h1 = ?b + ucast ?m * 16" "brk_ok h1 = oks" "freep h1 = freep h" "units h1 ?b = ?m" "ptr h1 = ptr h"
    by (simp_all add: h1_def fun_eq_iff)
  have same: "hdr h1 x = hdr h x" if "x \<noteq> ?b" for x using that by (simp add: h1_def)
  have "unat x < unat ?b" if "(x, k) \<in> set R" for x k using gaps_bound[OF rd(5) that] by (auto simp: word_less_nat_alt)
  then have nb: "?b \<noteq> x" if "(x, k) \<in> set R" for x k using that by fastforce
  have ba: "?b \<noteq> base h" using rd(6) by auto
  have "gaps (unat (base h) + 15) R (unat (brk h1) + 1)" using gaps_mono[OF rd(5)] br by (simp add: h1(2))
  moreover have "\<forall>(x, k)\<in>set R. units h1 x = k" using rd(2) nb same by fastforce
  moreover have "units h1 (base h) = 0" using rd(3) ba same by metis
  ultimately have "ring_ok h1 R" using rd(1,4,6) room br unfolding ring_ok_def h1(1,6) by (simp add: h1(2))
  then have hk: "heap_ok h1 R" using ok by (simp add: heap_ok_def h1)
  have d: "bytes ?b (units h1 ?b) \<inter> covered R = {}"
    unfolding h1(5) using gaps_covered[OF rd(5)] by (auto simp: bytes_def)
  obtain g R' where g: "free (?b + 16) h1 = Some g" "heap_ok g R'" "covered R' = covered R \<union> bytes ?b ?m" "base g = base h" "brk g = brk h1"
      "brk_ok g = oks" "freep g \<noteq> 0" "\<forall>x. x \<noteq> ?b \<and> x \<noteq> base h \<and> unat x \<notin> covered R \<longrightarrow> hdr g x = hdr h1 x"
    using free_ok[OF hk _ _ _ d] m rd(6) br unfolding h1(1,3,5) by (auto simp: h1(2))
  have "?b \<noteq> - 1"
  proof
    assume "?b = - 1"
    then have "unat ?b = 2 ^ 64 - 1" by (simp add: unsigned_minus_1_eq_mask mask_eq_exp_minus_1)
    then show False using rd(7) by simp
  qed
  then have "morecore n h = Some (freep g, g)"
    using g(1) b by (simp add: morecore_def usbrk_def Let_def core_units_def[symmetric] h1_def)
  then show ?thesis using g br same h1(2) by (intro exI[of _ g] exI[of _ R']) auto
qed

lemma morecore_fails:
  "(\<forall>oks. brk_ok h \<noteq> True # oks) \<Longrightarrow> \<exists>oks. morecore n h = Some (0, h\<lparr>brk_ok := oks\<rparr>)"
  by (auto simp: morecore_def usbrk_def Let_def split: list.splits bool.splits intro: exI[of _ "brk_ok h"])

section \<open>\<open>malloc\<close>\<close>

text \<open>The memory a run of \<open>malloc\<close> works on: what was free, and what it got from the kernel.\<close>

definition fresh :: "heap \<Rightarrow> heap \<Rightarrow> nat set" where
  "fresh h g = {unat (brk h)..<unat (brk g)}"

definition gave :: "heap \<Rightarrow> region list \<Rightarrow> uint \<Rightarrow> addr_t \<Rightarrow> heap \<Rightarrow> region list \<Rightarrow> bool" where
  "gave h R n r g R' \<longleftrightarrow> heap_ok g R' \<and> base g = base h \<and> unat (brk h) \<le> unat (brk g) \<and>
     (\<forall>x. x \<noteq> base h \<and> unat x \<notin> covered R \<union> fresh h g \<longrightarrow> hdr g x = hdr h x) \<and>
     (if r = 0 then covered R' = covered R \<and> brk g = brk h \<and> (\<forall>oks. brk_ok h \<noteq> True # oks)
      else units g (r - 16) = n \<and> bytes (r - 16) n \<subseteq> covered R \<union> fresh h g \<and> covered R' = covered R \<union> fresh h g - bytes (r - 16) n)"

lemma gave_found:
  assumes ok: "heap_ok h R" and n: "0 < n" and fit: "(x, j) \<in> set R" "n \<le> j"
  shows "\<exists>r g R'. malloc_loop n (freep h) (ptr h (freep h)) h = Some (r, g) \<and> r \<noteq> 0 \<and> gave h R n r g R' \<and> brk g = brk h"
proof -
  obtain A z k B where R: "R = A @ (z, k) # B" "n \<le> k"
      and run: "malloc_loop n (freep h) (ptr h (freep h)) h = Some (take_block n (last (base h # map fst A)) z h)"
    using malloc_found[OF ok n fit] by blast
  have r: "ring_ok h (A @ (z, k) # B)" using ok R by (simp add: heap_ok_def)
  obtain q g R' where q: "take_block n (last (base h # map fst A)) z h = (q + 16, g)" "heap_ok g R'" "units g q = n" "bytes q n \<subseteq> bytes z k"
      "covered R' = covered R - bytes q n" "base g = base h" "brk g = brk h"
      "\<forall>x. x \<noteq> base h \<and> unat x \<notin> covered R \<longrightarrow> hdr g x = hdr h x"
    using take_ok[OF r n R(2)] R(1) by metis
  have "unat q \<in> bytes z k" using q(4) n by (auto simp: bytes_def word_less_nat_alt)
  then have "unat q < 2 ^ 36" using gaps_bound[OF ring_okD(5)[OF r], of z k] ring_okD(7)[OF r] by (simp add: bytes_def)
  then have "unat (q + 16) = unat q + 16" by (simp add: unat_word_ariths)
  then have "q + 16 \<noteq> 0" by (metis add_is_0 unat_0 zero_neq_numeral)
  then show ?thesis
    using run q R by (intro exI[of _ "q + 16"] exI[of _ g] exI[of _ R']) (auto simp: gave_def fresh_def)
qed

lemma gave_loop:
  assumes ok: "heap_ok h R" and n: "0 < n" and room: "unat (brk h) + 16 * unat (core_units n) < 2 ^ 36"
  shows "\<exists>r g R'. malloc_loop n (freep h) (ptr h (freep h)) h = Some (r, g) \<and> gave h R n r g R'"
proof (cases "\<exists>(x, k)\<in>set R. n \<le> k")
  case True
  then show ?thesis using gave_found[OF ok n] by blast
next
  case False
  then have none: "\<forall>(x, k)\<in>set R. \<not> n \<le> k" by blast
  note run = malloc_none[OF ok n none]
  show ?thesis
  proof (cases "\<exists>oks. brk_ok h = True # oks")
    case True
    then obtain oks where o: "brk_ok h = True # oks" by blast
    let ?m = "core_units n"
    obtain g R1 where g: "morecore n h = Some (freep g, g)" "freep g \<noteq> 0" "heap_ok g R1" "covered R1 = covered R \<union> bytes (brk h) ?m"
        "base g = base h" "unat (brk g) = unat (brk h) + 16 * unat ?m"
        "\<forall>x. x \<noteq> base h \<and> unat x \<notin> covered R \<and> x \<noteq> brk h \<longrightarrow> hdr g x = hdr h x"
      using morecore_ok[OF ok n room o] by blast
    have m: "0 < unat ?m" "unat n \<le> unat ?m" using n by (auto simp: core_units_def word_less_nat_alt word_le_nat_alt)
    have fr: "fresh h g = bytes (brk h) ?m" by (simp add: fresh_def bytes_def g(6))
    obtain x k where x: "(x, k) \<in> set R1" "bytes (brk h) ?m \<subseteq> bytes x k"
      using covered_run[of _ R1 _ ?m "brk h"] ring_okD(5)[of g R1] g(3,4) m(1) unfolding heap_ok_def by blast
    have "n \<le> k"
    proof -
      have "card (bytes (brk h) ?m) \<le> card (bytes x k)" using x(2) by (intro card_mono) (auto simp: bytes_def)
      then show ?thesis using m(2) by (simp add: bytes_def word_le_nat_alt)
    qed
    then obtain r u R' where u: "malloc_loop n (freep g) (ptr g (freep g)) g = Some (r, u)" "r \<noteq> 0" "gave g R1 n r u R'" "brk u = brk g"
      using gave_found[OF g(3) n x(1)] by blast
    have "fresh h u = fresh h g" "fresh g u = {}" using u(4) by (simp_all add: fresh_def)
    moreover have "unat (brk h) \<in> fresh h g" using m(1) by (simp add: fresh_def g(6))
    ultimately have "gave h R n r u R'" using u(2-4) g(4-7) fr by (auto simp: gave_def)
    then show ?thesis using run g(1,2) u(1) by auto
  next
    case False
    then obtain oks where o: "morecore n h = Some (0, h\<lparr>brk_ok := oks\<rparr>)" using morecore_fails[of h n] by blast
    have "heap_ok (h\<lparr>brk_ok := oks\<rparr>) R" using ok by (simp add: heap_ok_def ring_ok_def)
    then show ?thesis using run o False by (auto simp: gave_def fresh_def)
  qed
qed

lemma malloc_units: "unat (malloc_units nb) = (unat nb + 15) div 16 + 1" "0 < malloc_units nb" "unat nb + 16 \<le> 16 * unat (malloc_units nb)"
proof -
  have b: "unat nb < 2 ^ 32" using unsigned_less[of nb, where ?'a = nat] by simp
  then have c: "unat (ucast nb :: 64 word) = unat nb" by (simp add: unsigned_ucast_eq take_bit_nat_eq_self)
  define w :: "64 word" where "w = ucast nb + 16 - 1"
  have "w = ucast nb + 15" by (simp add: w_def)
  then have "unat w = unat nb + 15" using b c by (simp add: unat_word_ariths)
  then have d: "unat (w div 16) = (unat nb + 15) div 16" by (simp add: unat_div)
  have "(unat nb + 15) div 16 + 1 < 2 ^ 64" using b by simp
  then have "unat (w div 16 + 1) = (unat nb + 15) div 16 + 1" unfolding unat_word_ariths(1) d by simp
  then show u: "unat (malloc_units nb) = (unat nb + 15) div 16 + 1"
    using b by (simp add: malloc_units_def w_def[symmetric] unsigned_ucast_eq take_bit_nat_eq_self)
  then show "0 < malloc_units nb" by (simp add: word_less_nat_alt)
  show "unat nb + 16 \<le> 16 * unat (malloc_units nb)" unfolding u by simp
qed

text \<open>A heap before the first call, or in use.\<close>

definition heap_start :: "heap \<Rightarrow> bool" where
  "heap_start h \<longleftrightarrow> freep h = 0 \<and> base h \<noteq> 0 \<and> unat (base h) + 16 \<le> unat (brk h) \<and> unat (brk h) < 2 ^ 36"

definition mem_left :: "uint \<Rightarrow> heap \<Rightarrow> bool" where
  "mem_left nb h \<longleftrightarrow> unat (brk h) + 16 * unat (core_units (malloc_units nb)) < 2 ^ 36"

lemma heap_ok_freep: "heap_ok h R \<Longrightarrow> freep h \<noteq> 0"
  using ring_nodes(4)[of h R] ring_okD(4)[of h R] by (auto simp: heap_ok_def)

lemma malloc_ok:
  assumes h: "heap_ok h R \<or> heap_start h \<and> R = []" and room: "mem_left nb h"
  shows "\<exists>r g R'. malloc nb h = Some (r, g) \<and> gave h R (malloc_units nb) r g R'"
  using h
proof
  assume ok: "heap_ok h R"
  then show ?thesis using gave_loop[OF ok malloc_units(2)] room heap_ok_freep[OF ok] by (simp add: malloc_def mem_left_def)
next
  assume s: "heap_start h \<and> R = []"
  define h1 where "h1 = (set_hdr (base h) (\<lambda>_. \<lparr>h_ptr = base h, h_size = 0\<rparr>) h)\<lparr>freep := base h\<rparr>"
  have ok: "heap_ok h1 []" using s by (simp add: heap_ok_def ring_ok_def h1_def heap_start_def)
  have "unat (brk h1) + 16 * unat (core_units (malloc_units nb)) < 2 ^ 36" using room by (simp add: mem_left_def h1_def)
  then obtain r g R' where g: "malloc_loop (malloc_units nb) (freep h1) (ptr h1 (freep h1)) h1 = Some (r, g)" "gave h1 [] (malloc_units nb) r g R'"
    using gave_loop[OF ok malloc_units(2)] by blast
  have "malloc nb h = Some (r, g)" using g(1) s by (simp add: malloc_def Let_def h1_def heap_start_def)
  moreover have "base h1 = base h" "brk h1 = brk h" "brk_ok h1 = brk_ok h" "fresh h1 g = fresh h g" "\<And>x. x \<noteq> base h \<Longrightarrow> hdr h1 x = hdr h x"
    by (simp_all add: h1_def fresh_def)
  then have "gave h [] (malloc_units nb) r g R'" using g(2) by (simp add: gave_def split: if_splits)
  ultimately show ?thesis using s by blast
qed

section \<open>Programs that use the allocator\<close>

text \<open>
  A program calls \<open>malloc\<close> and \<open>free\<close>, the latter only with pointers it got and has not freed, and writes into
  the blocks it has. \<open>L\<close> is the set of the pointers it has. A write changes no header that lies wholly outside the
  memory of the program's blocks.
\<close>

definition blk :: "heap \<Rightarrow> addr_t \<Rightarrow> nat set" where
  "blk h r = bytes (r - 16) (units h (r - 16))"

definition payload :: "heap \<Rightarrow> addr_t \<Rightarrow> nat set" where
  "payload h r = blk h r - {..<unat (r - 16) + 16}"

inductive uses :: "heap \<Rightarrow> addr_t set \<Rightarrow> bool" where
  start: "heap_start h \<Longrightarrow> uses h {}"
| alloc: "uses h L \<Longrightarrow> mem_left nb h \<Longrightarrow> malloc nb h = Some (r, g) \<Longrightarrow> uses g (if r = 0 then L else insert r L)"
| release: "uses h L \<Longrightarrow> r \<in> L \<Longrightarrow> free r h = Some g \<Longrightarrow> uses g (L - {r})"
| store: "uses h L \<Longrightarrow> g = h\<lparr>hdr := f\<rparr> \<Longrightarrow> (\<And>x. {unat x..<unat x + 16} \<inter> (\<Union>r\<in>L. payload h r) = {} \<Longrightarrow> f x = hdr h x) \<Longrightarrow> uses g L"

definition live_ok :: "heap \<Rightarrow> region list \<Rightarrow> addr_t set \<Rightarrow> bool" where
  "live_ok h R L \<longleftrightarrow> (\<forall>r\<in>L. 0 < units h (r - 16) \<and> unat (base h) + 15 < unat (r - 16) \<and> blk h r \<subseteq> {..<unat (brk h)} \<and> blk h r \<inter> covered R = {} \<and>
     (\<forall>q\<in>L. r \<noteq> q \<longrightarrow> blk h r \<inter> blk h q = {}))"

definition uses_inv :: "heap \<Rightarrow> region list \<Rightarrow> addr_t set \<Rightarrow> bool" where
  "uses_inv h R L \<longleftrightarrow> (heap_ok h R \<or> heap_start h \<and> R = [] \<and> L = {}) \<and> live_ok h R L"

lemma blk_start: "0 < units h (r - 16) \<Longrightarrow> unat (r - 16) \<in> blk h r"
  by (auto simp: blk_def bytes_def word_less_nat_alt)

lemma uses_alloc:
  assumes i: "uses_inv h R L" and g: "gave h R (malloc_units nb) r g R'" and r: "r \<noteq> 0"
  shows "uses_inv g R' (insert r L)" "q \<in> L \<Longrightarrow> units g (q - 16) = units h (q - 16) \<and> blk g q = blk h q" "r \<notin> L"
proof -
  have l: "live_ok h R L" using i by (simp add: uses_inv_def)
  have gd: "heap_ok g R'" "base g = base h" "unat (brk h) \<le> unat (brk g)" "units g (r - 16) = malloc_units nb"
      "\<And>x. x \<noteq> base h \<Longrightarrow> unat x \<notin> covered R \<Longrightarrow> unat x \<notin> fresh h g \<Longrightarrow> hdr g x = hdr h x"
    using g r by (simp_all add: gave_def)
  have gr: "blk g r \<subseteq> covered R \<union> fresh h g" "covered R' = covered R \<union> fresh h g - blk g r" using g r by (simp_all add: gave_def blk_def)
  have same: "units g (q - 16) = units h (q - 16) \<and> blk g q = blk h q" if q: "q \<in> L" for q
  proof -
    have b: "unat (q - 16) \<in> blk h q" "blk h q \<subseteq> {..<unat (brk h)}" "blk h q \<inter> covered R = {}" "unat (base h) + 15 < unat (q - 16)"
      using l q blk_start[of h q] by (auto simp: live_ok_def)
    then have "hdr g (q - 16) = hdr h (q - 16)" by (intro gd(5)) (auto simp: fresh_def)
    then show ?thesis by (simp add: blk_def)
  qed
  then show "q \<in> L \<Longrightarrow> units g (q - 16) = units h (q - 16) \<and> blk g q = blk h q" by blast
  have apart: "blk h q \<inter> (covered R \<union> fresh h g) = {}" if "q \<in> L" for q
  proof -
    have "blk h q \<subseteq> {..<unat (brk h)}" "blk h q \<inter> covered R = {}" using l that by (auto simp: live_ok_def)
    then show ?thesis by (auto simp: fresh_def)
  qed
  have rs: "unat (r - 16) \<in> blk g r" using blk_start[of g r] malloc_units(2) by (simp add: gd(4))
  show new: "r \<notin> L"
  proof
    assume rL: "r \<in> L"
    then have "unat (r - 16) \<in> blk h r" using rs same by blast
    then show False using apart[OF rL] rs gr(1) by blast
  qed
  have ring: "ring_ok g R'" using gd(1) by (simp add: heap_ok_def)
  have lowR: "covered R \<union> fresh h g \<subseteq> {unat (base h) + 15<..<unat (brk g)}"
  proof -
    have "covered R \<subseteq> {unat (base h) + 15<..<unat (brk h)}" "unat (base h) + 16 \<le> unat (brk h)"
      using i gaps_covered[OF ring_okD(5)[of h R]] ring_okD(6)[of h R] by (auto simp: uses_inv_def heap_ok_def heap_start_def)
    then show ?thesis using gd(3) by (auto simp: fresh_def)
  qed
  have low: "blk g r \<subseteq> {unat (base h) + 15<..<unat (brk g)}" using gr(1) lowR by (rule subset_trans)
  then have "blk g r \<subseteq> {..<unat (brk g)}" "unat (base h) + 15 < unat (r - 16)" using subsetD[OF low rs] by auto
  moreover have "blk g q \<inter> blk g r = {}" "blk g q \<inter> covered R' = {}" if "q \<in> L" for q
    using same[OF that] apart[OF that] gr by auto
  moreover have "blk g q \<subseteq> {..<unat (brk g)}" if q: "q \<in> L" for q
  proof -
    have "blk g q \<subseteq> {..<unat (brk h)}" using same[OF q] l q by (simp add: live_ok_def)
    also have "\<dots> \<subseteq> {..<unat (brk g)}" using gd(3) by auto
    finally show ?thesis .
  qed
  moreover have "0 < units g (q - 16)" "unat (base h) + 15 < unat (q - 16)" "\<forall>p\<in>L. q \<noteq> p \<longrightarrow> blk g q \<inter> blk g p = {}" if "q \<in> L" for q
    using same l that by (auto simp: live_ok_def)
  ultimately have "live_ok g R' (insert r L)"
    using gr(2) gd(4) malloc_units(2)[of nb] unfolding live_ok_def gd(2) by (auto simp: Int_commute)
  then show "uses_inv g R' (insert r L)" using gd(1) by (simp add: uses_inv_def)
qed

lemma uses_release:
  assumes i: "uses_inv h R L" and r: "r \<in> L"
  shows "\<exists>g R'. free r h = Some g \<and> uses_inv g R' (L - {r})"
proof -
  have l: "live_ok h R L" and ok: "heap_ok h R" using i r by (auto simp: uses_inv_def)
  have b: "0 < units h (r - 16)" "unat (base h) + 15 < unat (r - 16)" "blk h r \<subseteq> {..<unat (brk h)}" "blk h r \<inter> covered R = {}"
    "\<And>q. q \<in> L \<Longrightarrow> q \<noteq> r \<Longrightarrow> blk h q \<inter> blk h r = {}"
    using l r by (auto simp: live_ok_def)
  have "unat (r - 16) + 16 * unat (units h (r - 16)) \<le> unat (brk h)"
  proof (rule ccontr)
    assume "\<not> ?thesis"
    then have "unat (brk h) \<in> blk h r \<or> unat (brk h) < unat (r - 16)" by (auto simp: blk_def bytes_def)
    then show False using b(3) blk_start[OF b(1)] by auto
  qed
  then obtain g R' where g: "free (r - 16 + 16) h = Some g" "heap_ok g R'" "covered R' = covered R \<union> blk h r" "base g = base h" "brk g = brk h"
      "\<forall>x. x \<noteq> r - 16 \<and> x \<noteq> base h \<and> unat x \<notin> covered R \<longrightarrow> hdr g x = hdr h x"
    using free_ok[OF ok b(1,2)] b(4) unfolding blk_def by blast
  have same: "blk g q = blk h q \<and> units g (q - 16) = units h (q - 16)" if q: "q \<in> L - {r}" for q
  proof -
    have s: "unat (q - 16) \<in> blk h q" "blk h q \<inter> covered R = {}" "unat (base h) + 15 < unat (q - 16)"
      using l q blk_start[of h q] by (auto simp: live_ok_def)
    then have "unat (q - 16) \<notin> covered R" "q - 16 \<noteq> base h" "q - 16 \<noteq> r - 16" using q by auto
    then have "hdr g (q - 16) = hdr h (q - 16)" using g(6) by blast
    then show ?thesis by (simp add: blk_def)
  qed
  have "live_ok g R' (L - {r})"
    unfolding live_ok_def g(3-5)
  proof (intro ballI conjI impI)
    fix q assume q: "q \<in> L - {r}"
    note lq = l[unfolded live_ok_def, THEN bspec, of q]
    show "0 < units g (q - 16)" "unat (base h) + 15 < unat (q - 16)" "blk g q \<subseteq> {..<unat (brk h)}" "blk g q \<inter> (covered R \<union> blk h r) = {}"
      using same[OF q] lq q b(5)[of q] by (auto simp: Int_Un_distrib)
    show "blk g q \<inter> blk g p = {}" if "p \<in> L - {r}" "q \<noteq> p" for p using same[OF q] same[OF that(1)] lq q that by auto
  qed
  then show ?thesis using g(1,2) by (auto simp: uses_inv_def)
qed

lemma uses_store:
  assumes i: "uses_inv h R L" and f: "\<And>x. {unat x..<unat x + 16} \<inter> (\<Union>r\<in>L. payload h r) = {} \<Longrightarrow> f x = hdr h x"
  shows "uses_inv (h\<lparr>hdr := f\<rparr>) R L"
proof -
  let ?g = "h\<lparr>hdr := f\<rparr>"
  have l: "live_ok h R L" using i by (simp add: uses_inv_def)
  have sub: "payload h r \<subseteq> blk h r" for r by (auto simp: payload_def)
  have lv: "f (r - 16) = hdr h (r - 16)" if r: "r \<in> L" for r
  proof (rule f)
    have "{unat (r - 16)..<unat (r - 16) + 16} \<subseteq> blk h r" using l r by (auto simp: live_ok_def blk_def bytes_def word_less_nat_alt)
    moreover have "blk h r \<inter> blk h q = {}" if "q \<in> L" "q \<noteq> r" for q using l r that by (auto simp: live_ok_def)
    ultimately have "{unat (r - 16)..<unat (r - 16) + 16} \<inter> payload h q = {}" if "q \<in> L" for q
      using that sub[of q] by (cases "q = r") (fastforce simp: payload_def)+
    then show "{unat (r - 16)..<unat (r - 16) + 16} \<inter> (\<Union>r\<in>L. payload h r) = {}" by blast
  qed
  then have b: "blk ?g r = blk h r" "units ?g (r - 16) = units h (r - 16)" if "r \<in> L" for r using that by (simp_all add: blk_def)
  have live: "live_ok ?g R L" using l b by (auto simp: live_ok_def)
  have "heap_ok ?g R" if ok: "heap_ok h R"
  proof -
    have ro: "ring_ok h R" using ok by (simp add: heap_ok_def)
    note rd = ring_okD[OF ro]
    have low: "unat (base h) + 15 < y" if "r \<in> L" "y \<in> payload h r" for r y
      using that l by (auto simp: live_ok_def payload_def)
    have fb: "f (base h) = hdr h (base h)" by (rule f) (use low in fastforce)
    have fx: "f x = hdr h x" if x: "(x, k) \<in> set R" for x k
    proof (rule f)
      have "{unat x..<unat x + 16} \<subseteq> covered R"
        using gaps_bound[OF rd(5) x] x by (force simp: covered_def bytes_def word_less_nat_alt)
      then show "{unat x..<unat x + 16} \<inter> (\<Union>r\<in>L. payload h r) = {}" using l sub by (fastforce simp: live_ok_def)
    qed
    have "f x = hdr h x" if "x \<in> set (base h # map fst R)" for x using that fb fx by auto
    then have "links (ptr ?g) (base h) (map fst R) (base h)"
      using rd(1) by (subst links_cong[of _ _ _ "ptr h"]) auto
    moreover have "\<forall>(x, k)\<in>set R. units ?g x = k" using rd(2) fx by fastforce
    ultimately have "ring_ok ?g R" using rd fb by (simp add: ring_ok_def)
    then show ?thesis using ok by (simp add: heap_ok_def)
  qed
  then show ?thesis using i live by (auto simp: uses_inv_def heap_start_def)
qed

lemma uses_inv_holds: "uses h L \<Longrightarrow> \<exists>R. uses_inv h R L"
proof (induction rule: uses.induct)
  case (start h)
  then show ?case by (intro exI[of _ "[]"]) (simp add: uses_inv_def live_ok_def)
next
  case (alloc h L nb r g)
  then obtain R where i: "uses_inv h R L" by blast
  then obtain R' where g: "gave h R (malloc_units nb) r g R'"
    using malloc_ok[of h R nb] alloc.hyps(2,3) by (auto simp: uses_inv_def)
  show ?case
  proof (cases "r = 0")
    case False
    then show ?thesis using uses_alloc(1)[OF i g] by auto
  next
    case True
    then have gd: "heap_ok g R'" "base g = base h" "covered R' = covered R" "brk g = brk h" "fresh h g = {}"
        "\<And>x. x \<noteq> base h \<Longrightarrow> unat x \<notin> covered R \<Longrightarrow> hdr g x = hdr h x"
      using g by (auto simp: gave_def fresh_def)
    have l: "live_ok h R L" using i by (simp add: uses_inv_def)
    have "hdr g (q - 16) = hdr h (q - 16)" if "q \<in> L" for q
      using l that blk_start[of h q] by (intro gd(6)) (auto simp: live_ok_def)
    then have "live_ok g R' L" using l by (auto simp: live_ok_def gd blk_def)
    then show ?thesis using gd(1) True by (auto simp: uses_inv_def)
  qed
next
  case (release h L r g)
  then show ?case using uses_release by fastforce
next
  case (store h L g f)
  then show ?case using uses_store by blast
qed

text \<open>
  Claim C9. The allocator gives out memory that nobody else has. In every state a program can reach, the blocks it
  has are disjoint; \<open>free\<close> of each of them ends; and while the address space lasts \<open>malloc\<close> ends too. It
  returns a null pointer only if the kernel refused more memory; otherwise the new block has room for its header and the
  bytes asked for, is disjoint from every block the program has, and leaves those blocks as they are.
\<close>

theorem umalloc_safe:
  assumes "uses h L"
  shows "(\<forall>r\<in>L. \<forall>q\<in>L. r \<noteq> q \<longrightarrow> blk h r \<inter> blk h q = {}) \<and> (\<forall>r\<in>L. \<exists>g. free r h = Some g) \<and>
    (\<forall>nb. mem_left nb h \<longrightarrow> (\<exists>r g. malloc nb h = Some (r, g) \<and>
       (if r = 0 then \<forall>oks. brk_ok h \<noteq> True # oks
        else r \<notin> L \<and> unat nb + 16 \<le> 16 * unat (units g (r - 16)) \<and> (\<forall>q\<in>L. blk g q = blk h q \<and> blk g r \<inter> blk g q = {}))))"
proof -
  obtain R where i: "uses_inv h R L" using uses_inv_holds[OF assms] by blast
  have "\<exists>r g. malloc nb h = Some (r, g) \<and> (if r = 0 then \<forall>oks. brk_ok h \<noteq> True # oks
      else r \<notin> L \<and> unat nb + 16 \<le> 16 * unat (units g (r - 16)) \<and> (\<forall>q\<in>L. blk g q = blk h q \<and> blk g r \<inter> blk g q = {}))"
    if m: "mem_left nb h" for nb
  proof -
    obtain r g R' where g: "malloc nb h = Some (r, g)" "gave h R (malloc_units nb) r g R'"
      using malloc_ok[OF _ m, of R] i by (auto simp: uses_inv_def)
    show ?thesis
    proof (cases "r = 0")
      case True
      then show ?thesis using g by (simp add: gave_def)
    next
      case False
      note u = uses_alloc[OF i g(2) False]
      have "\<forall>q\<in>L. blk g r \<inter> blk g q = {}" using u(1,3) by (auto simp: uses_inv_def live_ok_def)
      moreover have "units g (r - 16) = malloc_units nb" using g(2) False by (simp add: gave_def)
      ultimately show ?thesis using g(1) False u(2,3) malloc_units(3)[of nb] by auto
    qed
  qed
  moreover have "\<forall>r\<in>L. \<exists>g. free r h = Some g" using uses_release[OF i] by blast
  moreover have "\<forall>r\<in>L. \<forall>q\<in>L. r \<noteq> q \<longrightarrow> blk h r \<inter> blk h q = {}" using i by (simp add: uses_inv_def live_ok_def)
  ultimately show ?thesis by blast
qed

text \<open>A first allocation of 100 bytes, and its release.\<close>

definition demo_heap :: heap where
  "demo_heap = \<lparr>hdr = (\<lambda>_. \<lparr>h_ptr = 0, h_size = 0\<rparr>), base = 0x1000, freep = 0, brk = 0x2000, brk_ok = [True]\<rparr>"

theorem umalloc_safe_witness:
  "\<exists>r g k. malloc 100 demo_heap = Some (r, g) \<and> r \<noteq> 0 \<and> 116 \<le> 16 * unat (units g (r - 16)) \<and> uses g {r} \<and> free r g = Some k"
proof -
  have s: "uses demo_heap {}" by (rule uses.start) (simp add: heap_start_def demo_heap_def)
  have m: "mem_left 100 demo_heap"
    by (simp add: mem_left_def core_units_def word_less_nat_alt malloc_units(1) demo_heap_def)
  obtain r g where g: "malloc 100 demo_heap = Some (r, g)" "r \<noteq> 0" "116 \<le> 16 * unat (units g (r - 16))"
    using umalloc_safe[OF s] m by (fastforce simp: demo_heap_def split: if_splits)
  have u: "uses g {r}" using uses.alloc[OF s m g(1)] g(2) by simp
  then show ?thesis using umalloc_safe[OF u] g by blast
qed

end
