(* ===== verification/Grep.thy ===== *)
theory Grep
  imports Prelude
begin

text \<open>
  \<^verbatim>\<open>grep.c\<close>: the regular expression matcher and the loop that prints matching lines. A C string is the list
  of its bytes before the terminator, so \<open>re[1]\<close> of a one-character pattern is the terminator. The input of
  \<open>grep\<close> is the list of what successive calls of \<open>read\<close> store in the buffer; after the last of them \<open>read\<close>
  returns 0.
\<close>

section \<open>The matcher (grep.c)\<close>

function matchhere :: "uchar list \<Rightarrow> uchar list \<Rightarrow> bool"
  and matchstar :: "uchar \<Rightarrow> uchar list \<Rightarrow> uchar list \<Rightarrow> bool" where
  "matchhere re xs =
     (if re = [] then True
      else if tl re \<noteq> [] \<and> hd (tl re) = 42 then matchstar (hd re) (tl (tl re)) xs
      else if hd re = 36 \<and> tl re = [] then xs = []
      else if xs \<noteq> [] \<and> (hd re = 46 \<or> hd re = hd xs) then matchhere (tl re) (tl xs)
      else False)"
| "matchstar c re xs =
     (if matchhere re xs then True
      else if xs \<noteq> [] \<and> (hd xs = c \<or> c = 46) then matchstar c re (tl xs)
      else False)"
  by pat_completeness auto
termination
  by (relation "inv_image (less_than <*lex*> less_than <*lex*> less_than)
        (\<lambda>x. case x of Inl (re, xs) \<Rightarrow> (length re, length xs, 0 :: nat) | Inr (c, re, xs) \<Rightarrow> (length re, length xs, 1))") auto

declare matchhere.simps [simp del] matchstar.simps [simp del]

text \<open>The do loop of \<open>match\<close>.\<close>

primrec match_from :: "uchar list \<Rightarrow> uchar list \<Rightarrow> bool" where
  "match_from re [] = matchhere re []"
| "match_from re (c # cs) = (if matchhere re (c # cs) then True else match_from re cs)"

definition match :: "uchar list \<Rightarrow> uchar list \<Rightarrow> bool" where
  "match re xs = (if re \<noteq> [] \<and> hd re = 94 then matchhere (tl re) xs else match_from re xs)"

section \<open>Printing lines (grep.c)\<close>

text \<open>
  The inner loop: \<open>strchr(p, '\n')\<close> finds the next newline before any zero byte. The result is what is
  written and what is left at \<open>p\<close>.
\<close>

function grep_lines :: "uchar list \<Rightarrow> uchar list \<Rightarrow> uchar list list \<times> uchar list" where
  "grep_lines pattern p =
     (let line = takeWhile (\<lambda>c. c \<noteq> 10 \<and> c \<noteq> 0) p; q = dropWhile (\<lambda>c. c \<noteq> 10 \<and> c \<noteq> 0) p in
      if q = [] \<or> hd q = 0 then ([], p)
      else let (out, rest) = grep_lines pattern (tl q) in
        (if match pattern line then (line @ [10]) # out else out, rest))"
  by pat_completeness auto
termination
proof (relation "measure (\<lambda>(_, p). length p)")
  fix pattern p line q :: "uchar list"
  assume "q = dropWhile (\<lambda>c. c \<noteq> 10 \<and> c \<noteq> 0) p" and "\<not> (q = [] \<or> hd q = 0)"
  then have "q \<noteq> []" "length q \<le> length p"
    using length_dropWhile_le[of "\<lambda>c. c \<noteq> 10 \<and> c \<noteq> 0" p] by blast+
  then show "((pattern, tl q), pattern, p) \<in> measure (\<lambda>(_, p). length p)"
    by (cases q) auto
qed simp

declare grep_lines.simps [simp del]

text \<open>The outer loop, with the \<open>m\<close> bytes of an unfinished line kept in \<open>keep\<close>.\<close>

primrec grep :: "uchar list \<Rightarrow> uchar list \<Rightarrow> uchar list list \<Rightarrow> uchar list list" where
  "grep pattern keep [] = []"
| "grep pattern keep (bs # reads) =
     (let buf = keep @ bs; (out, p) = grep_lines pattern buf in
      out @ grep pattern (if length p = length buf then [] else p) reads)"

section \<open>What a pattern means\<close>

text \<open>A pattern is a list of items, possibly anchored at the end.\<close>

datatype item = One uchar | Star uchar

fun items :: "uchar list \<Rightarrow> item list \<times> bool" where
  "items [] = ([], False)"
| "items [c] = (if c = 36 then ([], True) else ([One c], False))"
| "items (c # d # re) =
     (if d = 42 then let (is, e) = items re in (Star c # is, e)
      else let (is, e) = items (d # re) in (One c # is, e))"

definition fits :: "uchar \<Rightarrow> uchar \<Rightarrow> bool" where
  "fits c a \<longleftrightarrow> c = 46 \<or> c = a"

fun lang :: "item list \<Rightarrow> uchar list set" where
  "lang [] = {[]}"
| "lang (One c # is) = {a # u |a u. fits c a \<and> u \<in> lang is}"
| "lang (Star c # is) = {w @ u |w u. (\<forall>a \<in> set w. fits c a) \<and> u \<in> lang is}"

definition here :: "uchar list \<Rightarrow> uchar list \<Rightarrow> bool" where
  "here re xs \<longleftrightarrow> (\<exists>u v. xs = u @ v \<and> u \<in> lang (fst (items re)) \<and> (snd (items re) \<longrightarrow> v = []))"

definition matches :: "uchar list \<Rightarrow> uchar list \<Rightarrow> bool" where
  "matches re xs \<longleftrightarrow>
     (if re \<noteq> [] \<and> hd re = 94 then here (tl re) xs
      else \<exists>w v. xs = w @ v \<and> here re v)"

lemma here_Nil: "here [] xs"
  by (simp add: here_def)

lemma here_end: "here [36] xs \<longleftrightarrow> xs = []"
  by (auto simp: here_def)

lemma here_One:
  assumes "re = [] \<or> hd re \<noteq> 42" and "\<not> (c = 36 \<and> re = [])"
  shows "here (c # re) xs \<longleftrightarrow> xs \<noteq> [] \<and> fits c (hd xs) \<and> here re (tl xs)"
proof -
  have "fst (items (c # re)) = One c # fst (items re)" "snd (items (c # re)) = snd (items re)"
    using assms by (cases re; auto split: prod.split)+
  then have "here (c # re) xs \<longleftrightarrow>
      (\<exists>w v. xs = w @ v \<and> (\<exists>a u. w = a # u \<and> fits c a \<and> u \<in> lang (fst (items re))) \<and> (snd (items re) \<longrightarrow> v = []))"
    by (simp add: here_def)
  also have "\<dots> \<longleftrightarrow> (\<exists>a u v. xs = (a # u) @ v \<and> fits c a \<and> u \<in> lang (fst (items re)) \<and> (snd (items re) \<longrightarrow> v = []))"
    by blast
  also have "\<dots> \<longleftrightarrow> xs \<noteq> [] \<and> fits c (hd xs) \<and> here re (tl xs)"
    by (cases xs) (simp_all add: here_def, blast)
  finally show ?thesis .
qed

lemma here_Star:
  "here (c # 42 # re) xs \<longleftrightarrow> here re xs \<or> xs \<noteq> [] \<and> fits c (hd xs) \<and> here (c # 42 # re) (tl xs)"
proof -
  let ?e = "snd (items re)"
  have it: "fst (items (c # 42 # re)) = Star c # fst (items re)" "snd (items (c # 42 # re)) = ?e"
    by (auto split: prod.split)
  have star: "here (c # 42 # re) t \<longleftrightarrow> (\<exists>w t'. t = w @ t' \<and> (\<forall>a \<in> set w. fits c a) \<and> here re t')" for t
  proof -
    have "here (c # 42 # re) t \<longleftrightarrow>
        (\<exists>x v. t = x @ v \<and> (\<exists>w u. x = w @ u \<and> (\<forall>a \<in> set w. fits c a) \<and> u \<in> lang (fst (items re))) \<and> (?e \<longrightarrow> v = []))"
      by (simp only: here_def it lang.simps mem_Collect_eq)
    also have "\<dots> \<longleftrightarrow> (\<exists>w u v. t = (w @ u) @ v \<and> (\<forall>a \<in> set w. fits c a) \<and> u \<in> lang (fst (items re)) \<and> (?e \<longrightarrow> v = []))"
      by blast
    also have "\<dots> \<longleftrightarrow> (\<exists>w t'. t = w @ t' \<and> (\<forall>a \<in> set w. fits c a) \<and> here re t')"
      by (simp only: here_def append_assoc) blast
    finally show ?thesis .
  qed
  show ?thesis
  proof
    assume "here (c # 42 # re) xs"
    then obtain w t' where w: "xs = w @ t'" "\<forall>a \<in> set w. fits c a" "here re t'" by (auto simp: star)
    then show "here re xs \<or> xs \<noteq> [] \<and> fits c (hd xs) \<and> here (c # 42 # re) (tl xs)"
      by (cases w) (auto simp: star)
  next
    assume "here re xs \<or> xs \<noteq> [] \<and> fits c (hd xs) \<and> here (c # 42 # re) (tl xs)"
    then show "here (c # 42 # re) xs"
    proof
      assume "here re xs"
      then show ?thesis by (auto simp: star intro: exI[of _ "[]"])
    next
      assume h: "xs \<noteq> [] \<and> fits c (hd xs) \<and> here (c # 42 # re) (tl xs)"
      then obtain w t' where "tl xs = w @ t'" "\<forall>a \<in> set w. fits c a" "here re t'" by (auto simp: star)
      with h have "xs = (hd xs # w) @ t'" "\<forall>a \<in> set (hd xs # w). fits c a" "here re t'"
        by (cases xs; auto)+
      then show ?thesis unfolding star by blast
    qed
  qed
qed

lemma matchhere_here: "matchhere re xs \<longleftrightarrow> here re xs"
  and matchstar_here: "matchstar c re xs \<longleftrightarrow> here (c # 42 # re) xs"
proof (induction re xs and c re xs rule: matchhere_matchstar.induct)
  case (1 re xs)
  show ?case
  proof (cases re)
    case Nil
    then show ?thesis by (simp add: matchhere.simps here_Nil)
  next
    case (Cons c r)
    then show ?thesis
    proof (cases "r \<noteq> [] \<and> hd r = 42")
      case True
      then have re: "re = c # 42 # tl r" using Cons by (cases r) auto
      show ?thesis using 1(1) True Cons by (subst matchhere.simps) (simp add: re)
    next
      case False
      then show ?thesis
        using 1(2) Cons by (subst matchhere.simps) (auto simp: here_end here_One fits_def)
    qed
  qed
next
  case (2 c re xs)
  then show ?case by (subst matchstar.simps, subst here_Star) (auto simp: fits_def)
qed

lemma match_from_here: "match_from re xs \<longleftrightarrow> (\<exists>w v. xs = w @ v \<and> here re v)"
proof (induction xs)
  case Nil
  then show ?case by (simp add: matchhere_here)
next
  case (Cons c xs)
  have "(\<exists>w v. c # xs = w @ v \<and> here re v) \<longleftrightarrow> here re (c # xs) \<or> (\<exists>w v. xs = w @ v \<and> here re v)"
    by (metis append_Cons append_Nil append_eq_Cons_conv)
  then show ?case using Cons by (simp add: matchhere_here)
qed

section \<open>Lines\<close>

text \<open>The complete lines of a text, and what follows its last newline.\<close>

function full_lines :: "uchar list \<Rightarrow> uchar list list" where
  "full_lines s = (if 10 \<in> set s then takeWhile (\<lambda>c. c \<noteq> 10) s # full_lines (tl (dropWhile (\<lambda>c. c \<noteq> 10) s)) else [])"
  by pat_completeness auto
termination
proof (relation "measure length")
  fix s :: "uchar list"
  assume "10 \<in> set s"
  then have "dropWhile (\<lambda>c. c \<noteq> 10) s \<noteq> []" by (simp add: dropWhile_eq_Nil_conv)
  then show "(tl (dropWhile (\<lambda>c. c \<noteq> 10) s), s) \<in> measure length"
    using length_dropWhile_le[of "\<lambda>c. c \<noteq> 10" s] by (cases "dropWhile (\<lambda>c. c \<noteq> 10) s") auto
qed simp

declare full_lines.simps [simp del]

definition last_part :: "uchar list \<Rightarrow> uchar list" where
  "last_part s = rev (takeWhile (\<lambda>c. c \<noteq> 10) (rev s))"

lemma line_split:
  assumes "10 \<in> set s"
  obtains l r where "s = l @ 10 # r" and "10 \<notin> set l"
  using split_list_first[OF assms] by blast

lemma full_lines_line: "10 \<notin> set l \<Longrightarrow> full_lines (l @ 10 # r) = l # full_lines r"
proof -
  assume "10 \<notin> set l"
  then have "\<forall>c \<in> set l. c \<noteq> 10" by blast
  then show ?thesis by (subst full_lines.simps) (simp add: takeWhile_append dropWhile_append)
qed

lemma full_lines_none: "10 \<notin> set s \<Longrightarrow> full_lines s = []"
  by (subst full_lines.simps) simp

lemma last_part_line: "last_part (l @ 10 # r) = last_part r"
  by (auto simp: last_part_def takeWhile_append intro!: takeWhile_eq_all_conv[THEN iffD2, symmetric])

lemma last_part_none: "10 \<notin> set s \<Longrightarrow> last_part s = s"
proof -
  assume "10 \<notin> set s"
  then have "takeWhile (\<lambda>c. c \<noteq> 10) (rev s) = rev s" by (auto simp: takeWhile_eq_all_conv)
  then show ?thesis by (simp only: last_part_def rev_rev_ident)
qed

lemma last_part_set: "10 \<notin> set (last_part s)" "set (last_part s) \<subseteq> set s"
  using set_takeWhileD[of _ "\<lambda>c. c \<noteq> 10" "rev s"] by (auto simp: last_part_def)

lemma full_lines_append: "full_lines (s @ t) = full_lines s @ full_lines (last_part s @ t)"
proof (induction "length s" arbitrary: s rule: less_induct)
  case less
  show ?case
  proof (cases "10 \<in> set s")
    case True
    then obtain l r where s: "s = l @ 10 # r" and l: "10 \<notin> set l" by (rule line_split)
    have "full_lines (s @ t) = l # full_lines (r @ t)" using full_lines_line[OF l, of "r @ t"] by (simp add: s)
    then show ?thesis using less[of r] full_lines_line[OF l, of r] by (simp add: s last_part_line)
  next
    case False
    then show ?thesis by (simp add: full_lines_none last_part_none)
  qed
qed

definition printed :: "uchar list \<Rightarrow> uchar list \<Rightarrow> uchar list list" where
  "printed pattern s = map (\<lambda>l. l @ [10]) (filter (match pattern) (full_lines s))"

lemma grep_lines_printed:
  "0 \<notin> set p \<Longrightarrow> grep_lines pattern p = (printed pattern p, last_part p)"
proof (induction "length p" arbitrary: p rule: less_induct)
  case less
  have no: "takeWhile (\<lambda>c. c \<noteq> 10 \<and> c \<noteq> 0) l = l" "dropWhile (\<lambda>c. c \<noteq> 10 \<and> c \<noteq> 0) l = []"
    if "10 \<notin> set l" "0 \<notin> set l" for l :: "uchar list"
    using that by (auto simp: takeWhile_eq_all_conv dropWhile_eq_Nil_conv)
  show ?case
  proof (cases "10 \<in> set p")
    case True
    then obtain l r where p: "p = l @ 10 # r" and l: "10 \<notin> set l" by (rule line_split)
    then have "\<forall>c \<in> set l. c \<noteq> 10 \<and> c \<noteq> 0" using less.prems by auto
    then have "takeWhile (\<lambda>c. c \<noteq> 10 \<and> c \<noteq> 0) p = l" "dropWhile (\<lambda>c. c \<noteq> 10 \<and> c \<noteq> 0) p = 10 # r"
      by (simp_all add: p takeWhile_append dropWhile_append)
    then show ?thesis
      using less.hyps[of r] less.prems full_lines_line[OF l, of r]
      by (subst grep_lines.simps) (simp add: p printed_def last_part_line)
  next
    case False
    then show ?thesis
      using no[OF False less.prems] by (subst grep_lines.simps) (simp add: printed_def full_lines_none last_part_none)
  qed
qed

lemma last_part_shorter: "10 \<in> set s \<Longrightarrow> length (last_part s) < length s"
proof -
  assume "10 \<in> set s"
  then obtain l r where s: "s = l @ 10 # r" by (rule line_split)
  have "length (last_part r) \<le> length r" using length_takeWhile_le[of _ "rev r"] by (simp add: last_part_def)
  then show ?thesis by (simp add: s last_part_line)
qed

lemma grep_printed:
  "(\<And>bs. bs \<in> set reads \<Longrightarrow> 10 \<in> set bs \<and> 0 \<notin> set bs) \<Longrightarrow> 10 \<notin> set keep \<Longrightarrow> 0 \<notin> set keep \<Longrightarrow>
     grep pattern keep reads = printed pattern (keep @ concat reads)"
proof (induction reads arbitrary: keep)
  case Nil
  then show ?case by (simp add: printed_def full_lines_none)
next
  case (Cons bs reads)
  let ?buf = "keep @ bs"
  have buf: "10 \<in> set ?buf" "0 \<notin> set ?buf" using Cons.prems(1)[of bs] Cons.prems(2,3) by auto
  have "grep pattern (last_part ?buf) reads = printed pattern (last_part ?buf @ concat reads)"
    by (rule Cons.IH) (use Cons.prems(1) last_part_set[of ?buf] buf in auto)
  then show ?case
    using grep_lines_printed[OF buf(2), of pattern] last_part_shorter[OF buf(1)] full_lines_append[of ?buf "concat reads"]
    by (simp add: printed_def Let_def)
qed

section \<open>Properties\<close>

text \<open>
  Claim C15. The matcher decides the language of the pattern: \<open>match\<close> succeeds exactly when some part of the
  text, starting at its first character if the pattern begins with \<open>^\<close> and reaching its end if the pattern
  ends with \<open>$\<close>, is a concatenation of what the items of the pattern stand for.
\<close>

theorem match_matches: "match re xs \<longleftrightarrow> matches re xs"
  by (simp add: match_def matches_def matchhere_here match_from_here)

text \<open>
  Claim C16. When every read delivers at least one complete line, \<open>grep\<close> prints exactly the complete lines of
  its input that match, in order, however the input is cut into reads. A first read without a newline is lost:
  the output is that of the reads after it.
\<close>

theorem grep_output:
  assumes "\<forall>bs \<in> set reads. 0 \<notin> set bs"
  shows "((\<forall>bs \<in> set reads. 10 \<in> set bs) \<longrightarrow>
        grep pattern [] reads = map (\<lambda>l. l @ [10]) (filter (match pattern) (full_lines (concat reads)))) \<and>
      (reads \<noteq> [] \<and> 10 \<notin> set (hd reads) \<longrightarrow> grep pattern [] reads = grep pattern [] (tl reads))"
proof
  show "(\<forall>bs \<in> set reads. 10 \<in> set bs) \<longrightarrow>
      grep pattern [] reads = map (\<lambda>l. l @ [10]) (filter (match pattern) (full_lines (concat reads)))"
    using grep_printed[of reads "[]" pattern] assms by (simp add: printed_def)
  show "reads \<noteq> [] \<and> 10 \<notin> set (hd reads) \<longrightarrow> grep pattern [] reads = grep pattern [] (tl reads)"
    using assms grep_lines_printed[of "hd reads" pattern]
    by (cases reads) (simp_all add: printed_def full_lines_none last_part_none)
qed

theorem grep_output_witness:
  "grep [94, 97] [] [[97, 98, 10, 98], [10, 97, 10]] = [[97, 98, 10], [97, 10]] \<and>
   grep [97] [] [[97], [10]] = grep [97] [] [[10]]"
proof -
  have f: "full_lines [97, 98, 10, 98, 10, 97, 10] = [[97, 98], [98], [97]]"
    by (simp add: full_lines.simps)
  have m: "match [94, 97] [97, 98]" "\<not> match [94, 97] [98]" "match [94, 97] [97]"
    by (simp_all add: match_def matchhere.simps)
  show ?thesis
    using grep_output[of "[[97, 98, 10, 98], [10, 97, 10]]" "[94, 97]"] grep_output[of "[[97], [10]]" "[97]"]
    by (simp add: f m)
qed

end
