(* ===== verification/Ulib.thy ===== *)
theory Ulib
  imports Format Cstring
begin

text \<open>
  User programs: \<^verbatim>\<open>ulib.c\<close>, \<^verbatim>\<open>printf.c\<close> and the small utilities. A program runs in an environment that says
  what the kernel answers: the results of coming reads of each descriptor, and the result of every other
  call. The calls that are made are recorded in order. \<open>exit\<close> leaves the program, as \<open>Switch\<close>.
\<close>

section \<open>The environment\<close>

datatype ucall =
    UWrite int "uchar list" | UOpen "uchar list" "32 word" | UClose int
  | ULink "uchar list" "uchar list" | UMkdir "uchar list" | UUnlink "uchar list" | UKill "32 word"

record env =
  e_reads :: "int \<Rightarrow> (int \<times> uchar list) list"   \<comment> \<open>results of coming reads; then \<open>read\<close> returns 0\<close>
  e_result :: "ucall \<Rightarrow> int"
  e_calls :: "ucall list"

definition ucall :: "ucall \<Rightarrow> (env, int) km" where
  "ucall c = kseq (kmod (\<lambda>s. s\<lparr>e_calls := e_calls s @ [c]\<rparr>)) (kget (\<lambda>s. e_result s c))"

definition uread :: "int \<Rightarrow> nat \<Rightarrow> (env, int \<times> uchar list) km" where
  "uread fd n =
     kbind (kget (\<lambda>s. e_reads s fd)) (\<lambda>rs. case rs of [] \<Rightarrow> kret (0, [])
     | r # rs' \<Rightarrow> kseq (kmod (\<lambda>s. s\<lparr>e_reads := (e_reads s)(fd := rs')\<rparr>)) (kret r))"

definition uexit :: "(env, 'a) km" where
  "uexit = (\<lambda>s. Switch s)"

text \<open>A loop of at most \<open>n\<close> turns; the loops below consume a read in every turn but the last.\<close>

primrec uloop :: "nat \<Rightarrow> ('b \<Rightarrow> (env, 'b + 'a) km) \<Rightarrow> 'b \<Rightarrow> (env, 'a) km" where
  "uloop 0 f x = (\<lambda>_. Fail ESpin)"
| "uloop (Suc n) f x = kbind (f x) (\<lambda>r. case r of Inl y \<Rightarrow> uloop n f y | Inr z \<Rightarrow> kret z)"

definition ureads :: "int \<Rightarrow> ('b \<Rightarrow> (env, 'b + 'a) km) \<Rightarrow> 'b \<Rightarrow> (env, 'a) km" where
  "ureads fd f x = kbind (kget (\<lambda>s. length (e_reads s fd))) (\<lambda>n. uloop (Suc n) f x)"

section \<open>Strings (ulib.c)\<close>

definition ubyte :: "uchar list \<Rightarrow> uchar" where
  "ubyte s = (case s of [] \<Rightarrow> 0 | c # _ \<Rightarrow> c)"

function ustrcmp :: "uchar list \<Rightarrow> uchar list \<Rightarrow> int" where
  "ustrcmp p q = (if ubyte p \<noteq> 0 \<and> ubyte p = ubyte q then ustrcmp (tl p) (tl q) else uint (ubyte p) - uint (ubyte q))"
  by pat_completeness auto
termination
  by (relation "measure (\<lambda>(p, _). length p)") (auto simp: ubyte_def split: list.splits)

declare ustrcmp.simps [simp del]

primrec ustrchr :: "uchar list \<Rightarrow> uchar \<Rightarrow> nat option" where
  "ustrchr [] c = None"
| "ustrchr (a # s) c = (if a = 0 then None else if a = c then Some 0 else map_option Suc (ustrchr s c))"

definition umemset :: "memory \<Rightarrow> addr_t \<Rightarrow> uint \<Rightarrow> uint \<Rightarrow> memory" where
  "umemset m dst c n = stosb m dst c (unat n)"

definition umemmove :: "memory \<Rightarrow> addr_t \<Rightarrow> addr_t \<Rightarrow> 32 word \<Rightarrow> memory" where
  "umemmove m vdst vsrc n = copy_up m vdst vsrc (nat (sint n))"

text \<open>\<open>atoi\<close> on a string; \<open>n\<close> is an \<open>int\<close>.\<close>

primrec atoi_loop :: "32 word \<Rightarrow> uchar list \<Rightarrow> 32 word" where
  "atoi_loop n [] = n"
| "atoi_loop n (c # s) = (if 48 \<le> c \<and> c \<le> 57 then atoi_loop (n * 10 + ucast c - 48) s else n)"

definition atoi :: "uchar list \<Rightarrow> 32 word" where
  "atoi s = atoi_loop 0 s"

text \<open>\<open>gets\<close>, with room for \<open>k\<close> more characters before the terminator; the result is the string in \<open>buf\<close>.\<close>

primrec gets_loop :: "nat \<Rightarrow> (env, uchar list) km" where
  "gets_loop 0 = kret []"
| "gets_loop (Suc k) =
     kbind (uread 0 1) (\<lambda>(cc, bs).
     if cc < 1 then kret []
     else if hd bs = 10 \<or> hd bs = 13 then kret [hd bs]
     else kbind (gets_loop k) (\<lambda>rest. kret (hd bs # rest)))"

definition gets :: "nat \<Rightarrow> (env, uchar list) km" where
  "gets mx = gets_loop (mx - 1)"

section \<open>printf (printf.c)\<close>

text \<open>As \<open>fmt_chars\<close>, with \<open>%c\<close> in addition.\<close>

fun printf_chars :: "uchar list \<Rightarrow> fmtarg list \<Rightarrow> uchar list" where
  "printf_chars [] args = []"
| "printf_chars (c # cs) args =
     (if c \<noteq> 37 then c # printf_chars cs args
      else case cs of [] \<Rightarrow> []
        | d # ds \<Rightarrow>
            if d = 99 then (case args of ArgInt v # as \<Rightarrow> ucast v # printf_chars ds as | _ \<Rightarrow> printf_chars ds (tl args))
            else if d = 100 then (case args of ArgInt v # as \<Rightarrow> print_d v @ printf_chars ds as | _ \<Rightarrow> printf_chars ds (tl args))
            else if d = 120 then (case args of ArgHex x # as \<Rightarrow> print_x32 x @ printf_chars ds as | _ \<Rightarrow> printf_chars ds (tl args))
            else if d = 112 then (case args of ArgPtr x # as \<Rightarrow> print_x64 x @ printf_chars ds as | _ \<Rightarrow> printf_chars ds (tl args))
            else if d = 115 then
              (case args of ArgStr so # as \<Rightarrow> (case so of None \<Rightarrow> null_str | Some s \<Rightarrow> s) @ printf_chars ds as
               | _ \<Rightarrow> printf_chars ds (tl args))
            else if d = 37 then 37 # printf_chars ds args
            else 37 # d # printf_chars ds args)"

definition putc :: "int \<Rightarrow> uchar \<Rightarrow> (env, unit) km" where
  "putc fd c = kbind (ucall (UWrite fd [c])) (\<lambda>_. kret ())"

definition printf :: "int \<Rightarrow> uchar list \<Rightarrow> fmtarg list \<Rightarrow> (env, unit) km" where
  "printf fd fmt args = kfor (putc fd) (printf_chars fmt args)"

definition ustr :: "string \<Rightarrow> uchar list" where
  "ustr s = map of_char s"

section \<open>Utilities (cat.c, wc.c, echo.c, ln.c, kill.c, mkdir.c, rm.c)\<close>

definition cat_turn :: "int \<Rightarrow> unit \<Rightarrow> (env, unit + unit) km" where
  "cat_turn fd x =
     kbind (uread fd 512) (\<lambda>(n, bs).
     if n > 0 then
       kbind (ucall (UWrite 1 bs)) (\<lambda>w.
       if w \<noteq> n then kseq (printf 1 (ustr ''cat: write error'' @ [10]) []) uexit
       else kret (Inl ()))
     else if n < 0 then kseq (printf 1 (ustr ''cat: read error'' @ [10]) []) uexit
     else kret (Inr ()))"

definition cat :: "int \<Rightarrow> (env, unit) km" where
  "cat fd = ureads fd (cat_turn fd) ()"

text \<open>The loop over the arguments that \<open>cat\<close>, \<open>wc\<close> and \<open>grep\<close> share.\<close>

definition each_file :: "string \<Rightarrow> (int \<Rightarrow> uchar list \<Rightarrow> (env, unit) km) \<Rightarrow> uchar list list \<Rightarrow> (env, unit) km" where
  "each_file prog f names =
     kseq (kfor (\<lambda>name.
       kbind (ucall (UOpen name 0)) (\<lambda>fd.
       if fd < 0 then kseq (printf 1 (ustr (prog @ '': cannot open %s'') @ [10]) [ArgStr (Some name)]) uexit
       else kseq (f fd name) (kbind (ucall (UClose fd)) (\<lambda>_. kret ())))) names)
     uexit"

definition cat_main :: "uchar list list \<Rightarrow> (env, unit) km" where
  "cat_main argv =
     (if length argv \<le> 1 then kseq (cat 0) uexit else each_file ''cat'' (\<lambda>fd _. cat fd) (tl argv))"

definition wc_ws :: "uchar list" where
  "wc_ws = [32, 13, 9, 10, 11]"

text \<open>One character: the new \<open>(l, w, c, inword)\<close>.\<close>

definition wc_char :: "uchar \<Rightarrow> 32 word \<times> 32 word \<times> 32 word \<times> bool \<Rightarrow> 32 word \<times> 32 word \<times> 32 word \<times> bool" where
  "wc_char b st =
     (case st of (l, w, c, inword) \<Rightarrow>
      let c' = c + 1; l' = (if b = 10 then l + 1 else l) in
      if ustrchr wc_ws b \<noteq> None then (l', w, c', False)
      else if \<not> inword then (l', w + 1, c', True)
      else (l', w, c', inword))"

definition wc_turn :: "int \<Rightarrow> 32 word \<times> 32 word \<times> 32 word \<times> bool \<Rightarrow>
    (env, 32 word \<times> 32 word \<times> 32 word \<times> bool + 32 word \<times> 32 word \<times> 32 word \<times> bool) km" where
  "wc_turn fd st =
     kbind (uread fd 512) (\<lambda>(n, bs).
     if n > 0 then kret (Inl (fold wc_char bs st))
     else if n < 0 then kseq (printf 1 (ustr ''wc: read error'' @ [10]) []) uexit
     else kret (Inr st))"

definition wc :: "int \<Rightarrow> uchar list \<Rightarrow> (env, unit) km" where
  "wc fd name =
     kbind (ureads fd (wc_turn fd) (0, 0, 0, False)) (\<lambda>(l, w, c, _).
     printf 1 (ustr ''%d %d %d %s'' @ [10]) [ArgInt l, ArgInt w, ArgInt c, ArgStr (Some name)])"

definition wc_main :: "uchar list list \<Rightarrow> (env, unit) km" where
  "wc_main argv = (if length argv \<le> 1 then kseq (wc 0 []) uexit else each_file ''wc'' wc (tl argv))"

definition echo_main :: "uchar list list \<Rightarrow> (env, unit) km" where
  "echo_main argv =
     kseq (kfor (\<lambda>i. printf 1 (ustr ''%s%s'') [ArgStr (Some (argv ! i)), ArgStr (Some (if i + 1 < length argv then [32] else [10]))])
             [1..<length argv])
     uexit"

definition ln_main :: "uchar list list \<Rightarrow> (env, unit) km" where
  "ln_main argv =
     (if length argv \<noteq> 3 then kseq (printf 2 (ustr ''Usage: ln old new'' @ [10]) []) uexit
      else
        kbind (ucall (ULink (argv ! 1) (argv ! 2))) (\<lambda>r.
        kseq (kwhen (r < 0) (printf 2 (ustr ''link %s %s: failed'' @ [10]) [ArgStr (Some (argv ! 1)), ArgStr (Some (argv ! 2))]))
             uexit))"

definition kill_main :: "uchar list list \<Rightarrow> (env, unit) km" where
  "kill_main argv =
     (if length argv < 2 then kseq (printf 2 (ustr ''usage: kill pid...'' @ [10]) []) uexit
      else kseq (kfor (\<lambda>a. kbind (ucall (UKill (atoi a))) (\<lambda>_. kret ())) (tl argv)) uexit)"

text \<open>The loops of \<open>mkdir\<close> and \<open>rm\<close> stop at the first failure.\<close>

definition mkdir_main :: "uchar list list \<Rightarrow> (env, unit) km" where
  "mkdir_main argv =
     (if length argv < 2 then kseq (printf 2 (ustr ''Usage: mkdir files...'' @ [10]) []) uexit
      else kseq (kloop (\<lambda>a.
          kbind (ucall (UMkdir a)) (\<lambda>r.
          if r < 0 then kseq (printf 2 (ustr ''mkdir: %s failed to create'' @ [10]) [ArgStr (Some a)]) (kret (Some ()))
          else kret None)) (tl argv)) uexit)"

definition rm_main :: "uchar list list \<Rightarrow> (env, unit) km" where
  "rm_main argv =
     (if length argv < 2 then kseq (printf 2 (ustr ''Usage: rm files...'' @ [10]) []) uexit
      else kseq (kloop (\<lambda>a.
          kbind (ucall (UUnlink a)) (\<lambda>r.
          if r < 0 then kseq (printf 2 (ustr ''rm: %s failed to delete'' @ [10]) [ArgStr (Some a)]) (kret (Some ()))
          else kret None)) (tl argv)) uexit)"

text \<open>\<open>fmtname\<close> of \<^verbatim>\<open>ls.c\<close>: the last path element, padded with blanks to 14 characters.\<close>

definition fmtname :: "uchar list \<Rightarrow> uchar list" where
  "fmtname pth =
     (let p = rev (takeWhile (\<lambda>c. c \<noteq> 47) (rev pth)) in
      if length p \<ge> 14 then p else p @ replicate (14 - length p) 32)"

section \<open>Counting\<close>

definition blank :: "uchar \<Rightarrow> bool" where
  "blank b \<longleftrightarrow> b \<in> set wc_ws"

lemma ustrchr_ws: "ustrchr wc_ws b \<noteq> None \<longleftrightarrow> blank b"
  by (auto simp: wc_ws_def blank_def)

text \<open>The number of words: places where a word begins.\<close>

definition word_starts :: "uchar list \<Rightarrow> nat set" where
  "word_starts s = {i. i < length s \<and> \<not> blank (s ! i) \<and> (i = 0 \<or> blank (s ! (i - 1)))}"

lemma word_starts_snoc:
  "word_starts (s @ [b]) = word_starts s \<union> (if \<not> blank b \<and> (s = [] \<or> blank (last s)) then {length s} else {})"
proof -
  have "i \<in> word_starts (s @ [b]) \<longleftrightarrow>
      i \<in> word_starts s \<union> (if \<not> blank b \<and> (s = [] \<or> blank (last s)) then {length s} else {})" for i
  proof (cases "i < length s")
    case True
    then show ?thesis by (auto simp: word_starts_def nth_append)
  next
    case False
    then show ?thesis
      by (cases s rule: rev_cases) (auto simp: word_starts_def nth_append less_Suc_eq)
  qed
  then show ?thesis by blast
qed

lemma finite_word_starts: "finite (word_starts s)"
  by (simp add: word_starts_def)

lemma wc_char_eq:
  "wc_char b (l, w, c, i) =
     (if b = 10 then l + 1 else l, if \<not> blank b \<and> \<not> i then w + 1 else w, c + 1, \<not> blank b)"
  unfolding wc_char_def ustrchr_ws by (simp add: Let_def)

lemma wc_fold:
  "fold wc_char s (0, 0, 0, False) =
     (of_nat (length (filter (\<lambda>b. b = 10) s)), of_nat (card (word_starts s)), of_nat (length s), s \<noteq> [] \<and> \<not> blank (last s))"
proof (induction s rule: rev_induct)
  case Nil
  show ?case by (simp add: word_starts_def)
next
  case (snoc b s)
  have "length s \<notin> word_starts s" by (simp add: word_starts_def)
  then show ?case
    using snoc finite_word_starts[of s] by (auto simp: wc_char_eq word_starts_snoc add.commute)
qed

lemma wc_reads:
  "e_reads s fd = map (\<lambda>b. (int (length b), b)) bss \<Longrightarrow> [] \<notin> set bss \<Longrightarrow> length bss < n \<Longrightarrow>
     uloop n (wc_turn fd) st s = Ok (fold wc_char (concat bss) st) (s\<lparr>e_reads := (e_reads s)(fd := [])\<rparr>)"
proof (induction bss arbitrary: s st n)
  case Nil
  then obtain k where "n = Suc k" by (cases n) auto
  moreover have same: "s\<lparr>e_reads := (e_reads s)(fd := [])\<rparr> = s"
    using Nil by (cases s) (auto simp: fun_upd_idem)
  moreover have "uloop (Suc k) (wc_turn fd) st s = Ok st s" for k
    using Nil by (simp add: wc_turn_def uread_def k_simps)
  ultimately show ?case unfolding same by simp
next
  case (Cons b bss)
  then obtain k where n: "n = Suc k" by (cases n) auto
  let ?t = "s\<lparr>e_reads := (e_reads s)(fd := map (\<lambda>b. (int (length b), b)) bss)\<rparr>"
  have "uloop k (wc_turn fd) (fold wc_char b st) ?t =
      Ok (fold wc_char (concat bss) (fold wc_char b st)) (?t\<lparr>e_reads := (e_reads ?t)(fd := [])\<rparr>)"
    by (rule Cons.IH) (use Cons.prems n in auto)
  moreover have "wc_turn fd st s = Ok (Inl (fold wc_char b st)) ?t"
    using Cons.prems by (cases b) (simp_all add: wc_turn_def uread_def k_simps)
  ultimately show ?case by (simp add: n kbind_Ok fun_upd_def cong: if_cong)
qed

lemma atoi_digits:
  "(\<And>c. c \<in> set cs \<Longrightarrow> 48 \<le> unat c \<and> unat c < 58) \<Longrightarrow> atoi_loop n cs = n * 10 ^ length cs + of_nat (num_val 10 cs)"
proof (induction cs arbitrary: n)
  case Nil
  then show ?case by (simp add: num_val_def)
next
  case (Cons c cs)
  have c: "48 \<le> unat c" "unat c < 58" using Cons.prems[of c] by auto
  have "(ucast c :: 32 word) = of_nat (unat c)" by simp
  also have "\<dots> = of_nat (digit_val c) + 48" using c by (simp add: digit_val_def of_nat_diff)
  finally have d: "(ucast c :: 32 word) - 48 = of_nat (digit_val c)" by simp
  have "48 \<le> c" "c \<le> 57" using c by (simp_all add: word_le_nat_alt)
  then have "atoi_loop n (c # cs) = atoi_loop (n * 10 + of_nat (digit_val c)) cs"
    using d by (simp add: add_diff_eq[symmetric])
  also have "\<dots> = (n * 10 + of_nat (digit_val c)) * 10 ^ length cs + of_nat (num_val 10 cs)"
    by (rule Cons.IH) (use Cons.prems in auto)
  also have "\<dots> = n * 10 ^ length (c # cs) + of_nat (num_val 10 (c # cs))"
    by (simp add: num_val_Cons algebra_simps)
  finally show ?case .
qed

section \<open>Properties\<close>

text \<open>
  Claim C17. \<open>wc\<close> prints the number of newlines, of words and of bytes of what it reads, however the reads cut
  it: the counters that the character loop keeps are those of the whole text, modulo the width of an \<open>int\<close>,
  where a word begins at a non-blank character at the start or after a blank one.
\<close>

theorem wc_counts:
  assumes "e_reads s fd = map (\<lambda>b. (int (length b), b)) bss" and "[] \<notin> set bss" and "concat bss = txt"
  shows "wc fd name s =
    printf 1 (ustr ''%d %d %d %s'' @ [10])
      [ArgInt (of_nat (length (filter (\<lambda>b. b = 10) txt))), ArgInt (of_nat (card (word_starts txt))),
       ArgInt (of_nat (length txt)), ArgStr (Some name)]
      (s\<lparr>e_reads := (e_reads s)(fd := [])\<rparr>)"
  using wc_reads[OF assms(1,2), of "Suc (length bss)"] assms(1,3)
  by (simp add: wc_def ureads_def k_simps wc_fold)

theorem wc_counts_witness:
  "let e = \<lparr>e_reads = (\<lambda>_. [(3, [97, 32, 98]), (2, [99, 10])]), e_result = (\<lambda>_. 1), e_calls = []\<rparr> in
   wc 0 [] e =
    printf 1 (ustr ''%d %d %d %s'' @ [10]) [ArgInt 1, ArgInt 2, ArgInt 5, ArgStr (Some [])]
      (e\<lparr>e_reads := (e_reads e)(0 := [])\<rparr>)"
proof -
  have b: "blank 32" "blank 10" "\<not> blank 97" "\<not> blank 98" "\<not> blank 99" by (simp_all add: blank_def wc_ws_def)
  have "word_starts [97] = {0}" using word_starts_snoc[of "[]" 97] b by (simp add: word_starts_def[of "[]"])
  then have "word_starts [97, 32] = {0}" using word_starts_snoc[of "[97]" 32] b by simp
  then have "word_starts [97, 32, 98] = {0, 2}" using word_starts_snoc[of "[97, 32]" 98] b by (simp add: insert_commute numeral_2_eq_2)
  then have "word_starts [97, 32, 98, 99] = {0, 2}" using word_starts_snoc[of "[97, 32, 98]" 99] b by simp
  then have "word_starts [97, 32, 98, 99, 10] = {0, 2}" using word_starts_snoc[of "[97, 32, 98, 99]" 10] b by simp
  then show ?thesis
    using wc_counts[of "\<lparr>e_reads = (\<lambda>_. [(3, [97, 32, 98]), (2, [99, 10])]), e_result = (\<lambda>_. 1), e_calls = []\<rparr>" 0
        "[[97, 32, 98], [99, 10]]" "[97, 32, 98, 99, 10]" "[]"]
    by (simp add: Let_def)
qed

text \<open>
  Claim C18. Printing a number and reading it back are inverse: \<open>atoi\<close> of what \<open>%d\<close> prints for an \<open>int\<close> that is
  not negative is that number, and \<open>atoi\<close> of what it prints for a negative one is 0, since \<open>atoi\<close> knows no sign.
\<close>

theorem atoi_print_d: "atoi (print_d v) = (if sint v < 0 then 0 else v)"
proof (cases "sint v < 0")
  case True
  then show ?thesis by (simp add: print_d_def atoi_def)
next
  case False
  let ?n = "nat \<bar>sint v\<bar>"
  have "atoi (print_d v) = of_nat (num_val 10 (rev (print_d_buf ?n)))"
    using atoi_digits[of "rev (print_d_buf ?n)" 0] print_d_buf_digits[of _ ?n] False by (simp add: print_d_def atoi_def)
  then show ?thesis using False by (simp add: print_d_buf_val)
qed

end
