(* ===== verification/Shell.thy ===== *)
theory Shell
  imports Ulib
begin

text \<open>
  The command parser of \<^verbatim>\<open>sh.c\<close>. The state of the parser is the input from \<open>*ps\<close> to \<open>es\<close>; a panic of the shell
  ends it with an error. A counted string \<open>q..eq\<close> is the list of its bytes, so that a command is already what
  \<open>nulterminate\<close> makes of it. The parsers call each other and themselves; they carry fuel, and the fuel
  \<open>parsecmd\<close> gives them is always enough.
\<close>

section \<open>Commands (sh.c)\<close>

definition MAXARGS :: nat where "MAXARGS = 10"

datatype cmd =
    EXEC "uchar list list"
  | REDIR cmd "uchar list" "32 word" nat
  | PIPE cmd cmd
  | LIST cmd cmd
  | BACK cmd

section \<open>Tokens (sh.c)\<close>

definition whitespace :: "uchar list" where "whitespace = [32, 9, 13, 10, 11]"
definition symbols :: "uchar list" where "symbols = [60, 124, 62, 38, 59, 40, 41]"

definition is_ws :: "uchar \<Rightarrow> bool" where "is_ws c \<longleftrightarrow> ustrchr whitespace c \<noteq> None"
definition is_sym :: "uchar \<Rightarrow> bool" where "is_sym c \<longleftrightarrow> ustrchr symbols c \<noteq> None"

definition skip_ws :: "uchar list \<Rightarrow> uchar list" where
  "skip_ws s = dropWhile is_ws s"

text \<open>The token at the front of the input: its code, its text and what follows it.\<close>

definition scan :: "uchar list \<Rightarrow> uchar \<times> uchar list \<times> uchar list" where
  "scan s =
     (let c = ubyte s in
      if c = 0 then (0, [], s)
      else if c \<in> {124, 40, 41, 59, 38, 60} then (c, [c], tl s)
      else if c = 62 then (if ubyte (tl s) = 62 then (43, take 2 s, tl (tl s)) else (62, [c], tl s))
      else (97, takeWhile (\<lambda>b. \<not> is_ws b \<and> \<not> is_sym b) s, dropWhile (\<lambda>b. \<not> is_ws b \<and> \<not> is_sym b) s))"

definition gettoken :: "(uchar list, uchar \<times> uchar list) km" where
  "gettoken = (\<lambda>s. let (tok, w, r) = scan (skip_ws s) in Ok (tok, w) (skip_ws r))"

definition peek :: "uchar list \<Rightarrow> (uchar list, bool) km" where
  "peek toks = (\<lambda>s. let t = skip_ws s in Ok (ubyte t \<noteq> 0 \<and> ustrchr toks (ubyte t) \<noteq> None) t)"

section \<open>Parsers (sh.c)\<close>

definition out_of_fuel :: "(uchar list, 'a) km" where
  "out_of_fuel = (\<lambda>_. Fail ESpin)"

text \<open>The redirections \<open>parseredirs\<close> wraps around a command, the first one innermost.\<close>

definition redir_of :: "uchar \<Rightarrow> uchar list \<Rightarrow> uchar list \<times> 32 word \<times> nat" where
  "redir_of tok f = (if tok = 60 then (f, 0, 0) else (f, 0x201, 1))"

definition wrap :: "cmd \<Rightarrow> (uchar list \<times> 32 word \<times> nat) list \<Rightarrow> cmd" where
  "wrap c rs = foldl (\<lambda>c (f, m, d). REDIR c f m d) c rs"

primrec parseredirs :: "nat \<Rightarrow> (uchar list, (uchar list \<times> 32 word \<times> nat) list) km" where
  "parseredirs 0 = out_of_fuel"
| "parseredirs (Suc n) =
     kbind (peek [60, 62]) (\<lambda>p.
     if \<not> p then kret []
     else
       kbind gettoken (\<lambda>(tok, _).
       kbind gettoken (\<lambda>(a, f).
       if a \<noteq> 97 then kpanic ''missing file for redirection''
       else kbind (parseredirs n) (\<lambda>rs. kret (redir_of tok f # rs)))))"

text \<open>The argument loop of \<open>parseexec\<close>.\<close>

primrec parseargs :: "nat \<Rightarrow> uchar list list \<Rightarrow> (uchar list \<times> 32 word \<times> nat) list \<Rightarrow> (uchar list, cmd) km" where
  "parseargs 0 args rs = out_of_fuel"
| "parseargs (Suc n) args rs =
     kbind (peek [124, 41, 38, 59]) (\<lambda>p.
     if p then kret (wrap (EXEC args) rs)
     else
       kbind gettoken (\<lambda>(tok, w).
       if tok = 0 then kret (wrap (EXEC args) rs)
       else if tok \<noteq> 97 then kpanic ''syntax''
       else if length args + 1 \<ge> MAXARGS then kpanic ''too many args''
       else kbind (parseredirs n) (\<lambda>rs'. parseargs n (args @ [w]) (rs @ rs'))))"

primrec parseback :: "nat \<Rightarrow> cmd \<Rightarrow> (uchar list, cmd) km" where
  "parseback 0 c = out_of_fuel"
| "parseback (Suc n) c =
     kbind (peek [38]) (\<lambda>p. if p then kseq gettoken (parseback n (BACK c)) else kret c)"

fun parseline :: "nat \<Rightarrow> (uchar list, cmd) km"
  and parsepipe :: "nat \<Rightarrow> (uchar list, cmd) km"
  and parseexec :: "nat \<Rightarrow> (uchar list, cmd) km"
  and parseblock :: "nat \<Rightarrow> (uchar list, cmd) km" where
  "parseline 0 = out_of_fuel"
| "parseline (Suc n) =
     kbind (parsepipe n) (\<lambda>c0.
     kbind (parseback n c0) (\<lambda>c.
     kbind (peek [59]) (\<lambda>p.
     if p then kseq gettoken (kbind (parseline n) (\<lambda>r. kret (LIST c r))) else kret c)))"
| "parsepipe 0 = out_of_fuel"
| "parsepipe (Suc n) =
     kbind (parseexec n) (\<lambda>c.
     kbind (peek [124]) (\<lambda>p.
     if p then kseq gettoken (kbind (parsepipe n) (\<lambda>r. kret (PIPE c r))) else kret c))"
| "parseexec 0 = out_of_fuel"
| "parseexec (Suc n) =
     kbind (peek [40]) (\<lambda>p.
     if p then parseblock n
     else kbind (parseredirs n) (\<lambda>rs. parseargs n [] rs))"
| "parseblock 0 = out_of_fuel"
| "parseblock (Suc n) =
     kbind (peek [40]) (\<lambda>p.
     if \<not> p then kpanic ''parseblock''
     else
       kseq gettoken
       (kbind (parseline n) (\<lambda>c.
        kbind (peek [41]) (\<lambda>p.
        if \<not> p then kpanic ''syntax - missing )''
        else kseq gettoken (kbind (parseredirs n) (\<lambda>rs. kret (wrap c rs)))))))"

definition parsecmd :: "uchar list \<Rightarrow> (cmd, uchar list) outcome" where
  "parsecmd s =
     kbind (parseline (4 * length s + 5)) (\<lambda>c.
     kbind (peek []) (\<lambda>_.
     kbind (kget (\<lambda>t. t)) (\<lambda>t.
     if t \<noteq> [] then kpanic ''syntax'' else kret c))) s"

section \<open>Fuel\<close>

text \<open>A parser that ends in at most the length of its input and never runs out of fuel.\<close>

definition good :: "(uchar list, 'a) km \<Rightarrow> uchar list \<Rightarrow> bool" where
  "good m s \<longleftrightarrow> (case m s of Ok _ t \<Rightarrow> length t \<le> length s | Fail e \<Rightarrow> \<exists>msg. e = EPanic msg | Switch _ \<Rightarrow> False)"

lemma good_bind:
  assumes "good m s" and "\<And>x t. m s = Ok x t \<Longrightarrow> length t \<le> length s \<Longrightarrow> good (f x) t"
  shows "good (kbind m f) s"
proof (cases "m s")
  case (Ok x t)
  then have "length t \<le> length s" using assms(1) by (simp add: good_def)
  then have "good (f x) t" using assms(2) Ok by blast
  then show ?thesis using Ok \<open>length t \<le> length s\<close>
    by (auto simp: good_def k_simps split: outcome.splits)
qed (use assms in \<open>auto simp: good_def k_simps\<close>)

lemma good_ret: "good (kret x) s" and good_panic: "good (kpanic msg) s"
  by (auto simp: good_def k_simps)

lemma length_skip_ws: "length (skip_ws s) \<le> length s"
  by (simp add: skip_ws_def length_dropWhile_le)

lemma scan_length: "scan s = (tok, w, r) \<Longrightarrow> length r \<le> length s \<and> (tok \<noteq> 0 \<longrightarrow> s \<noteq> [])"
  using length_dropWhile_le[of "\<lambda>b. \<not> is_ws b \<and> \<not> is_sym b" s]
  by (cases s) (auto simp: scan_def ubyte_def Let_def split: if_splits)

lemma good_token: "good gettoken s"
  using length_skip_ws[of "snd (snd (scan (skip_ws s)))"] scan_length[of "skip_ws s"] length_skip_ws[of s]
  by (auto simp: good_def gettoken_def split: prod.splits)

lemma good_peek: "good (peek toks) s"
  by (simp add: good_def peek_def Let_def length_skip_ws)

lemma peek_Ok: "peek toks s = Ok p t \<Longrightarrow> p = (ubyte t \<noteq> 0 \<and> ustrchr toks (ubyte t) \<noteq> None) \<and> length t \<le> length s"
  by (auto simp: peek_def Let_def length_skip_ws)

lemma is_ws_iff: "is_ws c \<longleftrightarrow> c \<in> set whitespace" and is_sym_iff: "is_sym c \<longleftrightarrow> c \<in> set symbols"
  by (auto simp: is_ws_def is_sym_def whitespace_def symbols_def)

lemma skip_ws_hd: "skip_ws s \<noteq> [] \<Longrightarrow> \<not> is_ws (hd (skip_ws s))"
  unfolding skip_ws_def by (rule hd_dropWhile)

lemma skip_ws_idem [simp]: "skip_ws (skip_ws s) = skip_ws s"
  unfolding skip_ws_def by (rule dropWhile_idem)

lemma scan_less:
  assumes "scan s = (tok, w, r)" and "s \<noteq> []" and "ubyte s \<noteq> 0" and "\<not> is_ws (hd s)"
  shows "tok \<noteq> 0 \<and> length r < length s"
proof (cases s)
  case (Cons c cs)
  have "length (dropWhile (\<lambda>b. \<not> is_ws b \<and> \<not> is_sym b) cs) \<le> length cs" by (rule length_dropWhile_le)
  then show ?thesis
    using assms Cons by (auto simp: scan_def ubyte_def Let_def is_sym_iff symbols_def split: if_splits)
qed (use assms in simp)

lemma token_less:
  assumes "ubyte (skip_ws s) \<noteq> 0"
  shows "\<exists>tok w t. gettoken s = Ok (tok, w) t \<and> tok \<noteq> 0 \<and> length t < length s"
proof -
  obtain tok w r where sc: "scan (skip_ws s) = (tok, w, r)" by (cases "scan (skip_ws s)") auto
  have ne: "skip_ws s \<noteq> []" using assms by (auto simp: ubyte_def)
  have "tok \<noteq> 0 \<and> length r < length (skip_ws s)" by (rule scan_less[OF sc ne assms skip_ws_hd[OF ne]])
  then show ?thesis
    using sc length_skip_ws[of r] length_skip_ws[of s] by (simp add: gettoken_def)
qed

lemma token_zero: "ubyte (skip_ws s) = 0 \<Longrightarrow> \<exists>w t. gettoken s = Ok (0, w) t"
  by (simp add: gettoken_def scan_def)

text \<open>After a successful \<open>peek\<close> the next token is not empty.\<close>

lemma good_after_peek:
  assumes "peek toks s = Ok True t" and "\<And>tok w u. gettoken t = Ok (tok, w) u \<Longrightarrow> length u < length s \<Longrightarrow> good (f (tok, w)) u"
  shows "good (kbind gettoken f) t"
proof -
  have t: "t = skip_ws s" "ubyte t \<noteq> 0" using assms(1) by (auto simp: peek_def Let_def)
  then obtain tok w u where u: "gettoken t = Ok (tok, w) u" "length u < length t"
    using token_less[of t] by auto
  show ?thesis
  proof (rule good_bind[OF good_token])
    fix x v
    assume "gettoken t = Ok x v" "length v \<le> length t"
    then show "good (f x) v" using u assms(2)[of tok w u] t(1) length_skip_ws[of s] by auto
  qed
qed

lemma good_redirs: "length s < n \<Longrightarrow> good (parseredirs n) s"
proof (induction n arbitrary: s)
  case (Suc n)
  show ?case
    unfolding parseredirs.simps
  proof (rule good_bind[OF good_peek], goal_cases)
    case (1 p t)
    show ?case
    proof (cases p)
      case True
      then have pk: "peek [60, 62] s = Ok True t" using 1(1) by simp
      have "good (kbind gettoken (\<lambda>(tok, _). kbind gettoken (\<lambda>(a, f).
         if a \<noteq> 97 then kpanic ''missing file for redirection''
         else kbind (parseredirs n) (\<lambda>rs. kret (redir_of tok f # rs))))) t"
      proof (rule good_after_peek[OF pk], goal_cases)
        case (1 tok w u)
        then have u: "length u < n" using Suc.prems by simp
        show ?case
        proof (simp, rule good_bind[OF good_token], goal_cases)
          case (1 x v)
          then have "good (parseredirs n) v" using u by (intro Suc.IH) simp
          then show ?case by (auto intro!: good_panic good_bind good_ret split: prod.split)
        qed
      qed
      then show ?thesis using True by simp
    qed (simp add: good_ret)
  qed
qed simp

lemma good_args: "length s < n \<Longrightarrow> good (parseargs n args rs) s"
proof (induction n arbitrary: s args rs)
  case (Suc n)
  show ?case
    unfolding parseargs.simps
  proof (rule good_bind[OF good_peek], goal_cases)
    case (1 p t)
    show ?case
    proof (cases p)
      case False
      have t: "t = skip_ws s" "length t \<le> length s" using 1(1) length_skip_ws[of s] by (auto simp: peek_def Let_def)
      have "good (kbind gettoken (\<lambda>(tok, w).
         if tok = 0 then kret (wrap (EXEC args) rs)
         else if tok \<noteq> 97 then kpanic ''syntax''
         else if length args + 1 \<ge> MAXARGS then kpanic ''too many args''
         else kbind (parseredirs n) (\<lambda>rs'. parseargs n (args @ [w]) (rs @ rs')))) t"
      proof (rule good_bind[OF good_token], goal_cases)
        case (1 x u)
        obtain tok w where x: "x = (tok, w)" by (cases x)
        have "good (kbind (parseredirs n) (\<lambda>rs'. parseargs n (args @ [w]) (rs @ rs'))) u" if "tok \<noteq> 0"
        proof -
          have "ubyte t \<noteq> 0" using 1(1) that token_zero[of t] t by (auto simp: x)
          then have "length u < length t" using token_less[of t] t 1(1) by auto
          then have "length u < n" using t Suc.prems by simp
          then show ?thesis by (auto intro!: good_bind good_redirs Suc.IH)
        qed
        then show ?case by (auto simp: x intro!: good_panic good_ret)
      qed
      then show ?thesis using False by simp
    qed (simp add: good_ret)
  qed
qed simp

lemma good_back: "length s < n \<Longrightarrow> good (parseback n c) s"
proof (induction n arbitrary: s c)
  case (Suc n)
  show ?case
    unfolding parseback.simps kseq_def
  proof (rule good_bind[OF good_peek], goal_cases)
    case (1 p t)
    show ?case
    proof (cases p)
      case True
      then have "good (kbind gettoken (\<lambda>_. parseback n (BACK c))) t"
        using 1(1) Suc by (intro good_after_peek) auto
      then show ?thesis using True by simp
    qed (simp add: good_ret)
  qed
qed simp

text \<open>The same tail occurs in three parsers: a symbol, then another parser on a shorter input.\<close>

lemma good_tail:
  assumes "\<And>u. length u < length s \<Longrightarrow> good m u"
  shows "good (kbind (peek toks) (\<lambda>p. if p then kseq gettoken (kbind m (\<lambda>r. kret (f r))) else kret c)) s"
  unfolding kseq_def
proof (rule good_bind[OF good_peek], goal_cases)
  case (1 p t)
  show ?case
  proof (cases p)
    case True
    then have "good (kbind gettoken (\<lambda>_. kbind m (\<lambda>r. kret (f r)))) t"
      using 1(1) assms by (intro good_after_peek) (auto intro!: good_bind good_ret)
    then show ?thesis using True by simp
  qed (simp add: good_ret)
qed

lemma good_parsers:
  "(4 * length s + 5 \<le> n \<longrightarrow> good (parseline n) s) \<and> (4 * length s + 4 \<le> n \<longrightarrow> good (parsepipe n) s) \<and>
   (4 * length s + 3 \<le> n \<longrightarrow> good (parseexec n) s) \<and> (4 * length s + 2 \<le> n \<longrightarrow> good (parseblock n) s)"
proof (induction n arbitrary: s)
  case (Suc n)
  note IH = Suc.IH
  have "good (parseline (Suc n)) s" if "4 * length s + 5 \<le> Suc n"
    unfolding parseline.simps
  proof (rule good_bind, goal_cases)
    case 1
    then show ?case using IH that by simp
  next
    case (2 c0 t)
    then have "good (parseback n c0) t" using that by (intro good_back) simp
    then show ?case
      by (rule good_bind) (rule good_tail, use IH that 2 in auto)
  qed
  moreover have "good (parsepipe (Suc n)) s" if "4 * length s + 4 \<le> Suc n"
    unfolding parsepipe.simps
    by (rule good_bind, use IH that in simp, rule good_tail, use IH that in auto)
  moreover have "good (parseexec (Suc n)) s" if "4 * length s + 3 \<le> Suc n"
    unfolding parseexec.simps
  proof (rule good_bind[OF good_peek], goal_cases)
    case (1 p t)
    show ?case using IH[of t] that 1(2) by (auto intro!: good_bind good_redirs good_args)
  qed
  moreover have "good (parseblock (Suc n)) s" if "4 * length s + 2 \<le> Suc n"
    unfolding parseblock.simps kseq_def
  proof (rule good_bind[OF good_peek], goal_cases)
    case (1 p t)
    show ?case
    proof (cases p)
      case True
      then have pk: "peek [40] s = Ok True t" using 1(1) by simp
      have "good (kbind gettoken (\<lambda>_. kbind (parseline n) (\<lambda>c. kbind (peek [41]) (\<lambda>p.
        if \<not> p then kpanic ''syntax - missing )''
        else kbind gettoken (\<lambda>_. kbind (parseredirs n) (\<lambda>rs. kret (wrap c rs))))))) t"
      proof (rule good_after_peek[OF pk], rule good_bind, goal_cases)
        case (1 tok w u)
        then show ?case using IH[of u] that by simp
      next
        case (2 tok w u c v)
        then show ?case
          using that by (auto intro!: good_bind[OF good_peek] good_bind[OF good_token] good_bind[OF good_redirs] good_panic good_ret)
      qed
      then show ?thesis using True by simp
    qed (simp add: good_panic)
  qed
  ultimately show ?case by blast
qed simp

section \<open>Printing commands\<close>

datatype token = W "uchar list" | S uchar

fun tok_str :: "token \<Rightarrow> uchar list" where
  "tok_str (W w) = w @ [32]"
| "tok_str (S c) = [c, 32]"

definition render :: "token list \<Rightarrow> uchar list" where
  "render ts = concat (map tok_str ts)"

definition word_ok :: "uchar list \<Rightarrow> bool" where
  "word_ok w \<longleftrightarrow> w \<noteq> [] \<and> (\<forall>c \<in> set w. c \<noteq> 0 \<and> \<not> is_ws c \<and> \<not> is_sym c)"

fun tok_ok :: "token \<Rightarrow> bool" where
  "tok_ok (W w) = word_ok w"
| "tok_ok (S c) = (c \<in> set symbols)"

definition up_redir :: "uchar list \<times> 32 word \<times> nat \<Rightarrow> token list" where
  "up_redir r = (case r of (f, m, d) \<Rightarrow> [S (if d = 0 then 60 else 62), W f])"

text \<open>The tokens of a command: a list, a background, pipe or redirected command inside one that binds tighter is put in parentheses.\<close>

fun up_exec :: "cmd \<Rightarrow> token list" and up_pipe :: "cmd \<Rightarrow> token list"
  and up_back :: "cmd \<Rightarrow> token list" and up_line :: "cmd \<Rightarrow> token list" where
  "up_exec (EXEC ws) = map W ws"
| "up_exec (REDIR c f m d) = up_exec c @ up_redir (f, m, d)"
| "up_exec (PIPE l r) = S 40 # up_exec l @ S 124 # up_pipe r @ [S 41]"
| "up_exec (BACK c) = S 40 # up_back c @ [S 38, S 41]"
| "up_exec (LIST l r) = S 40 # up_back l @ S 59 # up_line r @ [S 41]"
| "up_pipe (PIPE l r) = up_exec l @ S 124 # up_pipe r"
| "up_pipe c = up_exec c"
| "up_back (BACK c) = up_back c @ [S 38]"
| "up_back c = up_pipe c"
| "up_line (LIST l r) = up_back l @ S 59 # up_line r"
| "up_line c = up_back c"

text \<open>Commands the shell can write: arguments that fit, and the two kinds of redirection.\<close>

primrec wf_cmd :: "cmd \<Rightarrow> bool" where
  "wf_cmd (EXEC ws) \<longleftrightarrow> length ws < MAXARGS \<and> (\<forall>w \<in> set ws. word_ok w)"
| "wf_cmd (REDIR c f m d) \<longleftrightarrow> wf_cmd c \<and> word_ok f \<and> (m = 0 \<and> d = 0 \<or> m = 0x201 \<and> d = 1)"
| "wf_cmd (PIPE l r) \<longleftrightarrow> wf_cmd l \<and> wf_cmd r"
| "wf_cmd (LIST l r) \<longleftrightarrow> wf_cmd l \<and> wf_cmd r"
| "wf_cmd (BACK c) \<longleftrightarrow> wf_cmd c"

section \<open>Reading tokens back\<close>

lemma render_simps [simp]: "render [] = []" "render (t # ts) = tok_str t @ render ts" "render (ts @ us) = render ts @ render us"
  by (simp_all add: render_def)

lemma sym_props: "c \<in> set symbols \<Longrightarrow> c \<noteq> 0 \<and> \<not> is_ws c \<and> is_sym c"
  by (auto simp: symbols_def is_ws_iff is_sym_iff whitespace_def)

lemma word_front: "word_ok w \<Longrightarrow> \<exists>c cs. w = c # cs \<and> c \<noteq> 0 \<and> \<not> is_ws c \<and> \<not> is_sym c"
  by (cases w) (auto simp: word_ok_def)

lemma skip_render: "list_all tok_ok ts \<Longrightarrow> skip_ws (render ts) = render ts"
proof (cases ts)
  case (Cons t us)
  assume "list_all tok_ok ts"
  then have "tok_ok t" using Cons by simp
  then show ?thesis
    using Cons sym_props word_front by (cases t) (auto simp: skip_ws_def, fastforce)
qed (simp add: skip_ws_def)

lemma skip_space: "skip_ws (32 # s) = skip_ws s"
  by (simp add: skip_ws_def is_ws_iff whitespace_def)

definition starts :: "uchar set \<Rightarrow> token list \<Rightarrow> bool" where
  "starts A ts \<longleftrightarrow> (\<exists>c us. ts = S c # us \<and> c \<in> A)"

lemma starts_simps [simp]: "\<not> starts A []" "starts A (S c # us) \<longleftrightarrow> c \<in> A" "\<not> starts A (W w # us)"
  by (simp_all add: starts_def)

lemma ustrchr_mem: "0 \<notin> set toks \<Longrightarrow> ustrchr toks c \<noteq> None \<longleftrightarrow> c \<in> set toks"
  by (induction toks) auto

lemma peek_render:
  assumes "list_all tok_ok ts" and "set toks \<subseteq> set symbols"
  shows "peek toks (render ts) = Ok (starts (set toks) ts) (render ts)"
proof -
  have z: "0 \<notin> set toks" using assms(2) sym_props by blast
  have "(ubyte (render ts) \<noteq> 0 \<and> ustrchr toks (ubyte (render ts)) \<noteq> None) = starts (set toks) ts"
  proof (cases ts)
    case (Cons t us)
    then have ok: "tok_ok t" using assms(1) by simp
    show ?thesis
    proof (cases t)
      case (W w)
      then obtain c cs where c: "w = c # cs" "\<not> is_sym c" using ok word_front[of w] by auto
      then have "c \<notin> set toks" using assms(2) by (auto simp: is_sym_iff)
      then show ?thesis using Cons W c ustrchr_mem[OF z, of c] by (simp add: ubyte_def)
    next
      case (S c)
      then have "c \<noteq> 0" using ok sym_props[of c] by simp
      then show ?thesis using Cons S ustrchr_mem[OF z, of c] by (simp add: ubyte_def)
    qed
  qed (simp add: ubyte_def)
  then show ?thesis using assms(1) by (simp add: peek_def Let_def skip_render)
qed

lemma token_word:
  assumes "word_ok w" and "list_all tok_ok ts"
  shows "gettoken (w @ 32 # render ts) = Ok (97, w) (render ts)"
proof -
  obtain c cs where c: "w = c # cs" "c \<noteq> 0" "\<not> is_ws c" "\<not> is_sym c" using word_front[OF assms(1)] by blast
  have ok: "\<forall>c \<in> set w. \<not> is_ws c \<and> \<not> is_sym c" using assms(1) by (simp add: word_ok_def)
  have sp: "is_ws 32" by (simp add: is_ws_iff whitespace_def)
  have tw: "takeWhile (\<lambda>b. \<not> is_ws b \<and> \<not> is_sym b) (w @ 32 # render ts) = w"
    "dropWhile (\<lambda>b. \<not> is_ws b \<and> \<not> is_sym b) (w @ 32 # render ts) = 32 # render ts"
    using ok sp by (simp_all add: takeWhile_append dropWhile_append)
  have "scan (w @ 32 # render ts) = (97, w, 32 # render ts)"
    using c tw by (auto simp: scan_def ubyte_def Let_def is_sym_iff symbols_def)
  moreover have "skip_ws (w @ 32 # render ts) = w @ 32 # render ts" using c by (simp add: skip_ws_def)
  ultimately show ?thesis using assms(2) by (simp add: gettoken_def skip_space skip_render)
qed

lemma token_sym:
  assumes "c \<in> set symbols" and "list_all tok_ok ts"
  shows "gettoken (c # 32 # render ts) = Ok (c, [c]) (render ts)"
proof -
  have "skip_ws (c # 32 # render ts) = c # 32 # render ts" using sym_props[OF assms(1)] by (simp add: skip_ws_def)
  moreover have "scan (c # 32 # render ts) = (c, [c], 32 # render ts)"
    using assms(1) by (auto simp: scan_def ubyte_def symbols_def)
  ultimately show ?thesis using assms(2) by (simp add: gettoken_def skip_space skip_render)
qed

lemma up_exec_ok: "wf_cmd c \<Longrightarrow> list_all tok_ok (up_exec c)" and up_pipe_ok: "wf_cmd c \<Longrightarrow> list_all tok_ok (up_pipe c)"
  and up_back_ok: "wf_cmd c \<Longrightarrow> list_all tok_ok (up_back c)" and up_line_ok: "wf_cmd c \<Longrightarrow> list_all tok_ok (up_line c)"
  by (induction c and c and c and c rule: up_exec_up_pipe_up_back_up_line.induct)
    (auto simp: symbols_def up_redir_def list_all_iff)

lemma token_W: "word_ok w \<Longrightarrow> list_all tok_ok ts \<Longrightarrow> gettoken (render (W w # ts)) = Ok (97, w) (render ts)"
  and token_S: "c \<in> set symbols \<Longrightarrow> list_all tok_ok ts \<Longrightarrow> gettoken (render (S c # ts)) = Ok (c, [c]) (render ts)"
  by (simp_all add: token_word token_sym)

declare render_simps [simp del]

lemmas tok_step = kbind_Ok kseq_Ok token_W token_S peek_render k_prims

lemma symbols_mem: "{60, 124, 62, 38, 59, 40, 41} = set symbols"
  by (auto simp: symbols_def)

definition redir_ok :: "uchar list \<times> 32 word \<times> nat \<Rightarrow> bool" where
  "redir_ok r \<longleftrightarrow> (case r of (f, m, d) \<Rightarrow> word_ok f \<and> (m = 0 \<and> d = 0 \<or> m = 0x201 \<and> d = 1))"

definition up_redirs :: "(uchar list \<times> 32 word \<times> nat) list \<Rightarrow> token list" where
  "up_redirs rs = concat (map up_redir rs)"

lemma up_redirs_simps [simp]: "up_redirs [] = []" "up_redirs (r # rs) = up_redir r @ up_redirs rs"
  "up_redirs (rs @ rs') = up_redirs rs @ up_redirs rs'"
  by (simp_all add: up_redirs_def)

lemma up_redirs_ok: "list_all redir_ok rs \<Longrightarrow> list_all tok_ok (up_redirs rs)"
  by (induction rs) (auto simp: redir_ok_def up_redir_def symbols_def)

lemma length_up_redirs [simp]: "length (up_redirs rs) = 2 * length rs"
  by (induction rs) (auto simp: up_redir_def)

lemma parseredirs_reads:
  "length rs < n \<Longrightarrow> list_all redir_ok rs \<Longrightarrow> list_all tok_ok ts \<Longrightarrow> \<not> starts {60, 62} ts \<Longrightarrow>
     parseredirs n (render (up_redirs rs @ ts)) = Ok rs (render ts)"
proof (induction rs arbitrary: n)
  case Nil
  then obtain k where "n = Suc k" by (cases n) auto
  then show ?case using Nil by (simp add: tok_step symbols_def)
next
  case (Cons r rs)
  then obtain k where n: "n = Suc k" by (cases n) auto
  obtain f m d where r: "r = (f, m, d)" by (cases r)
  let ?c = "if d = 0 then 60 else 62 :: uchar"
  have ok: "word_ok f" "redir_of ?c f = r" "?c \<in> set symbols" "list_all tok_ok (up_redirs rs @ ts)"
    using Cons.prems up_redirs_ok[of rs] by (auto simp: r redir_ok_def[of "(f, m, d)"] redir_of_def symbols_def)
  have e: "up_redirs (r # rs) @ ts = S ?c # W f # up_redirs rs @ ts" by (simp add: r up_redir_def)
  have IH: "parseredirs k (render (up_redirs rs @ ts)) = Ok rs (render ts)"
    by (rule Cons.IH) (use Cons.prems n in auto)
  have pk: "peek [60, 62] (render (S ?c # W f # up_redirs rs @ ts)) = Ok True (render (S ?c # W f # up_redirs rs @ ts))"
    using peek_render[of "S ?c # W f # up_redirs rs @ ts" "[60, 62]"] ok by (simp add: symbols_def)
  have t1: "gettoken (render (S ?c # W f # up_redirs rs @ ts)) = Ok (?c, [?c]) (render (W f # up_redirs rs @ ts))"
    by (rule token_S) (use ok in auto)
  have t2: "gettoken (render (W f # up_redirs rs @ ts)) = Ok (97, f) (render (up_redirs rs @ ts))"
    by (rule token_W) (use ok in auto)
  show ?case
    unfolding e n parseredirs.simps by (simp add: k_simps pk t1 t2 IH ok(2))
qed

lemma parseargs_stop:
  assumes "list_all tok_ok ts" and "ts = [] \<or> starts {124, 41, 38, 59} ts" and "0 < n"
  shows "parseargs n args rs (render ts) = Ok (wrap (EXEC args) rs) (render ts)"
proof -
  obtain k where n: "n = Suc k" using assms(3) by (cases n) auto
  have pk: "peek [124, 41, 38, 59] (render ts) = Ok (starts {124, 41, 38, 59} ts) (render ts)"
    using peek_render[OF assms(1), of "[124, 41, 38, 59]"] by (simp add: symbols_def)
  show ?thesis
  proof (cases "ts = []")
    case True
    have g: "gettoken [] = Ok (0, []) []" by (simp add: gettoken_def scan_def ubyte_def skip_ws_def)
    have pk0: "peek [124, 41, 38, 59] [] = Ok False []" using pk True by (simp add: render_simps)
    show ?thesis by (simp add: n k_simps pk0 g render_simps True)
  next
    case False
    then show ?thesis using assms(2) by (simp add: n k_simps pk)
  qed
qed

lemma parseargs_reads:
  "length ws + length rs' + 1 < n \<Longrightarrow> list_all word_ok ws \<Longrightarrow> list_all redir_ok rs' \<Longrightarrow> list_all tok_ok ts \<Longrightarrow>
     ts = [] \<or> starts {124, 41, 38, 59} ts \<Longrightarrow> length args + length ws < MAXARGS \<Longrightarrow> ws \<noteq> [] \<or> rs' = [] \<Longrightarrow>
     parseargs n args rs (render (map W ws @ up_redirs rs' @ ts)) = Ok (wrap (EXEC (args @ ws)) (rs @ rs')) (render ts)"
proof (induction ws arbitrary: n args rs)
  case Nil
  then show ?case using parseargs_stop[of ts n args rs] by simp
next
  case (Cons w ws)
  then obtain k where n: "n = Suc k" by (cases n) auto
  let ?us = "map W ws @ up_redirs rs' @ ts"
  have us: "list_all tok_ok ?us" using Cons.prems up_redirs_ok by (auto simp: list_all_iff)
  have w: "word_ok w" using Cons.prems by simp
  have pk: "peek [124, 41, 38, 59] (render (W w # ?us)) = Ok False (render (W w # ?us))"
    using peek_render[of "W w # ?us" "[124, 41, 38, 59]"] us w by (simp add: symbols_def)
  have t: "gettoken (render (W w # ?us)) = Ok (97, w) (render ?us)" by (rule token_W[OF w us])
  show ?case
  proof (cases "ws = []")
    case True
    have "\<not> starts {60, 62} ts" using Cons.prems(5) by (auto simp: starts_def)
    then have r: "parseredirs k (render ?us) = Ok rs' (render ts)"
      using parseredirs_reads[of rs' k ts] Cons.prems n True by simp
    have "parseargs k (args @ [w]) (rs @ rs') (render ts) = Ok (wrap (EXEC (args @ [w])) (rs @ rs')) (render ts)"
      by (rule parseargs_stop) (use Cons.prems n in auto)
    then show ?thesis
      using Cons.prems(6) n pk t r by (simp add: k_simps True)
  next
    case False
    then have ns: "\<not> starts {60, 62} ?us" by (cases ws) auto
    have r: "parseredirs k (render ?us) = Ok [] (render ?us)"
      using parseredirs_reads[of "[]" k ?us] us ns Cons.prems(1) n by simp
    have "parseargs k (args @ [w]) rs (render ?us) = Ok (wrap (EXEC ((args @ [w]) @ ws)) (rs @ rs')) (render ts)"
      by (rule Cons.IH) (use Cons.prems n False in auto)
    then show ?thesis
      using Cons.prems n by (simp add: k_simps pk t r)
  qed
qed

section \<open>Reading commands back\<close>

fun base :: "cmd \<Rightarrow> cmd" where
  "base (REDIR c f m d) = base c"
| "base c = c"

fun redirs :: "cmd \<Rightarrow> (uchar list \<times> 32 word \<times> nat) list" where
  "redirs (REDIR c f m d) = redirs c @ [(f, m, d)]"
| "redirs c = []"

fun fore :: "cmd \<Rightarrow> cmd" where
  "fore (BACK c) = fore c"
| "fore c = c"

fun backs :: "cmd \<Rightarrow> nat" where
  "backs (BACK c) = Suc (backs c)"
| "backs c = 0"

lemma wrap_base: "wrap (base c) (redirs c) = c"
  by (induction c rule: base.induct) (auto simp: wrap_def)

lemma up_base: "up_exec c = up_exec (base c) @ up_redirs (redirs c)"
  by (induction c rule: base.induct) (auto simp: up_redir_def)

lemma wf_base: "wf_cmd c \<Longrightarrow> wf_cmd (base c) \<and> list_all redir_ok (redirs c)"
  by (induction c rule: base.induct) (auto simp: redir_ok_def)

lemma size_base: "size (base c) \<le> size c"
  by (induction c rule: base.induct) auto

lemma up_fore: "up_back c = up_pipe (fore c) @ replicate (backs c) (S 38)"
  by (induction c rule: fore.induct) (auto simp: replicate_append_same)

lemma fore_props: "wf_cmd c \<Longrightarrow> wf_cmd (fore c)" "(BACK ^^ backs c) (fore c) = c" "size (fore c) \<le> size c"
  by (induction c rule: fore.induct) auto

lemma up_block: "base c = c \<Longrightarrow> (\<And>ws. c \<noteq> EXEC ws) \<Longrightarrow> up_exec c = S 40 # up_line c @ [S 41]"
proof (cases c)
  case (REDIR d f m x)
  assume "base c = c"
  then have "size (base d) = size (REDIR d f m x)" using REDIR by simp
  then show ?thesis using size_base[of d] by simp
qed auto

lemma parseback_reads:
  "k < n \<Longrightarrow> list_all tok_ok ts \<Longrightarrow> \<not> starts {38} ts \<Longrightarrow>
     parseback n c (render (replicate k (S 38) @ ts)) = Ok ((BACK ^^ k) c) (render ts)"
proof (induction k arbitrary: n c)
  case 0
  then obtain j where "n = Suc j" by (cases n) auto
  then show ?case using 0 by (simp add: k_simps peek_render symbols_def)
next
  case (Suc k)
  then obtain j where n: "n = Suc j" by (cases n) auto
  let ?us = "replicate k (S 38) @ ts"
  have us: "list_all tok_ok ?us" using Suc.prems by (auto simp: list_all_iff symbols_def)
  have pk: "peek [38] (render (S 38 # ?us)) = Ok True (render (S 38 # ?us))"
    using peek_render[of "S 38 # ?us" "[38]"] us by (simp add: symbols_def)
  have t: "gettoken (render (S 38 # ?us)) = Ok (38, [38]) (render ?us)"
    by (rule token_S[OF _ us]) (simp add: symbols_def)
  have "parseback j (BACK c) (render ?us) = Ok ((BACK ^^ k) (BACK c)) (render ts)"
    by (rule Suc.IH) (use Suc.prems n in auto)
  then show ?case using pk t by (simp add: n k_simps funpow_swap1)
qed

text \<open>A parser that reads these tokens as this command before one of the symbols that may follow.\<close>

definition reads_as :: "(nat \<Rightarrow> (uchar list, cmd) km) \<Rightarrow> nat \<Rightarrow> uchar set \<Rightarrow> token list \<Rightarrow> cmd \<Rightarrow> bool" where
  "reads_as parse f F us c \<longleftrightarrow>
     (\<forall>ts n. list_all tok_ok ts \<longrightarrow> ts = [] \<or> starts F ts \<longrightarrow> 4 * length us + f \<le> n \<longrightarrow>
        parse n (render (us @ ts)) = Ok c (render ts))"

abbreviation exec_reads :: "cmd \<Rightarrow> bool" where
  "exec_reads c \<equiv> reads_as parseexec 3 {124, 41, 38, 59} (up_exec c) c"
abbreviation pipe_reads :: "cmd \<Rightarrow> bool" where
  "pipe_reads c \<equiv> reads_as parsepipe 4 {41, 38, 59} (up_pipe c) c"
abbreviation line_reads :: "cmd \<Rightarrow> bool" where
  "line_reads c \<equiv> reads_as parseline 5 {41} (up_line c) c"

lemma reads_asD: "reads_as parse f F us c \<Longrightarrow> list_all tok_ok ts \<Longrightarrow> ts = [] \<or> starts F ts \<Longrightarrow> 4 * length us + f \<le> n \<Longrightarrow>
    parse n (render (us @ ts)) = Ok c (render ts)"
  unfolding reads_as_def by blast

lemma exec_plain:
  assumes "wf_cmd c" and "base c = EXEC ws"
  shows "exec_reads c"
  unfolding reads_as_def
proof (intro allI impI)
  fix ts n
  assume ts: "list_all tok_ok ts" "ts = [] \<or> starts {124, 41, 38, 59} ts" and len: "4 * length (up_exec c) + 3 \<le> n"
  have w: "length ws < MAXARGS" "list_all word_ok ws" "list_all redir_ok (redirs c)"
    using wf_base[OF assms(1)] assms(2) by (auto simp: list_all_iff)
  have up: "up_exec c = map W ws @ up_redirs (redirs c)" using up_base[of c] assms(2) by simp
  let ?us = "map W ws @ up_redirs (redirs c) @ ts"
  have us: "list_all tok_ok ?us" using w ts up_redirs_ok by (auto simp: list_all_iff)
  obtain k where n: "n = Suc k" "length ws + length (redirs c) + 1 < k" using len up by (cases n) auto
  have "\<not> starts {40} ?us"
    using ts by (cases ws; cases "redirs c") (auto simp: up_redir_def starts_def split: prod.splits)
  then have pk: "peek [40] (render ?us) = Ok False (render ?us)"
    using peek_render[OF us, of "[40]"] by (simp add: symbols_def)
  have nr: "\<not> starts {60, 62} ts" using ts(2) by (auto simp: starts_def)
  show "parseexec n (render (up_exec c @ ts)) = Ok c (render ts)"
  proof (cases "ws = []")
    case True
    have r: "parseredirs k (render ?us) = Ok (redirs c) (render ts)"
      using parseredirs_reads[of "redirs c" k ts] w ts nr n True by simp
    have a: "parseargs k [] (redirs c) (render ts) = Ok (wrap (EXEC []) (redirs c)) (render ts)"
      by (rule parseargs_stop) (use ts n in auto)
    show ?thesis using pk r a wrap_base[of c] assms(2) True by (simp add: n up k_simps)
  next
    case False
    then have "\<not> starts {60, 62} ?us" by (cases ws) auto
    then have r: "parseredirs k (render ?us) = Ok [] (render ?us)"
      using parseredirs_reads[of "[]" k ?us] us n by simp
    have a: "parseargs k [] [] (render ?us) = Ok (wrap (EXEC ([] @ ws)) ([] @ redirs c)) (render ts)"
      by (rule parseargs_reads) (use w ts n False in auto)
    show ?thesis using pk r a wrap_base[of c] assms(2) by (simp add: n up k_simps)
  qed
qed

lemma exec_block:
  assumes "wf_cmd c" and "\<And>ws. base c \<noteq> EXEC ws" and line: "line_reads (base c)"
  shows "exec_reads c"
  unfolding reads_as_def
proof (intro allI impI)
  fix ts n
  assume ts: "list_all tok_ok ts" "ts = [] \<or> starts {124, 41, 38, 59} ts" and len: "4 * length (up_exec c) + 3 \<le> n"
  have bb: "base (base c) = base c" by (induction c rule: base.induct) auto
  have up: "up_exec c = S 40 # up_line (base c) @ S 41 # up_redirs (redirs c)"
    using up_base[of c] up_block[OF bb assms(2)] by simp
  have w: "list_all tok_ok (up_line (base c))" "list_all redir_ok (redirs c)"
    using wf_base[OF assms(1)] up_line_ok by auto
  let ?vs = "up_redirs (redirs c) @ ts"
  let ?us = "up_line (base c) @ S 41 # ?vs"
  have vs: "list_all tok_ok ?vs" using w ts up_redirs_ok by auto
  then have us: "list_all tok_ok ?us" using w by (simp add: symbols_def)
  obtain k where n: "n = Suc (Suc k)" "4 * length (up_line (base c)) + 5 \<le> k" "length (redirs c) < k"
  proof
    show "n = Suc (Suc (n - 2))" using len up by simp
  qed (use len up in auto)
  have pk: "peek [40] (render (S 40 # ?us)) = Ok True (render (S 40 # ?us))"
    using peek_render[of "S 40 # ?us" "[40]"] us by (simp add: symbols_def)
  have t: "gettoken (render (S 40 # ?us)) = Ok (40, [40]) (render ?us)" by (rule token_S[OF _ us]) (simp add: symbols_def)
  have l: "parseline k (render ?us) = Ok (base c) (render (S 41 # ?vs))"
    by (rule reads_asD[OF line]) (use vs n in \<open>auto simp: symbols_def\<close>)
  have pk2: "peek [41] (render (S 41 # ?vs)) = Ok True (render (S 41 # ?vs))"
    using peek_render[of "S 41 # ?vs" "[41]"] vs by (simp add: symbols_def)
  have t2: "gettoken (render (S 41 # ?vs)) = Ok (41, [41]) (render ?vs)" by (rule token_S[OF _ vs]) (simp add: symbols_def)
  have nr: "\<not> starts {60, 62} ts" using ts(2) by (auto simp: starts_def)
  have r: "parseredirs k (render ?vs) = Ok (redirs c) (render ts)" by (rule parseredirs_reads) (use w ts nr n in auto)
  show "parseexec n (render (up_exec c @ ts)) = Ok c (render ts)"
    using pk t l pk2 t2 r wrap_base[of c] by (simp add: n(1) up k_simps)
qed

lemma pipe_plain: "exec_reads c \<Longrightarrow> (\<And>l r. c \<noteq> PIPE l r) \<Longrightarrow> pipe_reads c"
  unfolding reads_as_def
proof (intro allI impI)
  fix ts n
  assume ex: "\<forall>ts n. list_all tok_ok ts \<longrightarrow> ts = [] \<or> starts {124, 41, 38, 59} ts \<longrightarrow> 4 * length (up_exec c) + 3 \<le> n \<longrightarrow>
      parseexec n (render (up_exec c @ ts)) = Ok c (render ts)" and np: "\<And>l r. c \<noteq> PIPE l r"
  assume ts: "list_all tok_ok ts" "ts = [] \<or> starts {41, 38, 59} ts" and len: "4 * length (up_pipe c) + 4 \<le> n"
  have up: "up_pipe c = up_exec c" using np by (cases c) auto
  obtain k where n: "n = Suc k" using len by (cases n) auto
  have e: "parseexec k (render (up_exec c @ ts)) = Ok c (render ts)"
    using ex ts len up n by (auto simp: starts_def)
  have "\<not> starts {124} ts" using ts(2) by (auto simp: starts_def)
  then have pk: "peek [124] (render ts) = Ok False (render ts)"
    using peek_render[OF ts(1), of "[124]"] by (simp add: symbols_def)
  show "parsepipe n (render (up_pipe c @ ts)) = Ok c (render ts)"
    using e pk by (simp add: n up k_simps)
qed

lemma pipe_pipe:
  assumes "exec_reads l" and "pipe_reads r" and "wf_cmd r"
  shows "pipe_reads (PIPE l r)"
  unfolding reads_as_def
proof (intro allI impI)
  fix ts n
  assume ts: "list_all tok_ok ts" "ts = [] \<or> starts {41, 38, 59} ts" and len: "4 * length (up_pipe (PIPE l r)) + 4 \<le> n"
  let ?us = "up_pipe r @ ts"
  have us: "list_all tok_ok ?us" using ts up_pipe_ok[OF assms(3)] by simp
  obtain k where n: "n = Suc k" using len by (cases n) auto
  have e: "parseexec k (render (up_exec l @ S 124 # ?us)) = Ok l (render (S 124 # ?us))"
    by (rule reads_asD[OF assms(1)]) (use us len n in \<open>auto simp: symbols_def\<close>)
  have pk: "peek [124] (render (S 124 # ?us)) = Ok True (render (S 124 # ?us))"
    using peek_render[of "S 124 # ?us" "[124]"] us by (simp add: symbols_def)
  have t: "gettoken (render (S 124 # ?us)) = Ok (124, [124]) (render ?us)" by (rule token_S[OF _ us]) (simp add: symbols_def)
  have p: "parsepipe k (render ?us) = Ok r (render ts)"
    by (rule reads_asD[OF assms(2)]) (use ts len n in auto)
  show "parsepipe n (render (up_pipe (PIPE l r) @ ts)) = Ok (PIPE l r) (render ts)"
    using e pk t p by (simp add: n k_simps)
qed

text \<open>The part of \<open>parseline\<close> up to the semicolon.\<close>

lemma back_reads:
  assumes "pipe_reads (fore c)" and "list_all tok_ok ts" and "ts = [] \<or> starts {41, 59} ts" and "4 * length (up_back c) + 4 \<le> k"
  shows "kbind (parsepipe k) (parseback k) (render (up_back c @ ts)) = Ok c (render ts)"
proof -
  let ?us = "replicate (backs c) (S 38) @ ts"
  have us: "list_all tok_ok ?us" using assms(2) by (auto simp: list_all_iff symbols_def)
  have "?us = [] \<or> starts {41, 38, 59} ?us" using assms(3) by (cases "backs c") (auto simp: starts_def)
  then have p: "parsepipe k (render (up_pipe (fore c) @ ?us)) = Ok (fore c) (render ?us)"
    by (rule reads_asD[OF assms(1) us]) (use assms(4) up_fore[of c] in simp)
  have "\<not> starts {38} ts" using assms(3) by (auto simp: starts_def)
  then have b: "parseback k (fore c) (render ?us) = Ok c (render ts)"
    using parseback_reads[of "backs c" k ts "fore c"] assms(2,4) up_fore[of c] fore_props(2)[of c] by simp
  show ?thesis using p b by (simp add: up_fore k_simps)
qed

lemma kbind_two: "kbind m (\<lambda>x. kbind (f x) g) s = kbind (kbind m f) g s"
  by (simp add: kbind_assoc)

lemma line_plain:
  assumes "pipe_reads (fore c)" and "\<And>l r. c \<noteq> LIST l r"
  shows "line_reads c"
  unfolding reads_as_def
proof (intro allI impI)
  fix ts n
  assume ts: "list_all tok_ok ts" "ts = [] \<or> starts {41} ts" and len: "4 * length (up_line c) + 5 \<le> n"
  have up: "up_line c = up_back c" using assms(2) by (cases c) auto
  obtain k where n: "n = Suc k" using len by (cases n) auto
  have b: "kbind (parsepipe k) (parseback k) (render (up_back c @ ts)) = Ok c (render ts)"
    by (rule back_reads[OF assms(1) ts(1)]) (use ts len up n in \<open>auto simp: starts_def\<close>)
  have "\<not> starts {59} ts" using ts(2) by (auto simp: starts_def)
  then have pk: "peek [59] (render ts) = Ok False (render ts)"
    using peek_render[OF ts(1), of "[59]"] by (simp add: symbols_def)
  show "parseline n (render (up_line c @ ts)) = Ok c (render ts)"
    unfolding n parseline.simps up kbind_two by (subst kbind_Ok[where m = "kbind (parsepipe k) (parseback k)", OF b]) (simp add: pk k_simps)
qed

lemma line_list:
  assumes "pipe_reads (fore l)" and "line_reads r" and "wf_cmd r"
  shows "line_reads (LIST l r)"
  unfolding reads_as_def
proof (intro allI impI)
  fix ts n
  assume ts: "list_all tok_ok ts" "ts = [] \<or> starts {41} ts" and len: "4 * length (up_line (LIST l r)) + 5 \<le> n"
  let ?us = "up_line r @ ts"
  have us: "list_all tok_ok ?us" using ts up_line_ok[OF assms(3)] by simp
  obtain k where n: "n = Suc k" using len by (cases n) auto
  have b: "kbind (parsepipe k) (parseback k) (render (up_back l @ S 59 # ?us)) = Ok l (render (S 59 # ?us))"
    by (rule back_reads[OF assms(1)]) (use us len n in \<open>auto simp: symbols_def\<close>)
  have pk: "peek [59] (render (S 59 # ?us)) = Ok True (render (S 59 # ?us))"
    using peek_render[of "S 59 # ?us" "[59]"] us by (simp add: symbols_def)
  have t: "gettoken (render (S 59 # ?us)) = Ok (59, [59]) (render ?us)" by (rule token_S[OF _ us]) (simp add: symbols_def)
  have p: "parseline k (render ?us) = Ok r (render ts)"
    by (rule reads_asD[OF assms(2)]) (use ts len n in auto)
  have e: "up_line (LIST l r) @ ts = up_back l @ S 59 # ?us" by simp
  show "parseline n (render (up_line (LIST l r) @ ts)) = Ok (LIST l r) (render ts)"
    unfolding n parseline.simps e kbind_two by (subst kbind_Ok[where m = "kbind (parsepipe k) (parseback k)", OF b]) (simp add: pk t p k_simps)
qed

lemma all_read: "wf_cmd c \<Longrightarrow> exec_reads c \<and> pipe_reads c \<and> line_reads c"
proof (induction "size c" arbitrary: c rule: less_induct)
  case less
  have smaller: "exec_reads d \<and> pipe_reads d \<and> line_reads d" if "size d < size c" "wf_cmd d" for d
    using less that by blast
  have exec: "exec_reads c" if "\<And>ws. base c \<noteq> EXEC ws \<Longrightarrow> line_reads (base c)"
    using that exec_plain[OF less.prems] exec_block[OF less.prems] by (cases "\<exists>ws. base c = EXEC ws") auto
  show ?case
  proof (cases c)
    case (EXEC ws)
    then have e: "exec_reads c" using exec_plain[OF less.prems] by simp
    then have "pipe_reads c" using EXEC by (intro pipe_plain) auto
    then show ?thesis using e EXEC line_plain[of c] by simp
  next
    case (REDIR d f m x)
    have "size (base c) < size c" using REDIR size_base[of d] by simp
    then have e: "exec_reads c" using exec smaller wf_base[OF less.prems] by blast
    then have "pipe_reads c" using REDIR by (intro pipe_plain) auto
    then show ?thesis using e REDIR line_plain[of c] by simp
  next
    case (PIPE l r)
    have p: "pipe_reads c"
      unfolding PIPE by (rule pipe_pipe) (use smaller[of l] smaller[of r] less.prems PIPE in auto)
    then have "line_reads c" using PIPE line_plain[of c] by simp
    then show ?thesis using p exec PIPE by simp
  next
    case (LIST l r)
    have f: "pipe_reads (fore l)" using smaller[of "fore l"] fore_props[of l] less.prems LIST by simp
    have l: "line_reads c"
      unfolding LIST by (rule line_list) (use f smaller[of r] less.prems LIST in auto)
    then have e: "exec_reads c" using exec LIST by simp
    then show ?thesis using l LIST pipe_plain[of c] by simp
  next
    case (BACK d)
    have "pipe_reads (fore c)" using smaller[of "fore d"] fore_props[of d] less.prems BACK by simp
    then have l: "line_reads c" using BACK line_plain[of c] by simp
    then have e: "exec_reads c" using exec BACK by simp
    then show ?thesis using l BACK pipe_plain[of c] by simp
  qed
qed

lemma length_render: "list_all tok_ok ts \<Longrightarrow> length ts \<le> length (render ts)"
proof (induction ts)
  case (Cons t ts)
  have "Suc 0 \<le> length (tok_str t)" by (cases t) auto
  then show ?case using Cons by (simp add: render_simps)
qed simp

section \<open>Properties\<close>

text \<open>
  Claim C14. The parser always ends: on every line it either returns a command with the whole line read, or stops
  with one of the shell's syntax errors; the fuel \<open>parsecmd\<close> starts with is never used up.
\<close>

theorem parsecmd_total: "(\<exists>c. parsecmd s = Ok c []) \<or> (\<exists>msg. parsecmd s = Fail (EPanic msg))"
proof -
  have "good (parseline (4 * length s + 5)) s" using good_parsers[of s "4 * length s + 5"] by simp
  then consider c t where "parseline (4 * length s + 5) s = Ok c t" | msg where "parseline (4 * length s + 5) s = Fail (EPanic msg)"
    by (auto simp: good_def split: outcome.splits)
  then show ?thesis
    by cases (auto simp: parsecmd_def k_simps peek_def Let_def)
qed

text \<open>
  Claim C13. Every command the shell can express is read back from its text: printing it with blanks between
  tokens and parentheses where they are needed, and parsing the text, gives the same command, with the nesting of
  redirections, pipes, lists and background commands intact.
\<close>

theorem parsecmd_roundtrip:
  assumes "wf_cmd c"
  shows "parsecmd (render (up_line c)) = Ok c []"
proof -
  let ?s = "render (up_line c)"
  have "4 * length (up_line c) + 5 \<le> 4 * length ?s + 5" using length_render[OF up_line_ok[OF assms]] by simp
  then have "parseline (4 * length ?s + 5) ?s = Ok c []"
    using reads_asD[of parseline 5 "{41}" "up_line c" c "[]"] all_read[OF assms] by (simp add: render_simps)
  then show ?thesis by (simp add: parsecmd_def k_simps peek_def skip_ws_def)
qed

theorem parsecmd_roundtrip_witness:
  "let c = LIST (BACK (PIPE (REDIR (EXEC [[97], [98]]) [99] 0 0) (EXEC [[100]]))) (REDIR (BACK (EXEC [[101]])) [102] 0x201 1) in
   parsecmd (render (up_line c)) = Ok c []"
  unfolding Let_def
  by (rule parsecmd_roundtrip) (simp add: word_ok_def MAXARGS_def is_ws_iff is_sym_iff whitespace_def symbols_def)

end
