(* ===== verification/Spec2Isabelle.thy ===== *)
theory Spec2Isabelle
  imports Keyboard Idequeue Image Paths Umalloc Grep Shell
begin

text \<open>
  Verification of xv6-64: a Unix-like kernel for 64-bit x86, its user programs, and the program that builds
  its disk image. The sources are under \<^verbatim>\<open>src/\<close>.

  \<^bold>\<open>How the program is modelled.\<close> Kernel code is a state transformer of the type \<open>('s, 'a) km\<close> of theory \<open>Prelude\<close>:
  a run ends with a result (\<open>Ok\<close>), with \<open>Fail\<close> (a panic, an endless wait, or an access the C code must not make), or with
  \<open>Switch\<close>, where the running process leaves the processor. A process that slept goes on with the \<open>_return\<close> definition
  of the function it slept in. The state is a chain of records, one per layer, so that a layer sees the layers below it
  and is parametric in those above: locks and processors, physical memory, the process table, sleep locks, the buffer
  cache, the log, inodes, the console, open files and pipes, system calls, ports, the disk queue. Machine integers
  are words (\<open>uchar\<close>, \<open>ushort\<close>, \<open>uint\<close>, \<open>addr_t\<close>) wherever they can wrap; pointers are addresses, or table indices where
  C code only ever points into a table. What hardware or the kernel answers (bytes on a port, results of reads,
  refused memory) is a list in the state, consumed in order.

  \<^bold>\<open>Parts of the program and their theories.\<close>
  \<^item> \<open>Prelude\<close>, \<open>Memory\<close>, \<open>Cstring\<close>, \<open>Ring\<close>, \<open>Format\<close>: the outcome monad with its frame rules (locale \<open>kframe\<close>), byte memory
    and little-endian fields, \<^verbatim>\<open>string.c\<close>, ring buffers with free-running counters, and number printing
    (\<^verbatim>\<open>console.c\<close>, \<^verbatim>\<open>printf.c\<close>). Shown: copying is safe for overlapping ranges, strings stay in their buffers, printed
    numbers read back.
  \<^item> \<open>Spinlock\<close>, \<open>Kalloc\<close>, \<open>Proctab\<close>, \<open>Sleeplock\<close>: \<^verbatim>\<open>spinlock.c\<close>, \<^verbatim>\<open>kalloc.c\<close>, the table, scheduler, sleep and wakeup of
    \<^verbatim>\<open>proc.c\<close>, \<^verbatim>\<open>sleeplock.c\<close>. Interleavings of processors are inductive step relations. Shown: mutual
    exclusion of both kinds of locks, a process runs on one processor at most, every runnable process is reached by a sweep,
    the free list of pages, new processes, \<open>kill\<close>.
  \<^item> \<open>Vm\<close>: the four-level page tables of \<^verbatim>\<open>vm.c\<close>. Shown: \<open>mappages\<close> and \<open>allocuvm\<close> change the page map at
    the pages asked for and nowhere else; what \<open>copyout\<close> does on every branch.
  \<^item> \<open>Bio\<close>, \<open>Logging\<close>: \<^verbatim>\<open>bio.c\<close> with \<^verbatim>\<open>memide.c\<close>, and \<^verbatim>\<open>log.c\<close>. The buffer cache refines a disk with a view of
    cached blocks (a locale for its clients, interpreted on the cache). Shown: writes are read back, a crash at any point of a commit
    leaves all of a transaction or nothing after recovery, and a finished operation is durable.
  \<^item> \<open>Inode\<close>, \<open>Console\<close>, \<open>Dir\<close>, \<open>File\<close>, \<open>Process\<close>, \<open>Syscall\<close>, \<open>Exec\<close>, \<open>Trap\<close>: the operations of \<^verbatim>\<open>fs.c\<close>,
    \<^verbatim>\<open>console.c\<close>, \<^verbatim>\<open>file.c\<close>, \<^verbatim>\<open>pipe.c\<close>, the rest of \<^verbatim>\<open>proc.c\<close>, \<^verbatim>\<open>syscall.c\<close>, \<^verbatim>\<open>sysfile.c\<close>, \<^verbatim>\<open>sysproc.c\<close>,
    \<^verbatim>\<open>exec.c\<close> and \<^verbatim>\<open>trap.c\<close>. Shown in \<open>Console\<close>: the interrupt handler is a line editor, and the screen stays in its bounds.
  \<^item> \<open>Alloc\<close>, \<open>Content\<close>, \<open>Directory\<close>, \<open>Paths\<close>: what the file system operations mean. The bitmap is a set of free blocks,
    an inode with its blocks is a byte string, a directory is a list of entries, a path is a list of names. Shown:
    allocation, reading back what was written across direct and indirect blocks, finding what was linked, and path resolution
    as a walk over the names.
  \<^item> \<open>Pipe\<close>, \<open>Keyboard\<close>: a pipe is a bounded queue (locale \<open>bounded_queue\<close>); the scan code decoder keeps to its types and
    follows an abstract keyboard.
  \<^item> \<open>Machine\<close>, \<open>Ide\<close>, \<open>Idequeue\<close>: ports and controllers (\<^verbatim>\<open>ioapic.c\<close>, \<^verbatim>\<open>lapic.c\<close>, \<^verbatim>\<open>uart.c\<close>), the firmware tables
    (\<^verbatim>\<open>mp.c\<close>), the start-up order (\<^verbatim>\<open>main.c\<close>), and the driver \<^verbatim>\<open>ide.c\<close>, whose requests form a queue.
  \<^item> \<open>Mkfs\<close>, \<open>Image\<close>: \<^verbatim>\<open>mkfs.c\<close>, and that the kernel boots from the image it writes.
  \<^item> \<open>Ulib\<close>, \<open>Umalloc\<close>, \<open>Grep\<close>, \<open>Shell\<close>: \<^verbatim>\<open>ulib.c\<close>, \<^verbatim>\<open>printf.c\<close>, the small utilities, \<^verbatim>\<open>umalloc.c\<close>, \<^verbatim>\<open>grep.c\<close> and the
    parser of \<^verbatim>\<open>sh.c\<close>. Shown: word counts do not depend on how reads cut the input, allocated blocks never overlap, the matcher
    decides its language, the parser ends and reads back every printable command.

  \<^bold>\<open>Bounds and fuel.\<close> The parser of the shell takes fuel \<open>4 * n + 5\<close> for a line of \<open>n\<close> characters, and is shown never to
  run out of it. Loops of user programs that read until the end of input get one turn more than there are reads to come.
  The walk to the end of the disk queue takes \<open>NBUF + 1\<close> steps, enough for a queue of distinct buffers. The loops of
  \<^verbatim>\<open>umalloc.c\<close> are partial functions, and their ending is part of what is proved, for heaps below 64 gigabytes, where no
  block size can wrap; the machine has 224 megabytes. Waiting loops of the kernel end with \<open>ESpin\<close> when the answers in
  the state are used up.

  \<^bold>\<open>Not modelled.\<close> The assembly files (\<^verbatim>\<open>entry.S\<close>, \<^verbatim>\<open>bootasm.S\<close>, \<^verbatim>\<open>entryother.S\<close>, \<^verbatim>\<open>swtch.S\<close>, \<^verbatim>\<open>trapasm.S\<close>, \<^verbatim>\<open>initcode.S\<close>,
  \<^verbatim>\<open>usys.S\<close>) and the boot loader \<^verbatim>\<open>bootmain.c\<close>, which run before or beneath the C code; \<open>seginit\<close>, \<open>syscallinit\<close>
  and the loading of descriptor tables, which only write processor registers; the part of \<^verbatim>\<open>sh.c\<close> that forks and waits, the
  listing loop of \<^verbatim>\<open>ls.c\<close>, and \<^verbatim>\<open>init.c\<close>; the test programs (\<^verbatim>\<open>usertests.c\<close>, \<^verbatim>\<open>stressfs.c\<close>, \<^verbatim>\<open>forktest.c\<close>,
  \<^verbatim>\<open>zombie.c\<close>), which only exercise the calls modelled here. Caches, the memory order of several processors and the timing
  of devices are outside the model.
\<close>

end
